(* ===== verification/Prelude.thy ===== *)
theory Prelude
  imports Main "HOL-Library.Word"
begin

section \<open>Prelude: shared types and generic lemmas\<close>

text \<open>
  The types every component of mini-lsm speaks in, and the facts on words, lists and iteration
  that more than one component needs.

  \<^item> \<open>byte\<close> is one \<^verbatim>\<open>char\<close>/\<^verbatim>\<open>uint8_t\<close> of a buffer; a
    \<^verbatim>\<open>std::string\<close> payload, a \<^verbatim>\<open>Slice\<close> and the contents of a file are
    \<open>bytes\<close>;
  \<^item> \<open>u32\<close> and \<open>u64\<close> are \<^verbatim>\<open>uint32_t\<close> and \<^verbatim>\<open>uint64_t\<close>, with their wrap-around;
  \<^item> \<^verbatim>\<open>size_t\<close> values that count elements of a container are \<open>nat\<close>.

  The collections \<open>mlsm_simps\<close> (unfolding of the small accessors of the model) and
  \<open>mlsm_bounds\<close> (numeric facts on the constants of the formats) carry the component proofs;
  \<open>mlsm_eval\<close> are the equations by which the simplifier evaluates the model on closed input.
\<close>

unbundle bit_operations_syntax

named_theorems mlsm_simps
named_theorems mlsm_bounds
named_theorems mlsm_eval

type_synonym byte = "8 word"
type_synonym bytes = "byte list"
type_synonym u32 = "32 word"
type_synonym u64 = "64 word"


subsection \<open>Words\<close>

lemma word_and_1_eq_0_iff: "c AND 1 = 0 \<longleftrightarrow> even c" for c :: "'a::len word"
  by (simp add: and_one_eq even_iff_mod_2_eq_zero)

lemma word_and_1_neq_0_iff: "c AND 1 \<noteq> 0 \<longleftrightarrow> odd c" for c :: "'a::len word"
  by (simp add: word_and_1_eq_0_iff)

lemma word_even_iff_bit: "even c \<longleftrightarrow> \<not> bit c 0" for c :: "'a::len word"
  by (simp add: bit_0)

lemma byte_bit_high [simp]: "8 \<le> k \<Longrightarrow> \<not> bit (x :: byte) k"
  by (auto dest: bit_imp_le_length)

lemma unat_u64_less [simp]: "unat (x :: u64) < 2 ^ 64"
  using unsigned_less [of x] by simp

lemma unat_u32_less [simp]: "unat (x :: u32) < 2 ^ 32"
  using unsigned_less [of x] by simp

lemma unat_byte_less [simp]: "unat (x :: byte) < 256"
  using unsigned_less [of x] by simp

lemma unat_of_nat_u64: "n < 2 ^ 64 \<Longrightarrow> unat (of_nat n :: u64) = n"
  by (simp add: unat_of_nat)

lemma unat_of_nat_u32: "n < 2 ^ 32 \<Longrightarrow> unat (of_nat n :: u32) = n"
  by (simp add: unat_of_nat)

lemma unat_of_nat_byte: "n < 256 \<Longrightarrow> unat (of_nat n :: byte) = n"
  by (simp add: unat_of_nat)


lemma word_xor_left_cancel [simp]: "a XOR b = a XOR c \<longleftrightarrow> b = c" for a :: "'a::len word"
proof
  assume "a XOR b = a XOR c"
  then have "a XOR (a XOR b) = a XOR (a XOR c)" by (rule arg_cong)
  then show "b = c" by (simp add: xor.assoc [symmetric])
qed simp

lemma word_xor_right_cancel [simp]: "a XOR c = b XOR c \<longleftrightarrow> a = b" for a :: "'a::len word"
  by (simp add: xor.commute [of _ c])

lemma byte_ucast_u32_inject [simp]: "(ucast a :: u32) = ucast b \<longleftrightarrow> a = b" for a b :: byte
proof
  assume eq: "(ucast a :: u32) = ucast b"
  show "a = b"
  proof (rule bit_word_eqI)
    fix n assume "n < LENGTH(8)"
    moreover from eq have "bit (ucast a :: u32) n = bit (ucast b :: u32) n" by simp
    ultimately show "bit a n = bit b n" by (simp add: bit_simps)
  qed
qed simp

lemma u32_rotate_back:
  fixes w :: u32
  assumes "a + b = 32"
  shows "drop_bit b (drop_bit a w OR push_bit b w) OR push_bit a (drop_bit a w OR push_bit b w) = w"
proof (rule bit_word_eqI)
  fix n assume n: "n < LENGTH(32)"
  show "bit (drop_bit b (drop_bit a w OR push_bit b w) OR
             push_bit a (drop_bit a w OR push_bit b w)) n = bit w n"
  proof (cases "n < a")
    case True
    with n assms show ?thesis by (auto simp: bit_simps dest: bit_imp_le_length)
  next
    case False
    with n assms show ?thesis by (auto simp: bit_simps dest: bit_imp_le_length)
  qed
qed

lemma u32_xor_all_ones: "c XOR 0xffffffff = NOT c" for c :: u32
proof -
  have "(0xffffffff :: u32) = - 1" by simp
  then show ?thesis by (simp only: bit.xor_one_right)
qed

lemma word_and_0xff: "w AND 0xff = take_bit 8 w" for w :: "'a::len word"
  by (simp add: take_bit_eq_mask mask_eq_exp_minus_1)


subsection \<open>Iteration\<close>

lemma funpow_invariant: "(\<And>x. P x \<Longrightarrow> P (f x)) \<Longrightarrow> P x \<Longrightarrow> P ((f ^^ n) x)" for f :: "'a \<Rightarrow> 'a"
  by (induction n) auto

lemma foldl_inj_acc: "(\<And>x. inj (\<lambda>a. f a x)) \<Longrightarrow> inj (\<lambda>a. foldl f a xs)"
proof (induction xs)
  case Nil
  show ?case by (simp add: inj_def)
next
  case (Cons x xs)
  have "inj (\<lambda>a. foldl f a xs)" by (rule Cons.IH) (rule Cons.prems)
  from inj_compose [OF this Cons.prems [of x]] show ?case by (simp add: o_def)
qed


subsection \<open>Lists\<close>

lemma take_append_exact [simp]: "length xs = n \<Longrightarrow> take n (xs @ ys) = xs"
  by simp

lemma drop_append_exact [simp]: "length xs = n \<Longrightarrow> drop n (xs @ ys) = ys"
  by simp

lemma take_drop_min:
  "take t (drop a xs) @ drop (a + min (length xs - a) t) xs = drop a xs"
proof -
  have "drop (a + min (length xs - a) t) xs = drop t (drop a xs)"
    by (cases "t \<le> length xs - a") (auto simp: min_def add.commute)
  then show ?thesis by (simp only: append_take_drop_id)
qed

lemma length_eq_4_conv: "length xs = 4 \<longleftrightarrow> (\<exists>a b c d. xs = [a, b, c, d])"
  by (auto simp: length_Suc_conv eval_nat_numeral)

lemma u64_pred_less:
  fixes n :: u64
  assumes "c < n"
  shows "unat (n - 1) < unat n"
proof -
  have "n \<noteq> 0" using assms word_not_simps(1) by blast
  moreover from this have "0 < unat n" by (simp add: unat_gt_0)
  ultimately show ?thesis by (simp add: unat_minus_one)
qed

lemma unat_Suc_u64: "Suc (unat w) < 2 ^ 64 \<Longrightarrow> unat (w + 1 :: u64) = Suc (unat w)"
  by (simp add: unat_word_ariths)

lemma u64_le_pred:
  fixes k n :: u64
  assumes "k < n"
  shows "k \<le> n - 1"
proof -
  have "n \<noteq> 0" using assms word_not_simps(1) by blast
  then have "unat (n - 1) = unat n - 1" by (rule unat_minus_one)
  with assms show ?thesis by (simp add: word_less_nat_alt word_le_nat_alt)
qed

lemma u64_less_succ:
  fixes t :: u64
  assumes "t \<noteq> - 1"
  shows "t < t + 1"
proof -
  have "t + 1 \<noteq> 0" using assms by (simp add: eq_neg_iff_add_eq_0)
  moreover from this have "0 < unat (t + 1)" by (simp add: unat_gt_0)
  ultimately show ?thesis using unat_minus_one [of "t + 1"] by (simp add: word_less_nat_alt)
qed

lemma u64_below_max: "Suc (unat x) < 2 ^ 64 \<Longrightarrow> x \<noteq> (- 1 :: u64)"
  by (auto simp: unsigned_minus_1_eq_mask mask_eq_exp_minus_1)

end
