(* ===== verification/Coding.thy ===== *)
theory Coding
  imports Prelude
begin

section \<open>Fixed-width little-endian integers (coding.h)\<close>

text \<open>
  \<^verbatim>\<open>EncodeFixed32\<close> writes four bytes at its destination; the model returns them.
  \<^verbatim>\<open>DecodeFixed32\<close> reads the first four bytes behind its pointer. Its callers check
  that four bytes are there; where they are not, the C++ reads out of bounds and the model's
  value is unspecified (\<open>!\<close> beyond the end), so no lemma speaks of that case.
\<close>

definition EncodeFixed32 :: "u32 \<Rightarrow> bytes" where
  "EncodeFixed32 value =
     [ucast (value AND 0xff),
      ucast (drop_bit 8 value AND 0xff),
      ucast (drop_bit 16 value AND 0xff),
      ucast (drop_bit 24 value AND 0xff)]"

definition DecodeFixed32 :: "bytes \<Rightarrow> u32" where
  "DecodeFixed32 p =
     ucast (p ! 0) OR
     push_bit 8 (ucast (p ! 1)) OR
     push_bit 16 (ucast (p ! 2)) OR
     push_bit 24 (ucast (p ! 3))"

lemma length_EncodeFixed32 [simp]: "length (EncodeFixed32 v) = 4"
  by (simp add: EncodeFixed32_def)

lemma EncodeFixed32_not_Nil [simp]: "EncodeFixed32 v \<noteq> []"
  by (simp add: EncodeFixed32_def)

text \<open>Only the first four bytes matter to the decoder.\<close>

lemma DecodeFixed32_append:
  "4 \<le> length p \<Longrightarrow> DecodeFixed32 (p @ q) = DecodeFixed32 p"
  by (cases p) (auto simp: DecodeFixed32_def nth_append)

lemma DecodeFixed32_EncodeFixed32 [simp]: "DecodeFixed32 (EncodeFixed32 v) = v"
proof (rule bit_word_eqI)
  fix n assume n: "n < LENGTH(32)"
  then consider "n < 8" | "8 \<le> n" "n < 16" | "16 \<le> n" "n < 24" | "24 \<le> n" "n < 32"
    by fastforce
  then show "bit (DecodeFixed32 (EncodeFixed32 v)) n = bit v n"
    by cases (simp add: DecodeFixed32_def EncodeFixed32_def bit_simps word_and_0xff, arith?)+
qed

lemma DecodeFixed32_EncodeFixed32_append [simp]:
  "DecodeFixed32 (EncodeFixed32 v @ q) = v"
  by (simp add: DecodeFixed32_append)

lemma EncodeFixed32_DecodeFixed32: "length p = 4 \<Longrightarrow> EncodeFixed32 (DecodeFixed32 p) = p"
proof -
  assume "length p = 4"
  then obtain a b c d where "p = [a, b, c, d]" by (auto simp: length_eq_4_conv)
  then show ?thesis
    by (auto simp: DecodeFixed32_def EncodeFixed32_def bit_simps word_and_0xff
        intro!: bit_word_eqI)
qed

lemma EncodeFixed32_inject [simp]: "EncodeFixed32 v = EncodeFixed32 w \<longleftrightarrow> v = w"
  by (metis DecodeFixed32_EncodeFixed32)


text \<open>
  The two fixed-width helpers are inverse to each other, also where more bytes
  follow the four of the integer, so writer and reader agree on the format.
\<close>

theorem Fixed32_round_trip:
  "DecodeFixed32 (EncodeFixed32 v @ rest) = v \<and>
   EncodeFixed32 (DecodeFixed32 [a, b, c, d]) = [a, b, c, d]"
  by (simp add: EncodeFixed32_DecodeFixed32)

end
