(* ===== verification/Crc32c.thy ===== *)
theory Crc32c
  imports Prelude
begin

section \<open>CRC-32C (crc32c.h, crc32c.cc)\<close>

text \<open>
  The table-driven checksum of the write-ahead log. \<open>crc_bit\<close> is the body of the inner
  loop of \<^verbatim>\<open>MakeTable\<close> (one shift of the reflected Castagnoli register), \<open>crc_byte\<close>
  the body of the loop of \<^verbatim>\<open>Extend\<close> (one table lookup). The lemmas show that the
  table lookup is eight shifts of the register, so that the fast routine computes the
  bit-at-a-time reference, that the checksum can be chained, that masking loses nothing, and
  which corruptions cannot go unnoticed.
\<close>

definition crc_bit :: "u32 \<Rightarrow> u32" where
  "crc_bit c = (if c AND 1 \<noteq> 0 then 0x82f63b78 XOR drop_bit 1 c else drop_bit 1 c)"

definition MakeTable :: "u32 list" where
  "MakeTable = map (\<lambda>i. (crc_bit ^^ 8) (of_nat i)) [0..<256]"

definition kTable :: "u32 list" where
  "kTable = MakeTable"

definition crc_byte :: "u32 \<Rightarrow> byte \<Rightarrow> u32" where
  "crc_byte c b = kTable ! unat ((c XOR ucast b) AND 0xff) XOR drop_bit 8 c"

definition Extend :: "u32 \<Rightarrow> bytes \<Rightarrow> u32" where
  "Extend crc data = foldl crc_byte (crc XOR 0xffffffff) data XOR 0xffffffff"

definition Value :: "bytes \<Rightarrow> u32" where
  "Value data = Extend 0 data"

definition kMaskDelta :: u32 where
  "kMaskDelta = 0xa282ead8"

definition Mask :: "u32 \<Rightarrow> u32" where
  "Mask crc = (drop_bit 15 crc OR push_bit 17 crc) + kMaskDelta"

definition Unmask :: "u32 \<Rightarrow> u32" where
  "Unmask masked_crc =
     (let rot = masked_crc - kMaskDelta in drop_bit 17 rot OR push_bit 15 rot)"

text \<open>The reference: the register is shifted once per message bit, no table.\<close>

definition crc_reference :: "u32 \<Rightarrow> bytes \<Rightarrow> u32" where
  "crc_reference crc data = NOT (foldl (\<lambda>c b. (crc_bit ^^ 8) (c XOR ucast b)) (NOT crc) data)"


subsection \<open>The table is eight shifts of the register\<close>

lemma crc_bit_odd: "crc_bit c = (if odd c then 0x82f63b78 XOR drop_bit 1 c else drop_bit 1 c)"
  by (simp add: crc_bit_def word_and_1_eq_0_iff)

lemma crc_bit_xor: "crc_bit (a XOR b) = crc_bit a XOR crc_bit b"
proof -
  have "odd (a XOR b) \<longleftrightarrow> odd a \<noteq> odd b" by (simp add: even_xor_iff)
  then show ?thesis
    by (auto simp: crc_bit_odd drop_bit_xor xor.assoc xor.left_commute)
qed

lemma crc_bits_xor: "(crc_bit ^^ n) (a XOR b) = (crc_bit ^^ n) a XOR (crc_bit ^^ n) b"
  by (induction n) (simp_all add: crc_bit_xor)

lemma crc_bits_low_zero: "(\<And>i. i < n \<Longrightarrow> \<not> bit c i) \<Longrightarrow> (crc_bit ^^ n) c = drop_bit n c"
proof (induction n)
  case 0
  show ?case by simp
next
  case (Suc n)
  have "even (drop_bit n c)" using Suc.prems [of n] by (simp add: bit_iff_odd_drop_bit)
  then have "crc_bit (drop_bit n c) = drop_bit (Suc n) c"
    by (simp add: crc_bit_odd)
  moreover have "(crc_bit ^^ n) c = drop_bit n c" by (rule Suc.IH) (simp add: Suc.prems)
  ultimately show ?case by simp
qed

lemma crc_bits_split: "(crc_bit ^^ 8) c = (crc_bit ^^ 8) (c AND 0xff) XOR drop_bit 8 c"
proof -
  let ?hi = "push_bit 8 (drop_bit 8 c)"
  have c: "c = (c AND 0xff) XOR ?hi"
    by (rule bit_word_eqI) (auto simp: bit_simps word_and_0xff)
  have "(crc_bit ^^ 8) ?hi = drop_bit 8 ?hi"
    by (rule crc_bits_low_zero) (simp add: bit_simps)
  also have "\<dots> = drop_bit 8 c"
    by (rule bit_word_eqI) (auto simp: bit_simps dest: bit_imp_le_length)
  finally show ?thesis by (subst c) (simp only: crc_bits_xor)
qed

lemma kTable_nth: "unat w < 256 \<Longrightarrow> kTable ! unat w = (crc_bit ^^ 8) w" for w :: u32
  by (simp add: kTable_def MakeTable_def)

lemma unat_and_0xff_less: "unat (w AND 0xff) < 256" for w :: u32
proof -
  have "unat (take_bit 8 w) = take_bit 8 (unat w)" by (simp add: unsigned_take_bit_eq)
  then show ?thesis by (simp add: word_and_0xff take_bit_eq_mod)
qed

lemma crc_byte_bits: "crc_byte c b = (crc_bit ^^ 8) (c XOR ucast b)"
proof -
  have "drop_bit 8 (ucast b :: u32) = 0"
    by (rule bit_word_eqI) (simp add: bit_simps)
  then have "drop_bit 8 (c XOR ucast b) = drop_bit 8 c" by (simp add: drop_bit_xor)
  then show ?thesis
    by (simp add: crc_byte_def kTable_nth unat_and_0xff_less crc_bits_split [of "c XOR ucast b"])
qed

lemma crc_byte_code [code]:
  "crc_byte c b = (crc_bit ^^ 8) ((c XOR ucast b) AND 0xff) XOR drop_bit 8 c"
  by (simp add: crc_byte_def kTable_nth unat_and_0xff_less)


subsection \<open>The register never loses information\<close>

text \<open>
  One shift is injective: its top bit tells whether the polynomial was added. So a register
  difference survives every further byte, and a difference in one byte makes one.
\<close>

lemma crc_bit_top: "bit (crc_bit c) 31 \<longleftrightarrow> odd c"
proof -
  have "\<not> bit (drop_bit 1 c) 31" by (auto simp: bit_simps dest: bit_imp_le_length)
  moreover have "bit (0x82f63b78 :: u32) 31" by simp
  ultimately show ?thesis by (simp add: crc_bit_odd bit_xor_iff)
qed

lemma inj_crc_bit: "inj crc_bit"
proof (rule injI)
  fix c d assume eq: "crc_bit c = crc_bit d"
  then have par: "odd c \<longleftrightarrow> odd d" by (metis crc_bit_top)
  with eq have hi: "drop_bit 1 c = drop_bit 1 d"
    by (auto simp: crc_bit_odd split: if_splits)
  show "c = d"
  proof (rule bit_word_eqI)
    fix n show "bit c n = bit d n"
    proof (cases n)
      case 0
      with par show ?thesis by (simp add: bit_0)
    next
      case (Suc m)
      from hi have "bit (drop_bit 1 c) m = bit (drop_bit 1 d) m" by simp
      with Suc show ?thesis by (simp add: bit_simps)
    qed
  qed
qed

lemma inj_crc_byte: "inj (\<lambda>c. crc_byte c b)"
proof (rule injI)
  fix c d assume "crc_byte c b = crc_byte d b"
  then have "c XOR ucast b = d XOR ucast b"
    by (simp only: crc_byte_bits inj_eq [OF inj_fn [OF inj_crc_bit]])
  then show "c = d" by simp
qed

lemma crc_byte_inject: "crc_byte c a = crc_byte c b \<longleftrightarrow> a = b"
proof
  assume "crc_byte c a = crc_byte c b"
  then have "c XOR ucast a = c XOR (ucast b :: u32)"
    by (simp only: crc_byte_bits inj_eq [OF inj_fn [OF inj_crc_bit]])
  then show "a = b" by simp
qed simp

lemma inj_foldl_crc_byte: "inj (\<lambda>c. foldl crc_byte c data)"
  by (rule foldl_inj_acc) (rule inj_crc_byte)


subsection \<open>The checksum interface\<close>

lemma Extend_Nil [simp]: "Extend crc [] = crc"
  by (simp add: Extend_def xor.assoc)

lemma Extend_append: "Extend crc (a @ b) = Extend (Extend crc a) b"
  by (simp add: Extend_def xor.assoc)

lemma Extend_Cons: "Extend (Value [t]) p = Value (t # p)"
  using Extend_append [of 0 "[t]" p] by (simp add: Value_def)

lemma Extend_reference: "Extend crc data = crc_reference crc data"
proof -
  have "crc_byte = (\<lambda>c b. (crc_bit ^^ 8) (c XOR ucast b))"
    by (intro ext) (rule crc_byte_bits)
  then show ?thesis by (simp only: Extend_def crc_reference_def u32_xor_all_ones)
qed

lemma Unmask_Mask [simp]: "Unmask (Mask crc) = crc"
  using u32_rotate_back [of 15 17 crc] by (simp add: Mask_def Unmask_def)

lemma Mask_Unmask: "Mask (Unmask m) = m"
  using u32_rotate_back [of 17 15 "m - kMaskDelta"] by (simp add: Mask_def Unmask_def Let_def)

subsection \<open>Bursts\<close>

text \<open>
  Up to four bytes in a row enter the register as one word. Two messages that differ only in
  such a burst therefore differ in their checksum.
\<close>

fun packed :: "bytes \<Rightarrow> u32" where
  "packed [] = 0"
| "packed (b # bs) = ucast b XOR push_bit 8 (packed bs)"

lemma packed_high: "8 * length bs \<le> k \<Longrightarrow> \<not> bit (packed bs) k"
proof (induction bs arbitrary: k)
  case Nil
  then show ?case by simp
next
  case (Cons b bs)
  from Cons.prems have "8 \<le> k" "8 * length bs \<le> k - 8" by auto
  with Cons.IH [of "k - 8"] show ?case by (auto simp: bit_simps)
qed

lemma packed_shift:
  assumes "length bs < 4"
  shows "drop_bit 8 (push_bit 8 (packed bs)) = packed bs"
proof (rule bit_word_eqI)
  fix n assume "n < LENGTH(32)"
  then show "bit (drop_bit 8 (push_bit 8 (packed bs))) n = bit (packed bs) n"
    using packed_high [of bs n] assms by (cases "n < 24") (auto simp: bit_simps)
qed

lemma foldl_crc_byte_packed:
  "length bs \<le> 4 \<Longrightarrow> foldl crc_byte c bs = (crc_bit ^^ (8 * length bs)) (c XOR packed bs)"
proof (induction bs arbitrary: c)
  case Nil
  then show ?case by simp
next
  case (Cons b bs)
  let ?p = "packed bs"
  have "(crc_bit ^^ 8) (push_bit 8 ?p) = drop_bit 8 (push_bit 8 ?p)"
    by (rule crc_bits_low_zero) (simp add: bit_simps)
  also have "\<dots> = ?p" using Cons.prems by (intro packed_shift) simp
  finally have "(crc_bit ^^ 8) (c XOR ucast b) XOR ?p = (crc_bit ^^ 8) (c XOR packed (b # bs))"
    by (simp only: packed.simps xor.assoc [symmetric] crc_bits_xor)
  moreover have "(crc_bit ^^ (8 * length (b # bs))) x = (crc_bit ^^ (8 * length bs)) ((crc_bit ^^ 8) x)" for x
    by (metis add.commute comp_apply funpow_add length_Cons mult_Suc_right)
  moreover have "foldl crc_byte c (b # bs) = (crc_bit ^^ (8 * length bs)) ((crc_bit ^^ 8) (c XOR ucast b) XOR ?p)"
    using Cons.IH [of "crc_byte c b"] Cons.prems by (simp flip: crc_byte_bits)
  ultimately show ?case by (simp only:)
qed

lemma packed_inject:
  "length as = length bs \<Longrightarrow> length bs \<le> 4 \<Longrightarrow> packed as = packed bs \<longleftrightarrow> as = bs"
proof (induction as bs rule: list_induct2)
  case Nil
  show ?case by simp
next
  case (Cons a as b bs)
  show ?case
  proof
    assume eq: "packed (a # as) = packed (b # bs)"
    have lo: "a = b"
    proof (rule bit_word_eqI)
      fix n assume "n < LENGTH(8)"
      moreover from eq have "bit (packed (a # as)) n = bit (packed (b # bs)) n" by simp
      ultimately show "bit a n = bit b n" by (simp add: bit_simps)
    qed
    with eq have "drop_bit 8 (push_bit 8 (packed as)) = drop_bit 8 (push_bit 8 (packed bs))"
      by simp
    with packed_shift Cons have "packed as = packed bs" by simp
    with lo Cons show "a # as = b # bs" by simp
  qed simp
qed

lemma Extend_burst:
  assumes "length a = length b" "length b \<le> 4" "a \<noteq> b"
  shows "Extend crc (xs @ a @ ys) \<noteq> Extend crc (xs @ b @ ys)"
proof -
  let ?c = "foldl crc_byte (crc XOR 0xffffffff) xs"
  have "foldl crc_byte ?c a \<noteq> foldl crc_byte ?c b"
    using assms packed_inject [of a b] inj_eq [OF inj_fn [OF inj_crc_bit]]
    by (simp add: foldl_crc_byte_packed)
  then show ?thesis by (simp add: Extend_def inj_eq [OF inj_foldl_crc_byte])
qed

lemma crc_byte_eval [mlsm_eval]:
  "crc_byte c b =
     (let x = (c XOR ucast b) AND 0xff in
      crc_bit (crc_bit (crc_bit (crc_bit (crc_bit (crc_bit (crc_bit (crc_bit x)))))))) XOR drop_bit 8 c"
  by (simp add: crc_byte_code eval_nat_numeral)

lemmas crc_eval [mlsm_eval] = Value_def Extend_def crc_bit_odd Mask_def Unmask_def kMaskDelta_def


subsection \<open>Properties\<close>

text \<open>
  \<^bold>\<open>C40\<close> The table-driven \<^verbatim>\<open>Extend\<close> computes the bit-at-a-time CRC-32C: for every
  start value and every message it agrees with the register that is shifted once per bit.
\<close>

theorem Extend_is_bitwise_crc: "Extend crc data = crc_reference crc data"
  by (rule Extend_reference)

text \<open>
  Chaining, as crc32c.h promises it: extending the checksum of \<open>a\<close> by \<open>b\<close> is the
  checksum of the concatenation, and \<^verbatim>\<open>Value\<close> is \<^verbatim>\<open>Extend\<close> from zero.
\<close>

theorem Extend_chains: "Extend (Value a) b = Value (a @ b) \<and> Value a = Extend 0 a"
  by (simp add: Value_def Extend_append)

text \<open>
  Masking loses nothing: \<^verbatim>\<open>Unmask\<close> and \<^verbatim>\<open>Mask\<close> are inverse to each other.
\<close>

theorem Mask_bijective: "Unmask (Mask crc) = crc \<and> Mask (Unmask masked_crc) = masked_crc"
  by (simp add: Mask_Unmask)

text \<open>
  Error detection: a corruption confined to at most four consecutive bytes always
  changes the checksum, whatever precedes and follows it.
\<close>

theorem Value_detects_bursts:
  assumes "length a = length b" "length b \<le> 4" "a \<noteq> b"
  shows "Value (xs @ a @ ys) \<noteq> Value (xs @ b @ ys)"
  unfolding Value_def by (rule Extend_burst [OF assms])

theorem Value_detects_bursts_witness:
  "Value ([1, 2] @ [3, 4, 5, 6] @ [7]) \<noteq> Value ([1, 2] @ [3, 9, 9, 6] @ [7])"
  by (rule Value_detects_bursts) simp_all

end
