(* ===== verification/Base_Types.thy ===== *)
theory Base_Types
  imports Prelude
begin

section \<open>Status and Slice (status.h, slice.h)\<close>

text \<open>
  \<^verbatim>\<open>Status\<close> is the error value of every fallible operation: a code and a message.
  A \<^verbatim>\<open>Slice\<close> is a view of a byte range; the model keeps the range of memory its
  pointer leads to and its length, and the bytes it denotes are the first \<open>slice_size\<close> of
  them. Everywhere else in the development a slice argument is the byte list it denotes.
\<close>

datatype Code = kOk | kNotFound | kCorruption | kIOError | kInvalidArgument

record Status =
  status_code :: Code
  status_msg :: string

definition OK :: Status where
  "OK = \<lparr>status_code = kOk, status_msg = ''''\<rparr>"

definition NotFound :: "string \<Rightarrow> Status" where
  "NotFound msg = \<lparr>status_code = kNotFound, status_msg = msg\<rparr>"

definition Corruption :: "string \<Rightarrow> Status" where
  "Corruption msg = \<lparr>status_code = kCorruption, status_msg = msg\<rparr>"

definition IOError :: "string \<Rightarrow> Status" where
  "IOError msg = \<lparr>status_code = kIOError, status_msg = msg\<rparr>"

definition InvalidArgument :: "string \<Rightarrow> Status" where
  "InvalidArgument msg = \<lparr>status_code = kInvalidArgument, status_msg = msg\<rparr>"

definition ok :: "Status \<Rightarrow> bool" where
  "ok s \<longleftrightarrow> status_code s = kOk"

definition IsNotFound :: "Status \<Rightarrow> bool" where
  "IsNotFound s \<longleftrightarrow> status_code s = kNotFound"

definition IsCorruption :: "Status \<Rightarrow> bool" where
  "IsCorruption s \<longleftrightarrow> status_code s = kCorruption"

definition IsIOError :: "Status \<Rightarrow> bool" where
  "IsIOError s \<longleftrightarrow> status_code s = kIOError"

definition Status_ToString :: "Status \<Rightarrow> string" where
  "Status_ToString s =
     (case status_code s of
        kOk \<Rightarrow> ''OK''
      | kNotFound \<Rightarrow> ''NotFound: '' @ status_msg s
      | kCorruption \<Rightarrow> ''Corruption: '' @ status_msg s
      | kIOError \<Rightarrow> ''IOError: '' @ status_msg s
      | kInvalidArgument \<Rightarrow> ''InvalidArgument: '' @ status_msg s)"

record Slice =
  slice_data :: bytes
  slice_size :: nat

definition ToString :: "Slice \<Rightarrow> bytes" where
  "ToString s = take (slice_size s) (slice_data s)"

definition Slice_empty :: "Slice \<Rightarrow> bool" where
  "Slice_empty s \<longleftrightarrow> slice_size s = 0"

text \<open>\<^verbatim>\<open>operator==\<close>: equal sizes, then \<^verbatim>\<open>memcmp\<close> over that many bytes.\<close>

definition memcmp_eq :: "bytes \<Rightarrow> bytes \<Rightarrow> nat \<Rightarrow> bool" where
  "memcmp_eq p q n \<longleftrightarrow> (\<forall>i\<in>set [0..<n]. p ! i = q ! i)"

definition Slice_eq :: "Slice \<Rightarrow> Slice \<Rightarrow> bool" where
  "Slice_eq a b \<longleftrightarrow> slice_size a = slice_size b \<and> memcmp_eq (slice_data a) (slice_data b) (slice_size a)"

text \<open>The bytes of a key as the text of a message.\<close>

definition text_of :: "bytes \<Rightarrow> string" where
  "text_of bs = map (\<lambda>b. char_of (unat b)) bs"

lemma ok_simps [simp]:
  "ok OK" "\<not> ok (NotFound m)" "\<not> ok (Corruption m)" "\<not> ok (IOError m)" "\<not> ok (InvalidArgument m)"
  by (simp_all add: ok_def OK_def NotFound_def Corruption_def IOError_def InvalidArgument_def)

lemma Slice_eq_ToString:
  assumes "slice_size a \<le> length (slice_data a)" "slice_size b \<le> length (slice_data b)"
  shows "Slice_eq a b \<longleftrightarrow> ToString a = ToString b"
proof
  assume "Slice_eq a b"
  with assms show "ToString a = ToString b"
    by (auto simp: Slice_eq_def memcmp_eq_def ToString_def intro!: nth_equalityI)
next
  assume eq: "ToString a = ToString b"
  then have "slice_size a = slice_size b" using assms by (metis ToString_def length_take min_absorb2)
  moreover from this eq have "slice_data a ! i = slice_data b ! i" if "i < slice_size a" for i
    using that by (metis ToString_def nth_take)
  ultimately show "Slice_eq a b" by (auto simp: Slice_eq_def memcmp_eq_def)
qed

end
