(* ===== verification/Posix.thy ===== *)
theory Posix
  imports Base_Types
begin

section \<open>The operating system calls the program makes\<close>

text \<open>
  \<^verbatim>\<open>env_posix.cc\<close> reaches the machine through \<^verbatim>\<open>open\<close>, \<^verbatim>\<open>read\<close>,
  \<^verbatim>\<open>write\<close>, \<^verbatim>\<open>fsync\<close>, \<^verbatim>\<open>lseek\<close>, \<^verbatim>\<open>close\<close>,
  \<^verbatim>\<open>access\<close>, \<^verbatim>\<open>stat\<close> and \<^verbatim>\<open>mkdir\<close>. This theory gives these calls
  their documented POSIX meaning on a small state: regular files and their contents,
  directories, open descriptors. Two parts of the state are about failure:

  \<^item> \<open>os_script\<close> says how the coming calls end, one element per call. \<open>Fails e\<close> is a call
    that fails with \<^verbatim>\<open>errno\<close> \<open>e\<close> and does nothing (permissions, a full disk, an
    interrupt by a signal); \<open>Proceed k\<close> is a call that is carried out, where a
    \<^verbatim>\<open>read\<close> or \<^verbatim>\<open>write\<close> transfers at most \<open>k + 1\<close> bytes (a short count). When
    the script is exhausted every call is carried out in full. Every finite pattern of
    failures, interrupts and short counts is one script.
  \<^item> \<open>os_stable\<close> is, per file, the part of its contents that \<^verbatim>\<open>fsync\<close> has put on
    stable storage. \<open>crash\<close> below is the power failure the write-ahead log is there for.
\<close>

datatype errno = EINTR | EEXIST | ENOENT | EACCES | ENOSPC | EIO | EBADF

fun strerror :: "errno \<Rightarrow> string" where
  "strerror EINTR = ''Interrupted system call''"
| "strerror EEXIST = ''File exists''"
| "strerror ENOENT = ''No such file or directory''"
| "strerror EACCES = ''Permission denied''"
| "strerror ENOSPC = ''No space left on device''"
| "strerror EIO = ''Input/output error''"
| "strerror EBADF = ''Bad file descriptor''"

datatype sys_result = Proceed nat | Fails errno

record file_desc =
  fd_path :: string
  fd_offset :: nat
  fd_append :: bool

record os_state =
  os_files :: "string \<rightharpoonup> bytes"
  os_stable :: "string \<rightharpoonup> bytes"
  os_dirs :: "string set"
  os_fds :: "int \<rightharpoonup> file_desc"
  os_next_fd :: int
  os_script :: "sys_result list"

text \<open>The outcome of the next call; \<open>None\<close> is \<open>Proceed\<close> without a bound.\<close>

definition next_result :: "os_state \<Rightarrow> sys_result option \<times> os_state" where
  "next_result os =
     (case os_script os of [] \<Rightarrow> (None, os) | r # rs \<Rightarrow> (Some r, os\<lparr>os_script := rs\<rparr>))"

definition failure :: "sys_result option \<Rightarrow> errno option" where
  "failure r = (case r of Some (Fails e) \<Rightarrow> Some e | _ \<Rightarrow> None)"

definition transfer :: "sys_result option \<Rightarrow> nat \<Rightarrow> nat" where
  "transfer r n = (case r of Some (Proceed k) \<Rightarrow> min (Suc k) n | _ \<Rightarrow> n)"

definition file_contents :: "os_state \<Rightarrow> string \<Rightarrow> bytes" where
  "file_contents os p = (case os_files os p of None \<Rightarrow> [] | Some c \<Rightarrow> c)"

definition stable_contents :: "os_state \<Rightarrow> string \<Rightarrow> bytes" where
  "stable_contents os p = (case os_stable os p of None \<Rightarrow> [] | Some c \<Rightarrow> c)"

datatype open_mode = Create_Truncate | Create_Append | Read_Only

definition add_fd :: "string \<Rightarrow> bool \<Rightarrow> os_state \<Rightarrow> (errno + int) \<times> os_state" where
  "add_fd p app os =
     (Inr (os_next_fd os),
      os\<lparr>os_fds := (os_fds os)(os_next_fd os \<mapsto> \<lparr>fd_path = p, fd_offset = 0, fd_append = app\<rparr>),
         os_next_fd := os_next_fd os + 1\<rparr>)"

definition create_file :: "string \<Rightarrow> os_state \<Rightarrow> os_state" where
  "create_file p os =
     (case os_files os p of
        Some _ \<Rightarrow> os
      | None \<Rightarrow> os\<lparr>os_files := (os_files os)(p \<mapsto> []), os_stable := (os_stable os)(p \<mapsto> [])\<rparr>)"

definition sys_open :: "string \<Rightarrow> open_mode \<Rightarrow> os_state \<Rightarrow> (errno + int) \<times> os_state" where
  "sys_open p mode os =
     (let (r, os) = next_result os in
      case failure r of
        Some e \<Rightarrow> (Inl e, os)
      | None \<Rightarrow>
          (case mode of
             Create_Truncate \<Rightarrow>
               add_fd p False (os\<lparr>os_files := (os_files os)(p \<mapsto> []), os_stable := (os_stable os)(p \<mapsto> [])\<rparr>)
           | Create_Append \<Rightarrow> add_fd p True (create_file p os)
           | Read_Only \<Rightarrow>
               (case os_files os p of None \<Rightarrow> (Inl ENOENT, os) | Some _ \<Rightarrow> add_fd p False os)))"

text \<open>
  \<^verbatim>\<open>write\<close> on a descriptor opened with \<^verbatim>\<open>O_APPEND\<close> writes at the end of the
  file, on any other at the descriptor's offset.
\<close>

definition sys_write :: "int \<Rightarrow> bytes \<Rightarrow> os_state \<Rightarrow> (errno + nat) \<times> os_state" where
  "sys_write fd data os =
     (let (r, os) = next_result os in
      case failure r of
        Some e \<Rightarrow> (Inl e, os)
      | None \<Rightarrow>
          (case os_fds os fd of
             None \<Rightarrow> (Inl EBADF, os)
           | Some d \<Rightarrow>
               (let n = transfer r (length data);
                    c = file_contents os (fd_path d);
                    at = (if fd_append d then length c else fd_offset d)
                in (Inr n,
                    os\<lparr>os_files := (os_files os)(fd_path d \<mapsto> take at c @ take n data @ drop (at + n) c),
                       os_fds := (os_fds os)(fd \<mapsto> d\<lparr>fd_offset := at + n\<rparr>)\<rparr>))))"

definition sys_read :: "int \<Rightarrow> nat \<Rightarrow> os_state \<Rightarrow> (errno + bytes) \<times> os_state" where
  "sys_read fd n os =
     (let (r, os) = next_result os in
      case failure r of
        Some e \<Rightarrow> (Inl e, os)
      | None \<Rightarrow>
          (case os_fds os fd of
             None \<Rightarrow> (Inl EBADF, os)
           | Some d \<Rightarrow>
               (let bs = take (transfer r n) (drop (fd_offset d) (file_contents os (fd_path d)))
                in (Inr bs, os\<lparr>os_fds := (os_fds os)(fd \<mapsto> d\<lparr>fd_offset := fd_offset d + length bs\<rparr>)\<rparr>))))"

definition sys_fsync :: "int \<Rightarrow> os_state \<Rightarrow> (errno + unit) \<times> os_state" where
  "sys_fsync fd os =
     (let (r, os) = next_result os in
      case failure r of
        Some e \<Rightarrow> (Inl e, os)
      | None \<Rightarrow>
          (case os_fds os fd of
             None \<Rightarrow> (Inl EBADF, os)
           | Some d \<Rightarrow>
               (Inr (), os\<lparr>os_stable := (os_stable os)(fd_path d \<mapsto> file_contents os (fd_path d))\<rparr>)))"

definition sys_lseek_cur :: "int \<Rightarrow> nat \<Rightarrow> os_state \<Rightarrow> (errno + unit) \<times> os_state" where
  "sys_lseek_cur fd n os =
     (let (r, os) = next_result os in
      case failure r of
        Some e \<Rightarrow> (Inl e, os)
      | None \<Rightarrow>
          (case os_fds os fd of
             None \<Rightarrow> (Inl EBADF, os)
           | Some d \<Rightarrow>
               (Inr (), os\<lparr>os_fds := (os_fds os)(fd \<mapsto> d\<lparr>fd_offset := fd_offset d + n\<rparr>)\<rparr>)))"

text \<open>\<^verbatim>\<open>close\<close> gives the descriptor up even where it reports an error.\<close>

definition sys_close :: "int \<Rightarrow> os_state \<Rightarrow> (errno + unit) \<times> os_state" where
  "sys_close fd os =
     (let (r, os) = next_result os; os' = os\<lparr>os_fds := (os_fds os)(fd := None)\<rparr> in
      case failure r of
        Some e \<Rightarrow> (Inl e, os')
      | None \<Rightarrow> (case os_fds os fd of None \<Rightarrow> (Inl EBADF, os) | Some _ \<Rightarrow> (Inr (), os')))"

definition sys_access :: "string \<Rightarrow> os_state \<Rightarrow> (errno + unit) \<times> os_state" where
  "sys_access p os =
     (let (r, os) = next_result os in
      case failure r of
        Some e \<Rightarrow> (Inl e, os)
      | None \<Rightarrow> (if os_files os p \<noteq> None \<or> p \<in> os_dirs os then (Inr (), os) else (Inl ENOENT, os)))"

text \<open>\<^verbatim>\<open>st_size\<close> of a regular file; the program asks for no other.\<close>

definition sys_stat :: "string \<Rightarrow> os_state \<Rightarrow> (errno + nat) \<times> os_state" where
  "sys_stat p os =
     (let (r, os) = next_result os in
      case failure r of
        Some e \<Rightarrow> (Inl e, os)
      | None \<Rightarrow> (case os_files os p of None \<Rightarrow> (Inl ENOENT, os) | Some c \<Rightarrow> (Inr (length c), os)))"

definition sys_mkdir :: "string \<Rightarrow> os_state \<Rightarrow> (errno + unit) \<times> os_state" where
  "sys_mkdir p os =
     (let (r, os) = next_result os in
      case failure r of
        Some e \<Rightarrow> (Inl e, os)
      | None \<Rightarrow>
          (if os_files os p \<noteq> None \<or> p \<in> os_dirs os then (Inl EEXIST, os)
           else (Inr (), os\<lparr>os_dirs := insert p (os_dirs os)\<rparr>)))"

text \<open>
  A crash. No descriptor survives; of every file some prefix of its contents remains, and at
  least the part that was on stable storage. The program only ever appends to its files, so a
  prefix is what an interrupted sequence of writes leaves behind. The coming calls may end in
  any way.
\<close>

definition crash :: "os_state \<Rightarrow> os_state \<Rightarrow> bool" where
  "crash os os' \<longleftrightarrow>
     os_fds os' = Map.empty \<and> os_dirs os' = os_dirs os \<and>
     dom (os_files os') = dom (os_files os) \<and>
     (\<forall>p. \<exists>n. length (stable_contents os p) \<le> n \<and>
              file_contents os' p = take n (file_contents os p)) \<and>
     os_stable os' = os_files os'"

text \<open>A machine with nothing on its disk and no failure ahead.\<close>

definition fresh_os :: os_state where
  "fresh_os = \<lparr>os_files = Map.empty, os_stable = Map.empty, os_dirs = {}, os_fds = Map.empty,
     os_next_fd = 3, os_script = []\<rparr>"

text \<open>What a crash means for one file.\<close>

definition file_crash :: "string \<Rightarrow> os_state \<Rightarrow> os_state \<Rightarrow> bool" where
  "file_crash p os os' \<longleftrightarrow>
     (\<exists>n. length (stable_contents os p) \<le> n \<and> os_files os' p = map_option (take n) (os_files os p))"

text \<open>Scripts without lasting failures: interrupts and short counts only.\<close>

definition harmless :: "os_state \<Rightarrow> bool" where
  "harmless os \<longleftrightarrow> (\<forall>r\<in>set (os_script os). r = Fails EINTR \<or> (\<exists>k. r = Proceed k))"

text \<open>Scripts in which no call fails at all.\<close>

definition calm :: "os_state \<Rightarrow> bool" where
  "calm os \<longleftrightarrow> (\<forall>r\<in>set (os_script os). \<exists>k. r = Proceed k)"

lemmas sys_defs =
  sys_open_def sys_write_def sys_read_def sys_fsync_def sys_lseek_cur_def sys_close_def
  sys_access_def sys_stat_def sys_mkdir_def add_fd_def create_file_def

lemma crash_file: "crash os os' \<Longrightarrow> file_crash p os os'"
proof -
  assume cr: "crash os os'"
  then obtain n where n: "length (stable_contents os p) \<le> n"
    "file_contents os' p = take n (file_contents os p)" unfolding crash_def by blast
  moreover have "os_files os' p = None \<longleftrightarrow> os_files os p = None"
    using cr unfolding crash_def by (metis domIff)
  ultimately show ?thesis
    by (auto simp: file_crash_def file_contents_def intro!: exI [of _ n] split: option.splits)
qed

lemma file_crash_take:
  assumes "file_crash p os os'" "file_contents os p = take k l" "length (stable_contents os p) \<le> k"
    "os_files os p \<noteq> None"
  obtains m where "os_files os' p = Some (take m l)" "length (stable_contents os p) \<le> m"
proof -
  from assms(1) obtain n where "length (stable_contents os p) \<le> n"
    "os_files os' p = map_option (take n) (os_files os p)" unfolding file_crash_def by blast
  moreover have "os_files os p = Some (take k l)" using assms(2,4) by (auto simp: file_contents_def)
  ultimately show thesis using assms(3) by (intro that [of "min n k"]) auto
qed

text \<open>A power failure that spares everything written.\<close>

definition spared :: "os_state \<Rightarrow> os_state" where
  "spared os = os\<lparr>os_fds := Map.empty, os_stable := os_files os, os_script := []\<rparr>"

lemma crash_spared: "crash os (spared os) \<and> calm (spared os)"
proof -
  have "\<exists>n. length (stable_contents os p) \<le> n \<and> file_contents (spared os) p = take n (file_contents os p)" for p
    by (rule exI [of _ "max (length (stable_contents os p)) (length (file_contents os p))"])
       (simp add: spared_def file_contents_def)
  then show ?thesis by (simp add: crash_def calm_def) (simp add: spared_def)
qed

end
