(* ===== verification/Env.thy ===== *)
theory Env
  imports Posix
begin

section \<open>Files (writable_file.h, sequential_file.h, env.h, env_posix.cc)\<close>

text \<open>
  The two abstract classes are their tables of virtual functions: a record of operations on the
  state \<open>'f\<close> behind the object. \<open>posix_writable\<close> and \<open>posix_sequential\<close> are the tables of
  \<^verbatim>\<open>PosixWritableFile\<close> and \<^verbatim>\<open>PosixSequentialFile\<close>; their state is the object
  (path and descriptor) with the operating system it talks to.
\<close>

record 'f WritableFile =
  wf_Append :: "'f \<Rightarrow> bytes \<Rightarrow> Status \<times> 'f"
  wf_Flush :: "'f \<Rightarrow> Status \<times> 'f"
  wf_Sync :: "'f \<Rightarrow> Status \<times> 'f"
  wf_Close :: "'f \<Rightarrow> Status \<times> 'f"

text \<open>\<^verbatim>\<open>Read\<close> returns its status, the slice it sets and the file's next state.\<close>

record 'f SequentialFile =
  sf_Read :: "'f \<Rightarrow> nat \<Rightarrow> Status \<times> bytes \<times> 'f"
  sf_Skip :: "'f \<Rightarrow> nat \<Rightarrow> Status \<times> 'f"

record PosixFile =
  pf_path :: string
  pf_fd :: int

definition PosixError :: "string \<Rightarrow> errno \<Rightarrow> Status" where
  "PosixError context e = IOError (context @ '': '' @ strerror e)"


subsection \<open>The write loop\<close>

lemma next_result_script:
  "next_result os = (r, os') \<Longrightarrow>
   length (os_script os') = length (os_script os) - 1 \<and> (r = None \<longleftrightarrow> os_script os = [])"
  by (auto simp: next_result_def split: list.splits)

lemma sys_write_script:
  assumes "sys_write fd src os = (r, os')" "src \<noteq> []"
  shows "r = Inl EINTR \<Longrightarrow> length (os_script os') < length (os_script os)"
    and "r = Inr n \<Longrightarrow>
         length (os_script os') + length (drop n src) < length (os_script os) + length src"
  using assms
  by (auto simp: sys_write_def next_result_def failure_def transfer_def Let_def
      split: list.splits option.splits sys_result.splits prod.splits)

function write_loop :: "PosixFile \<Rightarrow> bytes \<Rightarrow> os_state \<Rightarrow> Status \<times> os_state" where
  "write_loop f src os =
     (if src = [] then (OK, os)
      else case sys_write (pf_fd f) src os of
             (Inl e, os') \<Rightarrow>
               (if e = EINTR then write_loop f src os'
                else (PosixError (''write '' @ pf_path f) e, os'))
           | (Inr written, os') \<Rightarrow> write_loop f (drop written src) os')"
  by pat_completeness auto
termination
proof (relation "measure (\<lambda>(f, src, os). length (os_script os) + length src)", goal_cases)
  case 1
  show ?case by simp
next
  case (2 f src os x os' e)
  then show ?case using sys_write_script(1) [of "pf_fd f" src os x os'] by auto
next
  case (3 f src os x os' written)
  then show ?case using sys_write_script(2) [of "pf_fd f" src os x os' written] by auto
qed

declare write_loop.simps [simp del]

definition PosixAppend :: "PosixFile \<times> os_state \<Rightarrow> bytes \<Rightarrow> Status \<times> (PosixFile \<times> os_state)" where
  "PosixAppend s data = (let (st, os) = write_loop (fst s) data (snd s) in (st, (fst s, os)))"

definition PosixFlush :: "PosixFile \<times> os_state \<Rightarrow> Status \<times> (PosixFile \<times> os_state)" where
  "PosixFlush s = (OK, s)"

definition PosixSync :: "PosixFile \<times> os_state \<Rightarrow> Status \<times> (PosixFile \<times> os_state)" where
  "PosixSync s =
     (case sys_fsync (pf_fd (fst s)) (snd s) of
        (Inl e, os) \<Rightarrow> (PosixError (''fsync '' @ pf_path (fst s)) e, (fst s, os))
      | (Inr _, os) \<Rightarrow> (OK, (fst s, os)))"

definition PosixClose :: "PosixFile \<times> os_state \<Rightarrow> Status \<times> (PosixFile \<times> os_state)" where
  "PosixClose s =
     (if pf_fd (fst s) \<ge> 0
      then case sys_close (pf_fd (fst s)) (snd s) of
             (Inl e, os) \<Rightarrow> (PosixError (''close '' @ pf_path (fst s)) e, ((fst s)\<lparr>pf_fd := -1\<rparr>, os))
           | (Inr _, os) \<Rightarrow> (OK, ((fst s)\<lparr>pf_fd := -1\<rparr>, os))
      else (OK, s))"

definition posix_writable :: "(PosixFile \<times> os_state) WritableFile" where
  "posix_writable =
     \<lparr>wf_Append = PosixAppend, wf_Flush = PosixFlush, wf_Sync = PosixSync, wf_Close = PosixClose\<rparr>"

text \<open>The destructor of both classes closes a descriptor that is still open.\<close>

definition PosixFile_destroy :: "PosixFile \<Rightarrow> os_state \<Rightarrow> os_state" where
  "PosixFile_destroy f os = (if pf_fd f \<ge> 0 then snd (sys_close (pf_fd f) os) else os)"


subsection \<open>The read loop\<close>

lemma sys_read_script:
  assumes "sys_read fd n os = (r, os')" "n > 0"
  shows "r = Inl EINTR \<Longrightarrow> length (os_script os') < length (os_script os)"
    and "r = Inr bs \<Longrightarrow> bs \<noteq> [] \<Longrightarrow>
         length (os_script os') + (n - length bs) < length (os_script os) + n"
  using assms
  by (auto simp: sys_read_def next_result_def failure_def transfer_def Let_def
      split: list.splits option.splits sys_result.splits prod.splits)

text \<open>\<open>done\<close> holds the bytes read so far into \<^verbatim>\<open>scratch\<close>.\<close>

function read_loop ::
  "PosixFile \<Rightarrow> nat \<Rightarrow> bytes \<Rightarrow> os_state \<Rightarrow> Status \<times> bytes \<times> os_state" where
  "read_loop f n scratch os =
     (if length scratch < n
      then case sys_read (pf_fd f) (n - length scratch) os of
             (Inl e, os') \<Rightarrow>
               (if e = EINTR then read_loop f n scratch os'
                else (PosixError (''read '' @ pf_path f) e, [], os'))
           | (Inr r, os') \<Rightarrow>
               (if r = [] then (OK, scratch, os') else read_loop f n (scratch @ r) os')
      else (OK, scratch, os))"
  by pat_completeness auto
termination
proof (relation "measure (\<lambda>(f, n, scratch, os). length (os_script os) + (n - length scratch))",
    goal_cases)
  case 1
  show ?case by simp
next
  case (2 f n scratch os x os' e)
  then show ?case
    using sys_read_script(1) [of "pf_fd f" "n - length scratch" os x os'] by auto
next
  case (3 f n scratch os x os' r)
  then show ?case
    using sys_read_script(2) [of "pf_fd f" "n - length scratch" os x os' r] by auto
qed

declare read_loop.simps [simp del]

definition PosixRead ::
  "PosixFile \<times> os_state \<Rightarrow> nat \<Rightarrow> Status \<times> bytes \<times> (PosixFile \<times> os_state)" where
  "PosixRead s n =
     (let (st, result, os) = read_loop (fst s) n [] (snd s) in (st, result, (fst s, os)))"

definition PosixSkip :: "PosixFile \<times> os_state \<Rightarrow> nat \<Rightarrow> Status \<times> (PosixFile \<times> os_state)" where
  "PosixSkip s n =
     (case sys_lseek_cur (pf_fd (fst s)) n (snd s) of
        (Inl e, os) \<Rightarrow> (PosixError (''lseek '' @ pf_path (fst s)) e, (fst s, os))
      | (Inr _, os) \<Rightarrow> (OK, (fst s, os)))"

definition posix_sequential :: "(PosixFile \<times> os_state) SequentialFile" where
  "posix_sequential = \<lparr>sf_Read = PosixRead, sf_Skip = PosixSkip\<rparr>"


subsection \<open>Opening files, directories\<close>

definition open_with ::
  "open_mode \<Rightarrow> string \<Rightarrow> os_state \<Rightarrow> Status \<times> PosixFile option \<times> os_state" where
  "open_with mode p os =
     (case sys_open p mode os of
        (Inl e, os') \<Rightarrow> (PosixError (''open '' @ p) e, None, os')
      | (Inr d, os') \<Rightarrow> (OK, Some \<lparr>pf_path = p, pf_fd = d\<rparr>, os'))"

definition NewWritableFile :: "string \<Rightarrow> os_state \<Rightarrow> Status \<times> PosixFile option \<times> os_state" where
  "NewWritableFile = open_with Create_Truncate"

definition NewAppendableFile :: "string \<Rightarrow> os_state \<Rightarrow> Status \<times> PosixFile option \<times> os_state" where
  "NewAppendableFile = open_with Create_Append"

definition NewSequentialFile :: "string \<Rightarrow> os_state \<Rightarrow> Status \<times> PosixFile option \<times> os_state" where
  "NewSequentialFile = open_with Read_Only"

definition FileExists :: "string \<Rightarrow> os_state \<Rightarrow> bool \<times> os_state" where
  "FileExists p os = (let (r, os') = sys_access p os in (r = Inr (), os'))"

definition GetFileSize :: "string \<Rightarrow> os_state \<Rightarrow> Status \<times> u64 \<times> os_state" where
  "GetFileSize p os =
     (case sys_stat p os of
        (Inl e, os') \<Rightarrow> (PosixError (''stat '' @ p) e, 0, os')
      | (Inr n, os') \<Rightarrow> (OK, of_nat n, os'))"

definition MakeDir :: "string \<Rightarrow> os_state \<Rightarrow> Status \<times> os_state" where
  "MakeDir p os =
     (case sys_mkdir p os of
        (Inl e, os') \<Rightarrow> (if e \<noteq> EEXIST then (PosixError (''mkdir '' @ p) e, os') else (OK, os'))
      | (Inr _, os') \<Rightarrow> (OK, os'))"

end
