(* ===== verification/Env_Laws.thy ===== *)
theory Env_Laws
  imports Env
begin

section \<open>What the file classes promise, and that the Posix classes keep it\<close>

text \<open>
  \<open>writable_file\<close> is the contract of \<^verbatim>\<open>WritableFile\<close>: whatever the status of an
  operation, the sink has grown by a prefix of the data, by all of it where the status is OK, and
  only \<^verbatim>\<open>Sync\<close> makes data durable. \<open>reliable_file\<close> adds a state in which no operation
  fails. \<open>sequential_file\<close> is the contract of \<^verbatim>\<open>SequentialFile\<close>: a read returns the
  next bytes, short only at the end of the file. The clients (the log writer and reader) are
  proved against these contracts; the interpretations below discharge them for the Posix
  classes, with interrupted calls and short counts in between.
\<close>

definition grown ::
  "('f \<Rightarrow> bytes) \<Rightarrow> ('f \<Rightarrow> bytes) \<Rightarrow> ('f \<Rightarrow> bool) \<Rightarrow> bytes \<Rightarrow> 'f \<Rightarrow> Status \<Rightarrow> 'f \<Rightarrow> bool" where
  "grown contents durable opened d f s f' \<longleftrightarrow>
     opened f' \<and> durable f' = durable f \<and> (\<exists>k. contents f' = contents f @ take k d) \<and>
     (ok s \<longrightarrow> contents f' = contents f @ d)"

lemma grown_opened: "grown c u p d f s f' \<Longrightarrow> p f'"
  by (simp add: grown_def)

lemma grown_refl: "p f \<Longrightarrow> grown c u p [] f s f"
  by (simp add: grown_def)

lemma grown_trans:
  assumes "grown c u p d f s f1" "ok s" "grown c u p e f1 s' f2"
  shows "grown c u p (d @ e) f s' f2"
proof -
  from assms obtain k where "c f2 = c f @ d @ take k e" by (auto simp: grown_def)
  then have "c f2 = c f @ take (length d + k) (d @ e)" by simp
  moreover from assms have "p f2" "u f2 = u f" "ok s' \<longrightarrow> c f2 = c f @ d @ e"
    by (auto simp: grown_def)
  ultimately show ?thesis unfolding grown_def by blast
qed

lemma grown_stop:
  assumes "grown c u p d f s f1" "\<not> ok s"
  shows "grown c u p (d @ e) f s f1"
proof -
  from assms obtain k where "c f1 = c f @ take k d" by (auto simp: grown_def)
  then have "c f1 = c f @ take (min k (length d)) (d @ e)" by (simp add: min_def)
  with assms show ?thesis unfolding grown_def by blast
qed

locale writable_file =
  fixes W :: "'f WritableFile"
    and contents :: "'f \<Rightarrow> bytes"
    and durable :: "'f \<Rightarrow> bytes"
    and opened :: "'f \<Rightarrow> bool"
  assumes Append_law:
      "opened f \<Longrightarrow> wf_Append W f d = (s, f') \<Longrightarrow>
       grown contents durable opened d f s f'"
    and Flush_law:
      "opened f \<Longrightarrow> wf_Flush W f = (s, f') \<Longrightarrow> grown contents durable opened [] f s f'"
    and Sync_law:
      "opened f \<Longrightarrow> wf_Sync W f = (s, f') \<Longrightarrow>
       opened f' \<and> contents f' = contents f \<and>
       durable f' = (if ok s then contents f else durable f)"

locale reliable_file = writable_file +
  fixes healthy :: "'f \<Rightarrow> bool"
  assumes Append_ok: "opened f \<Longrightarrow> healthy f \<Longrightarrow> \<exists>f'. wf_Append W f d = (OK, f') \<and> healthy f'"
    and Flush_ok: "opened f \<Longrightarrow> healthy f \<Longrightarrow> \<exists>f'. wf_Flush W f = (OK, f') \<and> healthy f'"

locale sequential_file =
  fixes V :: "'f SequentialFile"
    and remaining :: "'f \<Rightarrow> bytes"
    and readable :: "'f \<Rightarrow> bool"
  assumes Read_law:
    "readable f \<Longrightarrow>
     \<exists>f'. sf_Read V f n = (OK, take n (remaining f), f') \<and>
          remaining f' = drop n (remaining f) \<and> readable f'"


subsection \<open>The Posix writable file\<close>

definition posix_contents :: "PosixFile \<times> os_state \<Rightarrow> bytes" where
  "posix_contents s = file_contents (snd s) (pf_path (fst s))"

definition posix_durable :: "PosixFile \<times> os_state \<Rightarrow> bytes" where
  "posix_durable s = stable_contents (snd s) (pf_path (fst s))"

definition posix_opened :: "PosixFile \<times> os_state \<Rightarrow> bool" where
  "posix_opened s \<longleftrightarrow>
     os_files (snd s) (pf_path (fst s)) \<noteq> None \<and>
     (\<exists>d. os_fds (snd s) (pf_fd (fst s)) = Some d \<and> fd_path d = pf_path (fst s) \<and> fd_append d)"

definition posix_healthy :: "PosixFile \<times> os_state \<Rightarrow> bool" where
  "posix_healthy s \<longleftrightarrow> harmless (snd s)"

lemmas posix_state_defs =
  posix_contents_def posix_durable_def posix_opened_def posix_healthy_def

lemma next_result_frame:
  assumes "next_result os = (r, os')"
  shows "os_files os' = os_files os" "os_stable os' = os_stable os" "os_fds os' = os_fds os"
    "os_dirs os' = os_dirs os" "os_next_fd os' = os_next_fd os"
    "harmless os \<Longrightarrow> harmless os' \<and> (failure r = None \<or> failure r = Some EINTR)"
    "calm os \<Longrightarrow> calm os' \<and> failure r = None"
  using assms
  by (auto simp: next_result_def harmless_def calm_def failure_def split: list.splits)

lemma sys_write_append:
  assumes "os_fds os fd = Some d" "fd_append d" "sys_write fd src os = (r, os')"
  shows "\<exists>d'. os_fds os' fd = Some d' \<and> fd_path d' = fd_path d \<and> fd_append d'"
    and "os_stable os' = os_stable os" "os_files os p \<noteq> None \<Longrightarrow> os_files os' p \<noteq> None"
    and "r = Inl e \<Longrightarrow> os_files os' = os_files os"
    and "r = Inr n \<Longrightarrow>
         file_contents os' (fd_path d) = file_contents os (fd_path d) @ take n src"
    and "harmless os \<Longrightarrow> harmless os' \<and> (r = Inl EINTR \<or> (\<exists>n. r = Inr n))"
proof -
  obtain r0 os0 where nr: "next_result os = (r0, os0)" by fastforce
  note frame = next_result_frame [OF nr]
  note facts = assms(3) [unfolded sys_write_def nr, simplified] assms(1,2) frame
  show "\<exists>d'. os_fds os' fd = Some d' \<and> fd_path d' = fd_path d \<and> fd_append d'"
    using facts by (auto simp: Let_def split: option.splits)
  show "os_stable os' = os_stable os" "os_files os p \<noteq> None \<Longrightarrow> os_files os' p \<noteq> None"
    using facts by (auto simp: Let_def split: option.splits)
  show "r = Inl e \<Longrightarrow> os_files os' = os_files os"
    using facts by (auto simp: Let_def split: option.splits)
  show "r = Inr n \<Longrightarrow>
         file_contents os' (fd_path d) = file_contents os (fd_path d) @ take n src"
    using facts by (auto simp: Let_def file_contents_def split: option.splits)
  show "harmless os \<Longrightarrow> harmless os' \<and> (r = Inl EINTR \<or> (\<exists>n. r = Inr n))"
    using facts by (auto simp: Let_def harmless_def split: option.splits)
qed

text \<open>
  The loop of \<^verbatim>\<open>Append\<close>: however often the call is interrupted or cut short, what
  reaches the file is a prefix of the data in order, and all of it where the result is OK.
\<close>

lemma write_loop_spec:
  assumes "write_loop f src os = (st, os')" "posix_opened (f, os)"
  shows "posix_opened (f, os') \<and> posix_durable (f, os') = posix_durable (f, os) \<and>
         (\<exists>k. posix_contents (f, os') = posix_contents (f, os) @ take k src) \<and>
         (ok st \<longrightarrow> posix_contents (f, os') = posix_contents (f, os) @ src) \<and>
         (harmless os \<longrightarrow> st = OK \<and> harmless os')"
  using assms
proof (induction f src os rule: write_loop.induct)
  case (1 f src os)
  show ?case
  proof (cases "src = []")
    case True
    with "1.prems" show ?thesis by (simp add: write_loop.simps)
  next
    case False
    obtain r os1 where w: "sys_write (pf_fd f) src os = (r, os1)" by fastforce
    from "1.prems"(2) obtain d where d: "os_fds os (pf_fd f) = Some d" "fd_append d"
      and path: "fd_path d = pf_path f"
      by (auto simp: posix_opened_def)
    note sw = sys_write_append [OF d w]
    have op1: "posix_opened (f, os1)" using sw(1) sw(3) [of "pf_path f"] path "1.prems"(2) by (auto simp: posix_opened_def)
    have dur1: "posix_durable (f, os1) = posix_durable (f, os)"
      using sw(2) by (simp add: posix_durable_def stable_contents_def)
    show ?thesis
    proof (cases r)
      case (Inl e)
      have con1: "posix_contents (f, os1) = posix_contents (f, os)"
        using sw(4) [OF Inl] by (simp add: posix_contents_def file_contents_def)
      show ?thesis
      proof (cases "e = EINTR")
        case True
        have "write_loop f src os1 = (st, os')"
          using "1.prems"(1) False w Inl True by (simp add: write_loop.simps [of f src os])
        from "1.IH"(1) [OF False w [symmetric] Inl True this op1] con1 dur1 sw(6)
        show ?thesis by auto
      next
        case e: False
        with "1.prems"(1) False w Inl
        have "os' = os1" "st = PosixError (''write '' @ pf_path f) e"
          by (auto simp: write_loop.simps [of f src os])
        with op1 dur1 con1 sw(6) Inl e show ?thesis
          by (auto simp: PosixError_def intro!: exI [of _ 0])
      qed
    next
      case (Inr n)
      have con1: "posix_contents (f, os1) = posix_contents (f, os) @ take n src"
        using sw(5) [OF Inr] path by (simp add: posix_contents_def)
      have "write_loop f (drop n src) os1 = (st, os')"
        using "1.prems"(1) False w Inr by (simp add: write_loop.simps [of f src os])
      from "1.IH"(2) [OF False w [symmetric] Inr this op1] obtain k where
        "posix_contents (f, os') = posix_contents (f, os1) @ take k (drop n src)"
        and rest: "posix_opened (f, os')" "posix_durable (f, os') = posix_durable (f, os1)"
          "ok st \<longrightarrow> posix_contents (f, os') = posix_contents (f, os1) @ drop n src"
          "harmless os1 \<longrightarrow> st = OK \<and> harmless os'"
        by blast
      then have "posix_contents (f, os') = posix_contents (f, os) @ take (n + k) src"
        using con1 by (simp add: take_add)
      with rest con1 dur1 sw(6) show ?thesis by auto
    qed
  qed
qed

lemma write_loop_script:
  "write_loop f src os = (st, os') \<Longrightarrow> \<exists>k. os_script os' = drop k (os_script os)"
proof (induction f src os rule: write_loop.induct)
  case (1 f src os)
  show ?case
  proof (cases "src = []")
    case True
    with "1.prems" show ?thesis by (auto simp: write_loop.simps intro: exI [of _ 0])
  next
    case False
    obtain r os1 where w: "sys_write (pf_fd f) src os = (r, os1)" by fastforce
    then have s1: "os_script os1 = drop 1 (os_script os)"
      by (auto simp: sys_write_def next_result_def Let_def split: list.splits option.splits)
    have "\<exists>k. os_script os' = drop k (os_script os1)"
      using "1.prems" "1.IH"(1) [OF False w [symmetric]] "1.IH"(2) [OF False w [symmetric]] False w
      by (auto simp: write_loop.simps [of f src os] intro: exI [of _ 0]
          split: sum.splits if_splits)
    with s1 show ?thesis by auto
  qed
qed

lemma calm_drop: "calm os \<Longrightarrow> os_script os' = drop k (os_script os) \<Longrightarrow> calm os'"
  by (auto simp: calm_def dest: in_set_dropD)

lemma calm_harmless: "calm os \<Longrightarrow> harmless os"
  by (auto simp: calm_def harmless_def)

lemma PosixAppend_calm:
  assumes "calm (snd s)" "wf_Append posix_writable s d = (st, s')"
  shows "calm (snd s')"
  using assms write_loop_script [of "fst s" d "snd s"]
  by (auto simp: posix_writable_def PosixAppend_def split: prod.splits intro: calm_drop)

lemma sys_fsync_spec:
  assumes "os_fds os fd = Some d" "sys_fsync fd os = (r, os')"
  shows "os_files os' = os_files os" "os_fds os' = os_fds os"
    "os_stable os' = (case r of Inl _ \<Rightarrow> os_stable os
                       | Inr _ \<Rightarrow> (os_stable os)(fd_path d \<mapsto> file_contents os (fd_path d)))"
    "calm os \<Longrightarrow> calm os' \<and> r = Inr ()"
proof -
  obtain r0 os0 where nr: "next_result os = (r0, os0)" by fastforce
  note facts = assms(2) [unfolded sys_fsync_def nr, simplified] assms(1) next_result_frame [OF nr]
  show "os_files os' = os_files os" "os_fds os' = os_fds os"
    "os_stable os' = (case r of Inl _ \<Rightarrow> os_stable os
                       | Inr _ \<Rightarrow> (os_stable os)(fd_path d \<mapsto> file_contents os (fd_path d)))"
    "calm os \<Longrightarrow> calm os' \<and> r = Inr ()"
    using facts by (auto simp: file_contents_def calm_def split: option.splits)
qed

interpretation posix_wf: reliable_file posix_writable posix_contents posix_durable posix_opened posix_healthy
proof (unfold_locales, goal_cases)
  case (1 f d s f')
  then obtain os' where "write_loop (fst f) d (snd f) = (s, os')" "f' = (fst f, os')"
    by (auto simp: posix_writable_def PosixAppend_def split: prod.splits)
  with write_loop_spec [of "fst f" d "snd f" s os'] 1(1) show ?case by (simp add: grown_def)
next
  case (2 f s f')
  then show ?case by (simp add: posix_writable_def PosixFlush_def grown_refl)
next
  case (3 f s f')
  from 3(1) obtain d where d: "os_fds (snd f) (pf_fd (fst f)) = Some d"
    and p: "fd_path d = pf_path (fst f)" "fd_append d"
    by (auto simp: posix_opened_def)
  obtain r os' where fs: "sys_fsync (pf_fd (fst f)) (snd f) = (r, os')" by fastforce
  from 3(2) fs have "f' = (fst f, os')" "ok s \<longleftrightarrow> r = Inr ()"
    by (auto simp: posix_writable_def PosixSync_def PosixError_def split: sum.splits)
  with sys_fsync_spec [OF d fs] d p 3(1) show ?case
    by (auto simp: posix_state_defs file_contents_def stable_contents_def split: sum.splits)
next
  case (4 f d)
  then show ?case
    using write_loop_spec [of "fst f" d "snd f"]
    by (auto simp: posix_writable_def PosixAppend_def posix_healthy_def split: prod.splits)
next
  case (5 f)
  then show ?case by (simp add: posix_writable_def PosixFlush_def)
qed

lemma PosixSync_calm:
  assumes "posix_opened s" "calm (snd s)"
  shows "\<exists>s'. wf_Sync posix_writable s = (OK, s') \<and> calm (snd s')"
proof -
  from assms(1) obtain d where d: "os_fds (snd s) (pf_fd (fst s)) = Some d"
    by (auto simp: posix_opened_def)
  obtain r os' where fs: "sys_fsync (pf_fd (fst s)) (snd s) = (r, os')" by fastforce
  with sys_fsync_spec(4) [OF d fs assms(2)] show ?thesis
    by (simp add: posix_writable_def PosixSync_def)
qed

text \<open>
  The same contract with what an operation keeps besides the file: the object, the directories,
  and that no call fails where none was to fail.
\<close>

definition posix_open_at :: "PosixFile \<Rightarrow> os_state \<Rightarrow> PosixFile \<times> os_state \<Rightarrow> bool" where
  "posix_open_at pf os s \<longleftrightarrow>
     posix_opened s \<and> fst s = pf \<and> os_dirs (snd s) = os_dirs os \<and> (calm os \<longrightarrow> calm (snd s))"

lemma posix_open_at_refl: "posix_opened (pf, os) \<Longrightarrow> posix_open_at pf os (pf, os)"
  by (simp add: posix_open_at_def)

lemma write_loop_dirs: "write_loop f src os = (st, os') \<Longrightarrow> os_dirs os' = os_dirs os"
proof (induction f src os rule: write_loop.induct)
  case (1 f src os)
  show ?case
  proof (cases "src = []")
    case True
    with "1.prems" show ?thesis by (simp add: write_loop.simps)
  next
    case False
    obtain r os1 where w: "sys_write (pf_fd f) src os = (r, os1)" by fastforce
    then have "os_dirs os1 = os_dirs os"
      by (auto simp: sys_write_def next_result_def Let_def split: list.splits option.splits)
    with "1.prems" "1.IH"(1) [OF False w [symmetric]] "1.IH"(2) [OF False w [symmetric]] False w
    show ?thesis by (auto simp: write_loop.simps [of f src os] split: sum.splits if_splits)
  qed
qed

lemma PosixAppend_at:
  assumes "posix_open_at pf os s" "wf_Append posix_writable s d = (st, s')"
  shows "posix_open_at pf os s'"
proof -
  obtain os' where "write_loop (fst s) d (snd s) = (st, os')" "s' = (fst s, os')"
    using assms(2) by (auto simp: posix_writable_def PosixAppend_def split: prod.splits)
  with assms PosixAppend_calm [OF _ assms(2)] write_loop_dirs [of "fst s" d "snd s" st os']
    posix_wf.Append_law [OF _ assms(2)]
  show ?thesis by (auto simp: posix_open_at_def grown_def)
qed

lemma PosixSync_at:
  assumes "posix_open_at pf os s" "wf_Sync posix_writable s = (st, s')"
  shows "posix_open_at pf os s'"
proof -
  have op: "posix_opened s" using assms(1) by (simp add: posix_open_at_def)
  have "fst s' = fst s" "os_dirs (snd s') = os_dirs (snd s)"
    using assms(2)
    by (auto simp: posix_writable_def PosixSync_def sys_fsync_def next_result_def Let_def
        split: sum.splits option.splits list.splits prod.splits)
  with assms op PosixSync_calm [OF op] posix_wf.Sync_law [OF op assms(2)] show ?thesis
    by (auto simp: posix_open_at_def)
qed

interpretation posix_wf_at: reliable_file posix_writable posix_contents posix_durable
  "posix_open_at pf os" posix_healthy for pf os
proof (unfold_locales, goal_cases)
  case (1 f d s f')
  then show ?case using PosixAppend_at [OF 1] posix_wf.Append_law [of f d s f']
    by (simp add: grown_def posix_open_at_def)
next
  case (2 f s f')
  then show ?case by (simp add: posix_writable_def PosixFlush_def grown_refl)
next
  case (3 f s f')
  then show ?case using PosixSync_at [OF 3] posix_wf.Sync_law [of f s f']
    by (simp add: posix_open_at_def)
next
  case (4 f d)
  then show ?case using posix_wf.Append_ok [of f d] by (simp add: posix_open_at_def)
next
  case (5 f)
  then show ?case using posix_wf.Flush_ok [of f] by (simp add: posix_open_at_def)
qed


subsection \<open>The Posix sequential file\<close>

definition posix_remaining :: "PosixFile \<times> os_state \<Rightarrow> bytes" where
  "posix_remaining s =
     (case os_fds (snd s) (pf_fd (fst s)) of
        None \<Rightarrow> []
      | Some d \<Rightarrow> drop (fd_offset d) (file_contents (snd s) (fd_path d)))"

definition posix_readable :: "PosixFile \<times> os_state \<Rightarrow> bool" where
  "posix_readable s \<longleftrightarrow> harmless (snd s) \<and> os_fds (snd s) (pf_fd (fst s)) \<noteq> None"

lemma sys_read_spec:
  assumes "posix_readable (f, os)" "sys_read (pf_fd f) n os = (r, os')" "n > 0"
  shows "posix_readable (f, os')"
    and "r = Inl EINTR \<or> (\<exists>bs. r = Inr bs)"
    and "r = Inl e \<Longrightarrow> posix_remaining (f, os') = posix_remaining (f, os)"
    and "r = Inr bs \<Longrightarrow> posix_remaining (f, os) = bs @ posix_remaining (f, os') \<and>
           length bs \<le> n \<and> (bs = [] \<longrightarrow> posix_remaining (f, os) = [])"
proof -
  obtain r0 os0 where nr: "next_result os = (r0, os0)" by fastforce
  note frame = next_result_frame [OF nr]
  have tr: "transfer r0 n \<le> n" "0 < transfer r0 n"
    using assms(3) by (auto simp: transfer_def split: option.splits sys_result.splits)
  note facts = assms(2) [unfolded sys_read_def nr, simplified] assms(1) frame
  show "posix_readable (f, os')" "r = Inl EINTR \<or> (\<exists>bs. r = Inr bs)"
    "r = Inl e \<Longrightarrow> posix_remaining (f, os') = posix_remaining (f, os)"
    using facts
    by (auto simp: posix_readable_def posix_remaining_def harmless_def Let_def file_contents_def
        split: option.splits)
  show "r = Inr bs \<Longrightarrow> posix_remaining (f, os) = bs @ posix_remaining (f, os') \<and>
           length bs \<le> n \<and> (bs = [] \<longrightarrow> posix_remaining (f, os) = [])"
    using facts tr
    by (auto simp: posix_readable_def posix_remaining_def Let_def file_contents_def take_drop_min
        split: option.splits)
qed

lemma read_loop_spec:
  assumes "posix_readable (f, os)" "length scratch \<le> n"
  shows "\<exists>os'. read_loop f n scratch os =
           (OK, scratch @ take (n - length scratch) (posix_remaining (f, os)), os') \<and>
         posix_remaining (f, os') = drop (n - length scratch) (posix_remaining (f, os)) \<and>
         posix_readable (f, os')"
  using assms
proof (induction f n scratch os rule: read_loop.induct)
  case (1 f n scratch os)
  show ?case
  proof (cases "length scratch < n")
    case False
    with "1.prems" show ?thesis by (simp add: read_loop.simps)
  next
    case True
    obtain r os1 where r: "sys_read (pf_fd f) (n - length scratch) os = (r, os1)" by fastforce
    from True have pos: "0 < n - length scratch" by simp
    note sr = sys_read_spec [OF "1.prems"(1) r pos]
    note unfold = read_loop.simps [of f n scratch os]
    from sr(2) show ?thesis
    proof
      assume e: "r = Inl EINTR"
      from "1.IH"(1) [OF True r [symmetric] e refl sr(1) "1.prems"(2)] sr(3) [OF e]
      show ?thesis using True r e by (simp add: unfold)
    next
      assume "\<exists>bs. r = Inr bs"
      then obtain bs where bs: "r = Inr bs" by blast
      note s4 = sr(4) [OF bs]
      show ?thesis
      proof (cases "bs = []")
        case True
        with s4 bs r sr(1) \<open>length scratch < n\<close> show ?thesis by (auto simp: unfold)
      next
        case False
        have "length (scratch @ bs) \<le> n" using s4 True by auto
        from "1.IH"(2) [OF True r [symmetric] bs False sr(1) this]
        show ?thesis using True r bs False s4 by (auto simp: unfold)
      qed
    qed
  qed
qed

interpretation posix_sf: sequential_file posix_sequential posix_remaining posix_readable
proof (unfold_locales, goal_cases)
  case (1 f n)
  with read_loop_spec [of "fst f" "snd f" "[]" n] show ?case
    by (auto simp: posix_sequential_def PosixRead_def)
qed

text \<open>
  Reading leaves the disk alone. \<open>disk_kept os os'\<close>: same files, same stable contents, same
  directories, and some of the scripted calls used up. Reading under this frame satisfies the
  same contract, so whatever a client does with a sequential file keeps the disk.
\<close>

definition disk_kept :: "os_state \<Rightarrow> os_state \<Rightarrow> bool" where
  "disk_kept os os' \<longleftrightarrow>
     os_files os' = os_files os \<and> os_stable os' = os_stable os \<and> os_dirs os' = os_dirs os \<and>
     (\<exists>k. os_script os' = drop k (os_script os))"

lemma disk_kept_refl [simp]: "disk_kept os os"
  by (auto simp: disk_kept_def intro: exI [of _ 0])

lemma disk_kept_trans: "disk_kept os os1 \<Longrightarrow> disk_kept os1 os2 \<Longrightarrow> disk_kept os os2"
  by (auto simp: disk_kept_def)

lemma disk_kept_calm: "disk_kept os os' \<Longrightarrow> calm os \<Longrightarrow> calm os'"
  by (auto simp: disk_kept_def intro: calm_drop)

lemma disk_kept_contents:
  "disk_kept os os' \<Longrightarrow> file_contents os' p = file_contents os p"
  "disk_kept os os' \<Longrightarrow> stable_contents os' p = stable_contents os p"
  by (simp_all add: disk_kept_def file_contents_def stable_contents_def)

lemma next_result_kept: "next_result os = (r, os') \<Longrightarrow> disk_kept os os'"
  by (auto simp: next_result_def disk_kept_def split: list.splits
      intro: exI [of _ 0] exI [of _ 1])

lemma disk_kept_fds [simp]:
  "disk_kept os (os'\<lparr>os_fds := x\<rparr>) = disk_kept os os'"
  "disk_kept os (os'\<lparr>os_next_fd := n\<rparr>) = disk_kept os os'"
  by (simp_all add: disk_kept_def)

lemma read_loop_kept: "read_loop f n scratch os = (st, bs, os') \<Longrightarrow> disk_kept os os'"
proof (induction f n scratch os rule: read_loop.induct)
  case (1 f n scratch os)
  show ?case
  proof (cases "length scratch < n")
    case False
    with "1.prems" show ?thesis by (simp add: read_loop.simps)
  next
    case True
    obtain r os1 where r: "sys_read (pf_fd f) (n - length scratch) os = (r, os1)" by fastforce
    then have "disk_kept os os1"
      by (auto simp: sys_read_def Let_def split: prod.splits option.splits dest: next_result_kept)
    moreover have "disk_kept os1 os'"
      using "1.prems" "1.IH"(1) [OF True r [symmetric]] "1.IH"(2) [OF True r [symmetric]] True r
      by (auto simp: read_loop.simps [of f n scratch os] split: sum.splits if_splits)
    ultimately show ?thesis by (rule disk_kept_trans)
  qed
qed

definition posix_reading :: "os_state \<Rightarrow> PosixFile \<times> os_state \<Rightarrow> bool" where
  "posix_reading os s \<longleftrightarrow> posix_readable s \<and> disk_kept os (snd s)"

interpretation posix_sf_kept: sequential_file posix_sequential posix_remaining "posix_reading os" for os
proof (unfold_locales, goal_cases)
  case (1 f n)
  then have rd: "posix_readable (fst f, snd f)" and kept: "disk_kept os (snd f)"
    by (simp_all add: posix_reading_def)
  from read_loop_spec [OF rd, of "[]" n] obtain os' where
    os': "read_loop (fst f) n [] (snd f) = (OK, take n (posix_remaining f), os')"
    "posix_remaining (fst f, os') = drop n (posix_remaining f)" "posix_readable (fst f, os')"
    by auto
  from disk_kept_trans [OF kept read_loop_kept [OF os'(1)]] os' show ?case
    by (auto simp: posix_sequential_def PosixRead_def posix_reading_def)
qed


subsection \<open>Opening, closing and asking\<close>

lemma next_result_calm:
  assumes "calm os"
  obtains r os' where "next_result os = (r, os')" "failure r = None" "disk_kept os os'" "calm os'"
    "os_fds os' = os_fds os" "os_next_fd os' = os_next_fd os"
  using assms next_result_frame next_result_kept by (metis surj_pair)

lemma FileExists_calm:
  assumes "calm os"
  shows "\<exists>os'. FileExists p os = (os_files os p \<noteq> None \<or> p \<in> os_dirs os, os') \<and> disk_kept os os'"
  by (rule next_result_calm [OF assms])
     (auto simp: FileExists_def sys_access_def disk_kept_def Let_def)

lemma GetFileSize_calm:
  assumes "calm os" "os_files os p = Some c"
  shows "\<exists>os'. GetFileSize p os = (OK, of_nat (length c), os') \<and> disk_kept os os'"
  using assms(2)
  by - (rule next_result_calm [OF assms(1)], auto simp: GetFileSize_def sys_stat_def disk_kept_def Let_def)

lemma NewSequentialFile_calm:
  assumes "calm os" "os_files os p = Some c"
  shows "\<exists>f os'. NewSequentialFile p os = (OK, Some f, os') \<and> disk_kept os os' \<and>
    posix_readable (f, os') \<and> posix_remaining (f, os') = c"
proof -
  obtain r os1 where "next_result os = (r, os1)" "failure r = None" "disk_kept os os1" "calm os1"
    using next_result_calm [OF assms(1)] by metis
  with assms(2) show ?thesis
    by (auto simp: NewSequentialFile_def open_with_def sys_open_def add_fd_def Let_def
        posix_readable_def posix_remaining_def file_contents_def calm_harmless disk_kept_def
        harmless_def calm_def)
qed

lemma NewAppendableFile_calm:
  assumes "calm os"
  shows "\<exists>f os'. NewAppendableFile p os = (OK, Some f, os') \<and> calm os' \<and> pf_path f = p \<and>
    os_dirs os' = os_dirs os \<and> posix_opened (f, os') \<and> posix_contents (f, os') = file_contents os p \<and>
    posix_durable (f, os') = (if os_files os p = None then [] else stable_contents os p)"
proof -
  obtain r os1 where "next_result os = (r, os1)" "failure r = None" "disk_kept os os1" "calm os1"
    using next_result_calm [OF assms(1)] by metis
  then show ?thesis
    by (auto simp: NewAppendableFile_def open_with_def sys_open_def add_fd_def create_file_def Let_def
        posix_state_defs file_contents_def stable_contents_def disk_kept_def calm_def
        split: option.splits)
qed

lemma PosixFile_destroy_kept: "disk_kept os (PosixFile_destroy f os)"
  by (auto simp: PosixFile_destroy_def sys_close_def Let_def split: prod.splits option.splits
      dest: next_result_kept)

lemma MakeDir_calm:
  assumes "calm os"
  shows "\<exists>os'. MakeDir p os = (OK, os') \<and> calm os' \<and> os_files os' = os_files os \<and>
    os_stable os' = os_stable os \<and> os_dirs os' \<subseteq> insert p (os_dirs os)"
  by (rule next_result_calm [OF assms])
     (auto simp: MakeDir_def sys_mkdir_def disk_kept_def calm_def Let_def)

end
