(* ===== verification/Wal_Writer.thy ===== *)
theory Wal_Writer
  imports Coding Crc32c Env_Laws
begin

section \<open>The log writer (wal_writer.h, wal_writer.cc)\<close>

text \<open>
  \<open>AddRecord\<close> splits a record into fragments that do not cross a 32 KB block and hands each to
  \<open>EmitPhysicalRecord\<close>, which frames it (masked checksum, length, type) and appends it to the
  \<^verbatim>\<open>WritableFile\<close>. \<open>layout\<close> is the format itself, as a pure function of the position in
  the block and the record; the writer is shown to append exactly \<open>layout\<close> to a file that
  takes the data, and a prefix of it to a file that does not.

  Record types are the integers of the enumeration, since the reader meets arbitrary ones. The
  block offset is a \<^verbatim>\<open>int\<close> that stays between 0 and the block size; on that range the
  subtractions of the code and those on \<open>nat\<close> agree, and above it both reset the offset.
\<close>

definition kBlockSize :: nat where
  "kBlockSize = 32768"

definition kHeaderSize :: nat where
  "kHeaderSize = 4 + 2 + 1"

definition kZeroType :: nat where "kZeroType = 0"
definition kFullType :: nat where "kFullType = 1"
definition kFirstType :: nat where "kFirstType = 2"
definition kMiddleType :: nat where "kMiddleType = 3"
definition kLastType :: nat where "kLastType = 4"
definition kMaxRecordType :: nat where "kMaxRecordType = kLastType"

lemmas record_type_defs =
  kZeroType_def kFullType_def kFirstType_def kMiddleType_def kLastType_def kMaxRecordType_def

record Writer =
  block_offset :: nat
  type_crc :: "u32 list"

definition Writer_resume :: "u64 \<Rightarrow> Writer" where
  "Writer_resume dest_length =
     \<lparr>block_offset = unat dest_length mod kBlockSize,
      type_crc = map (\<lambda>i. Value [of_nat i]) [0..<Suc kMaxRecordType]\<rparr>"

definition Writer_new :: Writer where
  "Writer_new = Writer_resume 0"

definition record_header :: "u32 \<Rightarrow> nat \<Rightarrow> nat \<Rightarrow> bytes" where
  "record_header crc type n =
     EncodeFixed32 (Mask crc) @
     [of_nat (n AND 0xff), of_nat (drop_bit 8 n AND 0xff), of_nat type]"

definition EmitPhysicalRecord ::
  "'f WritableFile \<Rightarrow> Writer \<Rightarrow> 'f \<Rightarrow> nat \<Rightarrow> bytes \<Rightarrow> Status \<times> Writer \<times> 'f" where
  "EmitPhysicalRecord W w f type payload =
     (let crc = Extend (type_crc w ! type) payload;
          header = record_header crc type (length payload);
          (s, f) = wf_Append W f header;
          (s, f) = (if ok s
                    then let (s, f) = wf_Append W f payload in
                         if ok s then wf_Flush W f else (s, f)
                    else (s, f))
      in (s, w\<lparr>block_offset := block_offset w + (kHeaderSize + length payload)\<rparr>, f))"

text \<open>The choice of the fragment's type in the loop of \<^verbatim>\<open>AddRecord\<close>.\<close>

definition fragment_type :: "bool \<Rightarrow> bool \<Rightarrow> nat" where
  "fragment_type begin end =
     (if begin \<and> end then kFullType
      else if begin then kFirstType
      else if end then kLastType
      else kMiddleType)"

text \<open>
  The head of the loop body: the trailer of a block too full for a header. The result is the
  status of the append, the writer at its new position and the file.
\<close>

definition pad_block :: "'f WritableFile \<Rightarrow> Writer \<Rightarrow> 'f \<Rightarrow> Status \<times> Writer \<times> 'f" where
  "pad_block W w f =
     (let leftover = kBlockSize - block_offset w in
      if leftover < kHeaderSize
      then let (s, f) = (if leftover > 0 then wf_Append W f (replicate leftover 0) else (OK, f))
           in if ok s then (s, w\<lparr>block_offset := 0\<rparr>, f) else (s, w, f)
      else (OK, w, f))"

definition fragment_length :: "nat \<Rightarrow> nat \<Rightarrow> nat" where
  "fragment_length off left =
     (let avail = kBlockSize - off - kHeaderSize in if left < avail then left else avail)"

lemma pad_block_offset:
  "pad_block W w f = (s, w', f') \<Longrightarrow> ok s \<Longrightarrow>
   block_offset w' = (if kBlockSize - block_offset w < kHeaderSize then 0 else block_offset w) \<and>
   type_crc w' = type_crc w"
  by (auto simp: pad_block_def Let_def split: if_splits prod.splits)

lemma EmitPhysicalRecord_offset:
  "EmitPhysicalRecord W w f t p = (s, w', f') \<Longrightarrow>
   block_offset w' = block_offset w + (kHeaderSize + length p) \<and> type_crc w' = type_crc w"
  by (auto simp: EmitPhysicalRecord_def Let_def split: prod.splits)

text \<open>
  A fragment may be empty, when exactly a header fits into the block; the next round then
  starts a new block, which is why the measure of the loop counts such a round apart.
\<close>

lemma AddRecord_decreases:
  assumes "pad_block W w f = (s, w1, f1)" "ok s"
    and n: "n = fragment_length (block_offset w1) (length ptr)"
    and "EmitPhysicalRecord W w1 f1 t (take n ptr) = (s', w2, f2)" and "n < length ptr"
  shows "2 * (length ptr - n) + (if kBlockSize - block_offset w2 = kHeaderSize then 1 else 0)
       < 2 * length ptr + (if kBlockSize - block_offset w = kHeaderSize then 1 else 0)"
proof -
  have "block_offset w1 = (if kBlockSize - block_offset w < kHeaderSize then 0 else block_offset w)"
    using pad_block_offset [OF assms(1,2)] by simp
  moreover have "block_offset w2 = block_offset w1 + (kHeaderSize + n)"
    using EmitPhysicalRecord_offset [OF assms(4)] assms(5) by simp
  ultimately have "0 < n \<or> kBlockSize - block_offset w = kHeaderSize \<and> kBlockSize \<le> block_offset w2"
    using assms(5) n unfolding fragment_length_def Let_def kBlockSize_def kHeaderSize_def
    by (simp split: if_splits) arith
  moreover have "0 < kHeaderSize" by (simp add: kHeaderSize_def)
  ultimately show ?thesis using assms(5) by auto
qed

function AddRecord_loop ::
  "'f WritableFile \<Rightarrow> bool \<Rightarrow> Writer \<Rightarrow> 'f \<Rightarrow> bytes \<Rightarrow> Status \<times> Writer \<times> 'f" where
  "AddRecord_loop W begin w f ptr =
     (case pad_block W w f of (s, w1, f1) \<Rightarrow>
        if \<not> ok s then (s, w1, f1)
        else
          let n = fragment_length (block_offset w1) (length ptr);
              end = (length ptr = n)
          in case EmitPhysicalRecord W w1 f1 (fragment_type begin end) (take n ptr) of
               (s, w2, f2) \<Rightarrow>
                 if ok s \<and> length (drop n ptr) > 0
                 then AddRecord_loop W False w2 f2 (drop n ptr)
                 else (s, w2, f2))"
  by pat_completeness auto
termination
proof (relation "measure (\<lambda>(W, begin, w, f, ptr). 2 * length ptr +
    (if kBlockSize - block_offset w = kHeaderSize then 1 else 0))", goal_cases)
  case 1
  show ?case by simp
next
  case (2 W b w f ptr s y w1 f1 n e s' y' w2 f2)
  then show ?case
    using AddRecord_decreases [of W w f s w1 f1 n ptr "fragment_type b e" s' w2 f2] by simp
qed

declare AddRecord_loop.simps [simp del]

definition AddRecord :: "'f WritableFile \<Rightarrow> Writer \<Rightarrow> 'f \<Rightarrow> bytes \<Rightarrow> Status \<times> Writer \<times> 'f" where
  "AddRecord W w f record = AddRecord_loop W True w f record"


subsection \<open>The format\<close>

definition phys_record :: "nat \<Rightarrow> bytes \<Rightarrow> bytes" where
  "phys_record type payload =
     record_header (Value (of_nat type # payload)) type (length payload) @ payload"

definition block_pad :: "nat \<Rightarrow> bytes" where
  "block_pad off = (if kBlockSize - off < kHeaderSize then replicate (kBlockSize - off) 0 else [])"

definition block_start :: "nat \<Rightarrow> nat" where
  "block_start off = (if kBlockSize - off < kHeaderSize then 0 else off)"

function layout :: "bool \<Rightarrow> nat \<Rightarrow> bytes \<Rightarrow> bytes" where
  "layout begin off data =
     (let n = fragment_length (block_start off) (length data) in
      block_pad off @ phys_record (fragment_type begin (length data = n)) (take n data) @
      (if n < length data then layout False (block_start off + kHeaderSize + n) (drop n data) else []))"
  by pat_completeness auto
termination
  by (relation "measure (\<lambda>(begin, off, data). 2 * length data +
        (if kBlockSize - off = kHeaderSize then 1 else 0))")
     (auto simp: fragment_length_def block_start_def kBlockSize_def kHeaderSize_def Let_def
       split: if_splits)

declare layout.simps [simp del]

function next_offset :: "nat \<Rightarrow> nat \<Rightarrow> nat" where
  "next_offset off left =
     (let n = fragment_length (block_start off) left in
      if n < left then next_offset (block_start off + kHeaderSize + n) (left - n)
      else block_start off + kHeaderSize + n)"
  by pat_completeness auto
termination
  by (relation "measure (\<lambda>(off, left). 2 * left + (if kBlockSize - off = kHeaderSize then 1 else 0))")
     (auto simp: fragment_length_def block_start_def kBlockSize_def kHeaderSize_def Let_def
       split: if_splits)

declare next_offset.simps [simp del]

lemma kSizes [mlsm_bounds]: "kHeaderSize = 7" "kBlockSize = 32768"
  by (simp_all add: kHeaderSize_def kBlockSize_def)

lemma length_record_header [simp]: "length (record_header crc t n) = kHeaderSize"
  by (simp add: record_header_def kHeaderSize_def)

lemma length_phys_record [simp]: "length (phys_record t p) = kHeaderSize + length p"
  by (simp add: phys_record_def)

lemma fragment_length_le: "fragment_length off left \<le> left"
  by (simp add: fragment_length_def Let_def)

text \<open>Every fragment fits into what is left of its block.\<close>

lemma fragment_fits: "block_start off + kHeaderSize + fragment_length (block_start off) left \<le> kBlockSize"
  by (auto simp: block_start_def fragment_length_def Let_def mlsm_bounds)

lemma next_offset_le: "next_offset off left \<le> kBlockSize"
proof (induction off left rule: next_offset.induct)
  case (1 off left)
  then show ?case using fragment_fits [of off left] by (subst next_offset.simps) (auto simp: Let_def)
qed

lemma block_start_simps [simp]:
  "block_start kBlockSize = 0" "block_start 0 = 0" "block_pad kBlockSize = []" "block_pad 0 = []"
  by (simp_all add: block_start_def block_pad_def kHeaderSize_def kBlockSize_def)

lemma layout_full_block [simp]: "layout b kBlockSize data = layout b 0 data"
  by (subst (1 2) layout.simps) (simp add: Let_def)

lemma layout_mod: "off \<le> kBlockSize \<Longrightarrow> layout b (off mod kBlockSize) data = layout b off data"
  by (cases "off = kBlockSize") auto

lemma length_block_pad: "off \<le> kBlockSize \<Longrightarrow> (off + length (block_pad off)) mod kBlockSize = block_start off mod kBlockSize"
  by (auto simp: block_pad_def block_start_def)

text \<open>The block cursor is the length of the log modulo the block size.\<close>

lemma next_offset_layout:
  "off \<le> kBlockSize \<Longrightarrow>
   next_offset off (length data) mod kBlockSize = (off + length (layout b off data)) mod kBlockSize"
proof (induction b off data rule: layout.induct)
  case (1 b off data)
  let ?n = "fragment_length (block_start off) (length data)"
  let ?o = "block_start off + kHeaderSize + ?n"
  have pad: "(off + length (block_pad off)) mod kBlockSize = block_start off mod kBlockSize"
    using "1.prems" by (rule length_block_pad)
  have le: "?n \<le> length data" by (rule fragment_length_le)
  show ?case
  proof (cases "?n < length data")
    case True
    have "next_offset off (length data) mod kBlockSize =
          (?o + length (layout False ?o (drop ?n data))) mod kBlockSize"
      using "1.IH" [OF refl True] True fragment_fits [of off "length data"]
      by (subst next_offset.simps) (simp add: Let_def)
    also have "\<dots> = (off + length (block_pad off) + (kHeaderSize + ?n + length (layout False ?o (drop ?n data)))) mod kBlockSize"
      using pad by (metis (no_types, lifting) add.assoc mod_add_left_eq)
    also have "\<dots> = (off + length (layout b off data)) mod kBlockSize"
      using True le by (subst (2) layout.simps) (simp add: Let_def add.assoc)
    finally show ?thesis .
  next
    case False
    then have "next_offset off (length data) mod kBlockSize = ?o mod kBlockSize"
      by (subst next_offset.simps) (simp add: Let_def)
    also have "\<dots> = (off + length (block_pad off) + (kHeaderSize + ?n)) mod kBlockSize"
      using pad by (metis (no_types, lifting) add.assoc mod_add_left_eq)
    also have "\<dots> = (off + length (layout b off data)) mod kBlockSize"
      using False le by (subst layout.simps) (simp add: Let_def add.assoc)
    finally show ?thesis .
  qed
qed


subsection \<open>The writer appends the format\<close>

definition writer_ok :: "Writer \<Rightarrow> bool" where
  "writer_ok w \<longleftrightarrow>
     block_offset w \<le> kBlockSize \<and>
     type_crc w = map (\<lambda>i. Value [of_nat i]) [0..<Suc kMaxRecordType]"

lemma writer_ok_resume [simp]: "writer_ok (Writer_resume n)"
  by (simp add: writer_ok_def Writer_resume_def kBlockSize_def less_imp_le)

lemma fragment_type_le: "fragment_type b e \<le> kMaxRecordType"
  by (simp add: fragment_type_def record_type_defs)

lemma type_crc_Extend:
  "writer_ok w \<Longrightarrow> t \<le> kMaxRecordType \<Longrightarrow> Extend (type_crc w ! t) p = Value (of_nat t # p)"
  by (simp add: writer_ok_def Extend_Cons del: upt_Suc)

context writable_file
begin

lemma EmitPhysicalRecord_grown:
  assumes "opened f" "writer_ok w" "t \<le> kMaxRecordType"
    and "EmitPhysicalRecord W w f t p = (s, w', f')"
  shows "grown contents durable opened (phys_record t p) f s f'"
proof -
  let ?h = "record_header (Value (of_nat t # p)) t (length p)"
  obtain s1 f1 where a1: "wf_Append W f ?h = (s1, f1)" by fastforce
  note g1 = Append_law [OF assms(1) a1]
  show ?thesis
  proof (cases "ok s1")
    case False
    with assms a1 have "s = s1" "f' = f1"
      by (auto simp: EmitPhysicalRecord_def type_crc_Extend Let_def)
    with g1 False show ?thesis by (simp add: phys_record_def grown_stop)
  next
    case True
    obtain s2 f2 where a2: "wf_Append W f1 p = (s2, f2)" by fastforce
    note g2 = Append_law [OF grown_opened [OF g1] a2]
    obtain s3 f3 where a3: "wf_Flush W f2 = (s3, f3)" by fastforce
    note g3 = Flush_law [OF grown_opened [OF g2] a3]
    have "(s, f') = (if ok s2 then (s3, f3) else (s2, f2))"
      using assms(4) a1 a2 a3 True assms(2,3)
      by (auto simp: EmitPhysicalRecord_def type_crc_Extend Let_def split: if_splits)
    moreover have "grown contents durable opened (?h @ p) f s2 f2"
      by (rule grown_trans [OF g1 True g2])
    ultimately show ?thesis
      using g3 grown_trans [of contents durable opened "?h @ p" f s2 f2 "[]" s3 f3]
      by (auto simp: phys_record_def split: if_splits)
  qed
qed

lemma pad_block_grown:
  assumes "opened f" "pad_block W w f = (s, w', f')"
  shows "grown contents durable opened (block_pad (block_offset w)) f s f'"
  using assms Append_law [OF assms(1)]
  by (auto simp: pad_block_def block_pad_def Let_def grown_refl split: if_splits prod.splits)

text \<open>One round of the loop: pad, emit, and go on only where both worked and data is left.\<close>

lemma AddRecord_round:
  fixes p :: bytes and b :: bool
  assumes "opened f" "writer_ok w"
  defines "n \<equiv> fragment_length (block_start (block_offset w)) (length p)"
  defines "d \<equiv> block_pad (block_offset w) @ phys_record (fragment_type b (length p = n)) (take n p)"
  obtains (failed) s w' f' where "AddRecord_loop W b w f p = (s, w', f')" "\<not> ok s"
      "grown contents durable opened d f s f'"
  | (emitted) s w' f' where "ok s" "grown contents durable opened d f s f'" "writer_ok w'"
      "block_offset w' = block_start (block_offset w) + kHeaderSize + n"
      "AddRecord_loop W b w f p =
        (if n < length p then AddRecord_loop W False w' f' (drop n p) else (s, w', f'))"
proof -
  obtain s1 w1 f1 where pb: "pad_block W w f = (s1, w1, f1)" by (metis prod_cases3)
  note g1 = pad_block_grown [OF assms(1) pb]
  show thesis
  proof (cases "ok s1")
    case False
    with pb g1 show thesis
      by (intro failed [of s1 w1 f1]) (auto simp: AddRecord_loop.simps d_def intro: grown_stop)
  next
    case ok1: True
    have w1: "block_offset w1 = block_start (block_offset w)" "writer_ok w1"
      using pad_block_offset [OF pb ok1] assms(2) by (auto simp: block_start_def writer_ok_def)
    obtain s2 w2 f2 where
      em: "EmitPhysicalRecord W w1 f1 (fragment_type b (length p = n)) (take n p) = (s2, w2, f2)"
      by (metis prod_cases3)
    have g2: "grown contents durable opened d f s2 f2"
      unfolding d_def
      by (rule grown_trans [OF g1 ok1
          EmitPhysicalRecord_grown [OF grown_opened [OF g1] w1(2) fragment_type_le em]])
    have n: "n \<le> length p" unfolding n_def by (rule fragment_length_le)
    have w2: "block_offset w2 = block_start (block_offset w) + kHeaderSize + n" "writer_ok w2"
      using EmitPhysicalRecord_offset [OF em] w1 n fragment_fits [of "block_offset w" "length p"]
      by (auto simp: writer_ok_def n_def)
    have "AddRecord_loop W b w f p =
        (if ok s2 \<and> n < length p then AddRecord_loop W False w2 f2 (drop n p) else (s2, w2, f2))"
      using pb ok1 em w1(1) by (simp add: AddRecord_loop.simps [of W b] n_def Let_def)
    with g2 w2 show thesis
      by (cases "ok s2") (auto intro: failed emitted)
  qed
qed

lemma AddRecord_loop_grown:
  assumes "AddRecord_loop W b w f p = (s, w', f')" "opened f" "writer_ok w"
  shows "grown contents durable opened (layout b (block_offset w) p) f s f' \<and>
    (ok s \<longrightarrow> writer_ok w' \<and> block_offset w' = next_offset (block_offset w) (length p))"
  using assms
proof (induction b "block_offset w" p arbitrary: w f rule: layout.induct)
  case (1 b p)
  let ?n = "fragment_length (block_start (block_offset w)) (length p)"
  let ?o = "block_start (block_offset w) + kHeaderSize + ?n"
  let ?d = "block_pad (block_offset w) @ phys_record (fragment_type b (length p = ?n)) (take ?n p)"
  have lay: "layout b (block_offset w) p =
      ?d @ (if ?n < length p then layout False ?o (drop ?n p) else [])"
    by (subst layout.simps) (simp add: Let_def)
  have off: "next_offset (block_offset w) (length p) =
      (if ?n < length p then next_offset ?o (length (drop ?n p)) else ?o)"
    by (subst next_offset.simps) (simp add: Let_def)
  show ?case
  proof (rule AddRecord_round [OF "1.prems"(2,3), of b p])
    fix s1 w1 f1
    assume r: "AddRecord_loop W b w f p = (s1, w1, f1)" "\<not> ok s1"
      "grown contents durable opened ?d f s1 f1"
    with "1.prems"(1) grown_stop [OF r(3,2)] show ?case by (simp add: lay)
  next
    fix s1 w1 f1
    assume r: "ok s1" "grown contents durable opened ?d f s1 f1" "writer_ok w1"
      "block_offset w1 = ?o"
      "AddRecord_loop W b w f p =
        (if ?n < length p then AddRecord_loop W False w1 f1 (drop ?n p) else (s1, w1, f1))"
    show ?case
    proof (cases "?n < length p")
      case True
      with r(5) "1.prems"(1) have "AddRecord_loop W False w1 f1 (drop ?n p) = (s, w', f')" by simp
      from "1.hyps" [OF refl True r(4) [symmetric] this grown_opened [OF r(2)] r(3)]
      have "grown contents durable opened (layout False ?o (drop ?n p)) f1 s f'"
        and "ok s \<longrightarrow> writer_ok w' \<and> block_offset w' = next_offset ?o (length (drop ?n p))"
        unfolding r(4) by blast+
      with grown_trans [OF r(2,1) this(1)] True show ?thesis by (simp add: lay off)
    next
      case False
      with r "1.prems"(1) show ?thesis by (auto simp: lay off)
    qed
  qed
qed

lemma AddRecord_grown:
  assumes "AddRecord W w f p = (s, w', f')" "opened f" "writer_ok w"
  shows "grown contents durable opened (layout True (block_offset w) p) f s f'"
    and "ok s \<Longrightarrow> writer_ok w' \<and> block_offset w' = next_offset (block_offset w) (length p)"
  using AddRecord_loop_grown [OF assms [unfolded AddRecord_def]] by blast+

end

context reliable_file
begin

lemma EmitPhysicalRecord_ok:
  assumes "opened f" "healthy f"
  shows "\<exists>w' f'. EmitPhysicalRecord W w f t p = (OK, w', f') \<and> healthy f'"
proof -
  let ?h = "record_header (Extend (type_crc w ! t) p) t (length p)"
  obtain f1 where f1: "wf_Append W f ?h = (OK, f1)" "healthy f1" using Append_ok assms by blast
  have o1: "opened f1" by (rule grown_opened [OF Append_law [OF assms(1) f1(1)]])
  obtain f2 where f2: "wf_Append W f1 p = (OK, f2)" "healthy f2" using Append_ok o1 f1 by blast
  have o2: "opened f2" by (rule grown_opened [OF Append_law [OF o1 f2(1)]])
  obtain f3 where f3: "wf_Flush W f2 = (OK, f3)" "healthy f3" using Flush_ok o2 f2 by blast
  show ?thesis using f1 f2 f3 by (simp add: EmitPhysicalRecord_def Let_def)
qed

lemma pad_block_ok:
  assumes "opened f" "healthy f"
  shows "\<exists>w' f'. pad_block W w f = (OK, w', f') \<and> healthy f'"
  using assms Append_ok [OF assms, of "replicate (kBlockSize - block_offset w) 0"]
  by (auto simp: pad_block_def Let_def)

lemma AddRecord_loop_ok:
  assumes "opened f" "healthy f" "writer_ok w"
  shows "\<exists>w' f'. AddRecord_loop W b w f p = (OK, w', f') \<and> healthy f'"
  using assms
proof (induction b "block_offset w" p arbitrary: w f rule: layout.induct)
  case (1 b p)
  let ?n = "fragment_length (block_start (block_offset w)) (length p)"
  let ?t = "fragment_type b (length p = ?n)"
  obtain w1 f1 where pb: "pad_block W w f = (OK, w1, f1)" "healthy f1"
    using pad_block_ok "1.prems" by blast
  have o1: "opened f1" by (rule grown_opened [OF pad_block_grown [OF "1.prems"(1) pb(1)]])
  have w1: "block_offset w1 = block_start (block_offset w)" "writer_ok w1"
    using pad_block_offset [OF pb(1)] "1.prems"(3) by (auto simp: block_start_def writer_ok_def)
  obtain w2 f2 where em: "EmitPhysicalRecord W w1 f1 ?t (take ?n p) = (OK, w2, f2)" "healthy f2"
    using EmitPhysicalRecord_ok [OF o1 pb(2)] by blast
  have o2: "opened f2"
    by (rule grown_opened [OF EmitPhysicalRecord_grown [OF o1 w1(2) fragment_type_le em(1)]])
  have w2: "block_start (block_offset w) + kHeaderSize + ?n = block_offset w2" "writer_ok w2"
    using EmitPhysicalRecord_offset [OF em(1)] w1 fragment_length_le
      fragment_fits [of "block_offset w" "length p"]
    by (auto simp: writer_ok_def min_absorb2)
  have "AddRecord_loop W b w f p =
      (if ?n < length p then AddRecord_loop W False w2 f2 (drop ?n p) else (OK, w2, f2))"
    using pb em w1(1) by (simp add: AddRecord_loop.simps [of W b] Let_def)
  with "1.hyps" [OF refl _ w2(1) o2 em(2) w2(2)] em(2) show ?case by simp
qed

lemma AddRecord_ok:
  assumes "opened f" "healthy f" "writer_ok w"
  shows "\<exists>w' f'. AddRecord W w f p = (OK, w', f') \<and> healthy f'"
  using AddRecord_loop_ok [OF assms] by (simp add: AddRecord_def)

end


subsection \<open>Properties\<close>

lemma AddRecord_loop_position:
  "AddRecord_loop W b w f p = (s, w', f') \<Longrightarrow> writer_ok w \<Longrightarrow> writer_ok w'"
proof (induction W b w f p rule: AddRecord_loop.induct)
  case (1 W b w f p)
  obtain s1 w1 f1 where pad: "pad_block W w f = (s1, w1, f1)" by (metis prod_cases3)
  let ?n = "fragment_length (block_offset w1) (length p)"
  let ?t = "fragment_type b (length p = ?n)"
  obtain s2 w2 f2 where em: "EmitPhysicalRecord W w1 f1 ?t (take ?n p) = (s2, w2, f2)" by (metis prod_cases3)
  show ?case
  proof (cases "ok s1")
    case False
    then have "w1 = w" using pad by (auto simp: pad_block_def Let_def split: if_splits prod.splits)
    with False pad "1.prems" show ?thesis by (simp add: AddRecord_loop.simps [of W b w f p])
  next
    case True
    have "writer_ok w1" using pad_block_offset [OF pad True] "1.prems"(2) by (simp add: writer_ok_def)
    moreover have "kHeaderSize \<le> kBlockSize - block_offset w1"
      using pad_block_offset [OF pad True] by (auto simp: mlsm_bounds split: if_splits)
    ultimately have w2: "writer_ok w2"
      using EmitPhysicalRecord_offset [OF em] by (auto simp: writer_ok_def fragment_length_def Let_def)
    show ?thesis
      using "1.IH" [OF pad [symmetric] refl _ refl refl em [symmetric]] True "1.prems" pad em w2
      by (auto simp: AddRecord_loop.simps [of W b w f p] Let_def split: if_splits)
  qed
qed

text \<open>
  \<^bold>\<open>C21\<close> Positions and lengths, for every file, also one that breaks its contract, and on every
  outcome: the writer stays within its block; and every fragment it emits fits, with its header,
  into what is left of the block, and its length into the two bytes of the header.
\<close>

theorem WAL_writer_bounds:
  assumes "writer_ok w"
  shows "writer_ok (fst (snd (AddRecord W w f p))) \<and>
    (case pad_block W w f of (s, w1, f1) \<Rightarrow> ok s \<longrightarrow>
       block_offset w1 + kHeaderSize + fragment_length (block_offset w1) n \<le> kBlockSize \<and>
       fragment_length (block_offset w1) n < 2 ^ 16)"
proof -
  obtain s w' f' where "AddRecord W w f p = (s, w', f')" by (metis prod_cases3)
  then have "writer_ok (fst (snd (AddRecord W w f p)))"
    using AddRecord_loop_position [of W True w f p s w' f'] assms by (simp add: AddRecord_def)
  moreover obtain s1 w1 f1 where pad: "pad_block W w f = (s1, w1, f1)" by (metis prod_cases3)
  have "block_offset w1 + kHeaderSize + fragment_length (block_offset w1) n \<le> kBlockSize \<and>
       fragment_length (block_offset w1) n < 2 ^ 16" if "ok s1"
    using pad_block_offset [OF pad that] by (auto simp: fragment_length_def mlsm_bounds Let_def split: if_splits)
  ultimately show ?thesis by (simp add: pad)
qed

theorem WAL_writer_bounds_witness:
  "let W = \<lparr>wf_Append = (\<lambda>f d. (IOError ''full'', f)), wf_Flush = (\<lambda>f. (OK, f)), wf_Sync = (\<lambda>f. (OK, f)), wf_Close = (\<lambda>f. (OK, f))\<rparr>;
       w = Writer_resume 32765
   in writer_ok (fst (snd (AddRecord W w () [1, 2]))) \<and>
    (case pad_block W w () of (s, w1, f1) \<Rightarrow> ok s \<longrightarrow>
       block_offset w1 + kHeaderSize + fragment_length (block_offset w1) 2 \<le> kBlockSize \<and>
       fragment_length (block_offset w1) 2 < 2 ^ 16)"
  unfolding Let_def by (rule WAL_writer_bounds) simp

end
