(* ===== verification/Wal_Reader.thy ===== *)
theory Wal_Reader
  imports Wal_Writer
begin

section \<open>The log reader (wal_reader.h, wal_reader.cc)\<close>

text \<open>
  \<open>ReadPhysicalRecord\<close> pulls 32 KB blocks from the \<^verbatim>\<open>SequentialFile\<close> and takes one framed
  record off the current block, checking length and checksum; \<open>ReadRecord\<close> reassembles the
  fragments of a logical record. Drops are reported to an optional reporter, a callback on a
  state of its own.

  The first loop stops whatever the file does, because a short block sets \<open>rd_eof\<close>. The second
  stops only when the file ends: over an endless \<^verbatim>\<open>SequentialFile\<close> it may run for ever, so
  its model is a partial function, and that it returns on every readable file is a theorem.
\<close>

definition kEof :: nat where "kEof = kMaxRecordType + 1"
definition kBadRecord :: nat where "kBadRecord = kMaxRecordType + 2"

record ('f, 'r) Reader =
  rd_file :: 'f
  rd_reporter :: "('r \<Rightarrow> nat \<Rightarrow> Status \<Rightarrow> 'r) option"
  rd_state :: 'r
  rd_eof :: bool
  rd_buffer :: bytes

definition Reader_new :: "'f \<Rightarrow> ('r \<Rightarrow> nat \<Rightarrow> Status \<Rightarrow> 'r) option \<Rightarrow> 'r \<Rightarrow> ('f, 'r) Reader" where
  "Reader_new file reporter st =
     \<lparr>rd_file = file, rd_reporter = reporter, rd_state = st, rd_eof = False, rd_buffer = []\<rparr>"

definition ReportDrop :: "('f, 'r) Reader \<Rightarrow> nat \<Rightarrow> Status \<Rightarrow> ('f, 'r) Reader" where
  "ReportDrop r bytes reason =
     (case rd_reporter r of
        None \<Rightarrow> r
      | Some corruption \<Rightarrow> r\<lparr>rd_state := corruption (rd_state r) bytes reason\<rparr>)"

definition header_length :: "bytes \<Rightarrow> nat" where
  "header_length header =
     unat ((ucast (header ! 4) :: u32) OR push_bit 8 (ucast (header ! 5)))"

text \<open>The part of the loop body that parses a record out of a buffer that holds a header.\<close>

definition ParseRecord :: "('f, 'r) Reader \<Rightarrow> nat \<times> bytes \<times> ('f, 'r) Reader" where
  "ParseRecord r =
     (let header = rd_buffer r;
          masked_crc = DecodeFixed32 header;
          len = header_length header;
          type = unat (header ! 6)
      in
      if kHeaderSize + len > length (rd_buffer r) then
        let drop_size = length (rd_buffer r); r = r\<lparr>rd_buffer := []\<rparr> in
        if \<not> rd_eof r
        then (kBadRecord, [], ReportDrop r drop_size (Corruption ''bad record length''))
        else (kEof, [], r)
      else if type = kZeroType \<and> len = 0 then
        (kBadRecord, [], r\<lparr>rd_buffer := drop kHeaderSize (rd_buffer r)\<rparr>)
      else
        let expected_crc = Unmask masked_crc;
            actual_crc = Value (take (1 + len) (drop 6 header))
        in
        if actual_crc \<noteq> expected_crc then
          let drop_size = length (rd_buffer r) in
          (kBadRecord, [], ReportDrop (r\<lparr>rd_buffer := []\<rparr>) drop_size (Corruption ''checksum mismatch''))
        else
          (type, take len (drop kHeaderSize header),
           r\<lparr>rd_buffer := drop (kHeaderSize + len) (rd_buffer r)\<rparr>))"

function ReadPhysicalRecord ::
  "'f SequentialFile \<Rightarrow> ('f, 'r) Reader \<Rightarrow> nat \<times> bytes \<times> ('f, 'r) Reader" where
  "ReadPhysicalRecord V r =
     (if length (rd_buffer r) < kHeaderSize then
        if rd_eof r then (kEof, [], r\<lparr>rd_buffer := []\<rparr>)
        else
          case sf_Read V (rd_file r) kBlockSize of
            (s, read_result, f) \<Rightarrow>
              let r = r\<lparr>rd_file := f, rd_buffer := read_result\<rparr> in
              if \<not> ok s then
                (kEof, [], ReportDrop (r\<lparr>rd_buffer := [], rd_eof := True\<rparr>) kBlockSize s)
              else
                ReadPhysicalRecord V
                  (if length read_result < kBlockSize then r\<lparr>rd_eof := True\<rparr> else r)
      else ParseRecord r)"
  by pat_completeness auto
termination
  by (relation "measure (\<lambda>(V, r). if length (rd_buffer r) < kHeaderSize \<and> \<not> rd_eof r then 1 else 0)")
     (auto simp: mlsm_bounds)

declare ReadPhysicalRecord.simps [simp del]

partial_function (option) ReadRecord_loop ::
  "'f SequentialFile \<Rightarrow> bool \<Rightarrow> bytes \<Rightarrow> ('f, 'r) Reader \<Rightarrow> (bytes option \<times> ('f, 'r) Reader) option"
where
  "ReadRecord_loop V in_fragmented scratch r =
     (case ReadPhysicalRecord V r of (record_type, fragment, r1) \<Rightarrow>
        if record_type = kFullType then
          Some (Some fragment,
            if in_fragmented
            then ReportDrop r1 (length scratch) (Corruption ''partial record without end(1)'')
            else r1)
        else if record_type = kFirstType then
          ReadRecord_loop V True fragment
            (if in_fragmented
             then ReportDrop r1 (length scratch) (Corruption ''partial record without end(2)'')
             else r1)
        else if record_type = kMiddleType then
          (if \<not> in_fragmented
           then ReadRecord_loop V False scratch
             (ReportDrop r1 (length fragment) (Corruption ''missing start of fragmented record(1)''))
           else ReadRecord_loop V True (scratch @ fragment) r1)
        else if record_type = kLastType then
          (if \<not> in_fragmented
           then ReadRecord_loop V False scratch
             (ReportDrop r1 (length fragment) (Corruption ''missing start of fragmented record(2)''))
           else Some (Some (scratch @ fragment), r1))
        else if record_type = kEof then Some (None, r1)
        else if record_type = kBadRecord then
          (if in_fragmented
           then ReadRecord_loop V False []
             (ReportDrop r1 (length scratch) (Corruption ''error in middle of record''))
           else ReadRecord_loop V False scratch r1)
        else
          ReadRecord_loop V False []
            (ReportDrop r1 (length fragment + (if in_fragmented then length scratch else 0))
              (Corruption ''unknown record type'')))"

text \<open>\<^verbatim>\<open>false\<close> is \<open>None\<close>; \<^verbatim>\<open>true\<close> comes with the record.\<close>

definition ReadRecord ::
  "'f SequentialFile \<Rightarrow> ('f, 'r) Reader \<Rightarrow> (bytes option \<times> ('f, 'r) Reader) option" where
  "ReadRecord V r = ReadRecord_loop V False [] r"

text \<open>
  The loop \<^verbatim>\<open>while (reader.ReadRecord(&record, &scratch)) body\<close> that both recovery
  routines run, with the body as a function on their state.
\<close>

partial_function (option) ForEachRecord ::
  "'f SequentialFile \<Rightarrow> ('s \<Rightarrow> bytes \<Rightarrow> 's) \<Rightarrow> 's \<Rightarrow> ('f, 'r) Reader \<Rightarrow> ('s \<times> ('f, 'r) Reader) option"
where
  "ForEachRecord V body st r =
     (case ReadRecord V r of
        None \<Rightarrow> None
      | Some res \<Rightarrow>
          (case fst res of
             None \<Rightarrow> Some (st, snd res)
           | Some rec \<Rightarrow> ForEachRecord V body (body st rec) (snd res)))"


subsection \<open>Records as the reader finds them\<close>

lemma kTypes [mlsm_bounds]: "kEof = 5" "kBadRecord = 6"
  by (simp_all add: kEof_def kBadRecord_def record_type_defs)

definition same_reports :: "('f, 'r) Reader \<Rightarrow> ('f, 'r) Reader \<Rightarrow> bool" where
  "same_reports r r' \<longleftrightarrow> rd_reporter r' = rd_reporter r \<and> rd_state r' = rd_state r"

lemma same_reports_refl [simp]: "same_reports r r"
  by (simp add: same_reports_def)

lemma same_reports_trans: "same_reports r r1 \<Longrightarrow> same_reports r1 r2 \<Longrightarrow> same_reports r r2"
  by (simp add: same_reports_def)

text \<open>The length field survives the two bytes.\<close>

lemma header_length_bytes:
  assumes "n < 65536"
  shows "unat ((ucast (of_nat (n AND 0xff) :: byte) :: u32) OR
               push_bit 8 (ucast (of_nat (drop_bit 8 n AND 0xff) :: byte))) = n"
proof -
  have m: "(255 :: nat) = mask 8" by (simp add: mask_eq_exp_minus_1)
  have "drop_bit 8 n < 2 ^ 8" using assms by (simp add: drop_bit_eq_div)
  then have hi: "drop_bit 8 n AND 0xff = drop_bit 8 n"
    by (simp only: m flip: take_bit_eq_mask) (simp add: take_bit_nat_eq_self)
  have lo: "n AND 0xff = take_bit 8 n" by (simp only: m flip: take_bit_eq_mask)
  have lo_less: "take_bit 8 n < 256" using take_bit_nat_less_exp [of 8 n] by simp
  have byte: "unat (ucast (of_nat k :: byte) :: u32) = k" if "k < 256" for k
    using that by (simp add: unsigned_ucast_eq unat_of_nat take_bit_nat_eq_self)
  have "push_bit 8 (drop_bit 8 n) < 2 ^ 32"
    using \<open>drop_bit 8 n < 2 ^ 8\<close> by (simp add: push_bit_eq_mult)
  then have "unat (push_bit 8 (ucast (of_nat (drop_bit 8 n) :: byte)) :: u32) = push_bit 8 (drop_bit 8 n)"
    using \<open>drop_bit 8 n < 2 ^ 8\<close>
    by (simp only: unsigned_push_bit_eq byte) (simp add: take_bit_nat_eq_self byte)
  moreover have "take_bit 8 n OR push_bit 8 (drop_bit 8 n) = n"
    by (rule bit_eqI) (rename_tac k, case_tac "k < 8", auto simp: bit_simps)
  ultimately show ?thesis unfolding lo hi unsigned_or_eq byte [OF lo_less] by simp
qed

lemma record_header_fields:
  assumes "n < 65536" "t < 256"
  shows "DecodeFixed32 (record_header crc t n @ q) = Mask crc"
    "header_length (record_header crc t n @ q) = n"
    "unat ((record_header crc t n @ q) ! 6) = t"
    "drop 6 (record_header crc t n @ q) = of_nat t # q"
  using assms header_length_bytes [OF assms(1)]
  by (simp_all add: record_header_def header_length_def nth_append unat_of_nat_byte)

lemma ParseRecord_phys:
  assumes "rd_buffer r = phys_record t p @ v" "length p < 65536" "0 < t" "t < 256"
  shows "ParseRecord r = (t, p, r\<lparr>rd_buffer := v\<rparr>)"
  using assms record_header_fields [OF assms(2,4), of "Value (of_nat t # p)" "p @ v"]
  by (simp add: ParseRecord_def phys_record_def Let_def kZeroType_def)

lemma ParseRecord_torn:
  assumes "rd_buffer r = take m (phys_record t p)" "kHeaderSize \<le> m" "m < kHeaderSize + length p"
    "rd_eof r" "length p < 65536" "0 < t" "t < 256"
  shows "ParseRecord r = (kEof, [], r\<lparr>rd_buffer := []\<rparr>)"
proof -
  have buf: "rd_buffer r = record_header (Value (of_nat t # p)) t (length p) @ take (m - kHeaderSize) p"
    using assms(1,2) by (simp add: phys_record_def)
  show ?thesis
    using assms record_header_fields [OF assms(5,7), of "Value (of_nat t # p)" "take (m - kHeaderSize) p"]
    by (simp add: ParseRecord_def buf Let_def)
qed

lemma ParseRecord_overrun:
  assumes "rd_buffer r = record_header crc t n @ q" "length q < n" "n < 65536" "t < 256" "rd_eof r"
  shows "ParseRecord r = (kEof, [], r\<lparr>rd_buffer := []\<rparr>)"
  using assms record_header_fields [OF assms(3,4), of crc q]
  by (simp add: ParseRecord_def Let_def)


context sequential_file
begin

definition reader_at :: "nat \<Rightarrow> bytes \<Rightarrow> ('f, 'r) Reader \<Rightarrow> bool" where
  "reader_at p u r \<longleftrightarrow>
     readable (rd_file r) \<and> p \<le> kBlockSize \<and>
     rd_buffer r = take (kBlockSize - p) u \<and>
     remaining (rd_file r) = drop (kBlockSize - p) u \<and>
     (rd_eof r \<longleftrightarrow> length u < kBlockSize - p)"

lemma reader_at_new: "readable f \<Longrightarrow> reader_at kBlockSize (remaining f) (Reader_new f rep st)"
  by (simp add: reader_at_def Reader_new_def)

text \<open>Less than a header left in the block: the next block is read.\<close>

lemma ReadPhysicalRecord_switch:
  assumes "reader_at p u r" "kBlockSize - p < kHeaderSize" "kBlockSize - p \<le> length u"
  obtains r' where "ReadPhysicalRecord V r = ReadPhysicalRecord V r'"
    "reader_at 0 (drop (kBlockSize - p) u) r'" "same_reports r r'"
proof -
  let ?u = "drop (kBlockSize - p) u"
  from assms(1) have "readable (rd_file r)" and rem: "remaining (rd_file r) = ?u"
    by (simp_all add: reader_at_def)
  from Read_law [OF this(1), of kBlockSize] rem obtain f' where
    rd: "sf_Read V (rd_file r) kBlockSize = (OK, take kBlockSize ?u, f')"
    and f': "remaining f' = drop kBlockSize ?u" "readable f'" by auto
  let ?r = "r\<lparr>rd_file := f', rd_buffer := take kBlockSize ?u\<rparr>"
  let ?r' = "if length (take kBlockSize ?u) < kBlockSize then ?r\<lparr>rd_eof := True\<rparr> else ?r"
  have "\<not> rd_eof r" "length (rd_buffer r) < kHeaderSize"
    using assms by (auto simp: reader_at_def)
  then have "ReadPhysicalRecord V r = ReadPhysicalRecord V ?r'"
    using rd by (simp add: ReadPhysicalRecord.simps [of V r] Let_def)
  moreover have "reader_at 0 ?u ?r'"
    using f' \<open>\<not> rd_eof r\<close> by (auto simp: reader_at_def)
  moreover have "same_reports r ?r'" by (simp add: same_reports_def)
  ultimately show thesis by (rule that)
qed

text \<open>A whole record at the front of the unread bytes is returned.\<close>

lemma ReadPhysicalRecord_phys:
  assumes "reader_at p (phys_record t d @ v) r" "p + kHeaderSize + length d \<le> kBlockSize"
    and "0 < t" "t \<le> kMaxRecordType"
  obtains r' where "ReadPhysicalRecord V r = (t, d, r')"
    "reader_at (p + kHeaderSize + length d) v r'" "same_reports r r'"
proof -
  obtain k where k: "kBlockSize = p + kHeaderSize + length d + k"
    using assms(2) le_Suc_ex by blast
  have buf: "rd_buffer r = phys_record t d @ take k v"
    using assms(1) by (simp add: reader_at_def k)
  have d: "length d < 65536" "t < 256"
    using assms(2,4) by (simp_all add: mlsm_bounds record_type_defs)
  have "ReadPhysicalRecord V r = ParseRecord r"
    by (simp add: ReadPhysicalRecord.simps [of V r] buf)
  then have "ReadPhysicalRecord V r = (t, d, r\<lparr>rd_buffer := take k v\<rparr>)"
    using ParseRecord_phys [OF buf d(1) assms(3) d(2)] by simp
  moreover have "reader_at (p + kHeaderSize + length d) v (r\<lparr>rd_buffer := take k v\<rparr>)"
    using assms(1) by (simp add: reader_at_def k)
  moreover have "same_reports r (r\<lparr>rd_buffer := take k v\<rparr>)" by (simp add: same_reports_def)
  ultimately show thesis by (rule that)
qed

text \<open>The end of the input, and a record cut short by it.\<close>

lemma ReadPhysicalRecord_short:
  assumes "reader_at p u r" "length u < kHeaderSize" "length u < kBlockSize - p"
  obtains r' where "ReadPhysicalRecord V r = (kEof, [], r')" "same_reports r r'"
  using assms
  by (intro that [of "r\<lparr>rd_buffer := []\<rparr>"])
     (auto simp: reader_at_def ReadPhysicalRecord.simps [of V r] same_reports_def)

lemma ReadPhysicalRecord_torn:
  assumes "reader_at p (take m (phys_record t d)) r" "m < kHeaderSize + length d"
    and "p + kHeaderSize + length d \<le> kBlockSize" "0 < t" "t \<le> kMaxRecordType"
  obtains r' where "ReadPhysicalRecord V r = (kEof, [], r')" "same_reports r r'"
proof (cases "m < kHeaderSize")
  case True
  then have "length (take m (phys_record t d)) < kHeaderSize"
    and "length (take m (phys_record t d)) < kBlockSize - p"
    using assms(3) by auto
  from ReadPhysicalRecord_short [OF assms(1) this] that show thesis by blast
next
  case False
  have d: "length d < 65536" "t < 256"
    using assms(3,5) by (simp_all add: mlsm_bounds record_type_defs)
  have eof: "rd_eof r" and buf: "rd_buffer r = take m (phys_record t d)"
    using assms(1,2,3) by (auto simp: reader_at_def)
  then have "ReadPhysicalRecord V r = ParseRecord r"
    using False assms(2) by (simp add: ReadPhysicalRecord.simps [of V r])
  with ParseRecord_torn [OF buf _ assms(2) eof d(1) assms(4) d(2)] False show thesis
    by (intro that [of "r\<lparr>rd_buffer := []\<rparr>"]) (auto simp: same_reports_def)
qed

text \<open>
  The two facts combined: at a position where the writer may have left a trailer, the reader
  finds the record behind it.
\<close>

lemma ReadPhysicalRecord_padded:
  assumes "reader_at off (block_pad off @ phys_record t d @ v) r"
    and "block_start off + kHeaderSize + length d \<le> kBlockSize" "0 < t" "t \<le> kMaxRecordType"
  obtains r' where "ReadPhysicalRecord V r = (t, d, r')"
    "reader_at (block_start off + kHeaderSize + length d) v r'" "same_reports r r'"
proof (cases "kBlockSize - off < kHeaderSize")
  case True
  then have pad: "length (block_pad off) = kBlockSize - off" and bs: "block_start off = 0"
    by (simp_all add: block_pad_def block_start_def)
  from ReadPhysicalRecord_switch [OF assms(1) True] pad obtain r1 where
    r1: "ReadPhysicalRecord V r = ReadPhysicalRecord V r1" "same_reports r r1"
    "reader_at 0 (phys_record t d @ v) r1" by auto
  from ReadPhysicalRecord_phys [OF r1(3)] assms(2-4) bs obtain r2 where
    "ReadPhysicalRecord V r1 = (t, d, r2)" "reader_at (kHeaderSize + length d) v r2"
    "same_reports r1 r2" by auto
  with r1 bs that show thesis by (auto intro: same_reports_trans)
next
  case False
  then have bs: "block_start off = off" "block_pad off = []"
    by (simp_all add: block_start_def block_pad_def)
  from ReadPhysicalRecord_phys [OF assms(1) [unfolded bs append_Nil] assms(2) [unfolded bs] assms(3,4)]
    bs that show thesis by auto
qed

lemma ReadPhysicalRecord_padded_torn:
  assumes "reader_at off (take m (block_pad off @ phys_record t d)) r"
    and "m < length (block_pad off) + kHeaderSize + length d"
    and "block_start off + kHeaderSize + length d \<le> kBlockSize" "0 < t" "t \<le> kMaxRecordType"
  obtains r' where "ReadPhysicalRecord V r = (kEof, [], r')" "same_reports r r'"
proof (cases "kBlockSize - off < kHeaderSize")
  case True
  then have pad: "block_pad off = replicate (kBlockSize - off) 0" and bs: "block_start off = 0"
    by (simp_all add: block_pad_def block_start_def)
  show thesis
  proof (cases "m < kBlockSize - off")
    case short: True
    with assms(1) pad have "reader_at off (replicate m 0) r" by (simp add: min_def)
    from ReadPhysicalRecord_short [OF this] short True that show thesis by auto
  next
    case False
    with ReadPhysicalRecord_switch [OF assms(1) True] pad obtain r1 where
      r1: "ReadPhysicalRecord V r = ReadPhysicalRecord V r1" "same_reports r r1"
      "reader_at 0 (take (m - (kBlockSize - off)) (phys_record t d)) r1" by auto
    have "m - (kBlockSize - off) < kHeaderSize + length d" "0 + kHeaderSize + length d \<le> kBlockSize"
      using assms(2,3) bs pad False by auto
    from ReadPhysicalRecord_torn [OF r1(3) this assms(4,5)] obtain r2 where
      "ReadPhysicalRecord V r1 = (kEof, [], r2)" "same_reports r1 r2" by auto
    with r1 that show thesis by (auto intro: same_reports_trans)
  qed
next
  case False
  then have bs: "block_start off = off" "block_pad off = []"
    by (simp_all add: block_start_def block_pad_def)
  from ReadPhysicalRecord_torn [OF assms(1) [unfolded bs append_Nil] _ assms(3) [unfolded bs] assms(4,5)]
    assms(2) bs that show thesis by auto
qed

end

lemma fragment_type_pos: "0 < fragment_type b e"
  by (simp add: fragment_type_def record_type_defs)

lemma layout_unfold:
  "layout b off data =
     (let n = fragment_length (block_start off) (length data) in
      block_pad off @ phys_record (fragment_type b (length data = n)) (take n data) @
      (if n < length data then layout False (block_start off + kHeaderSize + n) (drop n data) else []))"
  by (rule layout.simps)

context sequential_file
begin

text \<open>
  A logical record. \<open>b\<close> says that the reader is at its first fragment; later fragments are
  appended to what has been collected.
\<close>

lemma ReadRecord_layout:
  assumes "reader_at off (layout b off data @ v) r"
  shows "\<exists>r'. ReadRecord_loop V (\<not> b) scratch r = Some (Some ((if b then [] else scratch) @ data), r') \<and>
    reader_at (next_offset off (length data)) v r' \<and> same_reports r r'"
  using assms
proof (induction b off data arbitrary: r scratch rule: layout.induct)
  case (1 b off data)
  let ?n = "fragment_length (block_start off) (length data)"
  let ?o = "block_start off + kHeaderSize + ?n"
  let ?t = "fragment_type b (length data = ?n)"
  let ?rest = "if ?n < length data then layout False ?o (drop ?n data) else []"
  have n: "?n \<le> length data" by (rule fragment_length_le)
  have "reader_at off (block_pad off @ phys_record ?t (take ?n data) @ ?rest @ v) r"
    using "1.prems" by (simp add: layout_unfold [of b off] Let_def)
  from ReadPhysicalRecord_padded [OF this _ fragment_type_pos fragment_type_le] n
    fragment_fits [of off "length data"]
  obtain r1 where r1: "ReadPhysicalRecord V r = (?t, take ?n data, r1)"
    "reader_at ?o (?rest @ v) r1" "same_reports r r1" by (auto simp: min_absorb2)
  have off: "next_offset off (length data) =
      (if ?n < length data then next_offset ?o (length (drop ?n data)) else ?o)"
    by (subst next_offset.simps) (simp add: Let_def)
  show ?case
  proof (cases "?n < length data")
    case True
    with r1(2) have at: "reader_at ?o (layout False ?o (drop ?n data) @ v) r1" by simp
    let ?s = "(if b then [] else scratch) @ take ?n data"
    from "1.IH" [OF refl True at, of ?s] obtain r2 where
      r2: "ReadRecord_loop V True ?s r1 = Some (Some ((if b then [] else scratch) @ data), r2)"
      "reader_at (next_offset ?o (length (drop ?n data))) v r2" "same_reports r1 r2" by auto
    have "ReadRecord_loop V (\<not> b) scratch r = ReadRecord_loop V True ?s r1"
      using True r1(1)
      by (subst ReadRecord_loop.simps) (auto simp: fragment_type_def record_type_defs)
    with r2 True off r1(3) show ?thesis by (auto intro: same_reports_trans)
  next
    case False
    with n have "?n = length data" by simp
    with r1 off show ?thesis
      by (subst ReadRecord_loop.simps) (auto simp: fragment_type_def record_type_defs)
  qed
qed

lemma ReadRecord_layout_torn:
  assumes "reader_at off (take m (layout b off data)) r" "m < length (layout b off data)"
  shows "\<exists>r'. ReadRecord_loop V (\<not> b) scratch r = Some (None, r') \<and> same_reports r r'"
  using assms
proof (induction b off data arbitrary: m r scratch rule: layout.induct)
  case (1 b off data)
  let ?n = "fragment_length (block_start off) (length data)"
  let ?o = "block_start off + kHeaderSize + ?n"
  let ?t = "fragment_type b (length data = ?n)"
  let ?d = "block_pad off @ phys_record ?t (take ?n data)"
  let ?rest = "if ?n < length data then layout False ?o (drop ?n data) else []"
  have n: "?n \<le> length data" by (rule fragment_length_le)
  have lay: "layout b off data = ?d @ ?rest"
    by (subst layout_unfold) (simp add: Let_def)
  note fits = fragment_fits [of off "length data"]
  show ?case
  proof (cases "m < length ?d")
    case True
    with "1.prems"(1) lay have "reader_at off (take m ?d) r" by simp
    from ReadPhysicalRecord_padded_torn [OF this _ _ fragment_type_pos fragment_type_le] True n fits
    obtain r1 where "ReadPhysicalRecord V r = (kEof, [], r1)" "same_reports r r1"
      by (auto simp: min_absorb2)
    then show ?thesis
      by (subst ReadRecord_loop.simps) (auto simp: kEof_def record_type_defs)
  next
    case False
    with "1.prems"(2) lay have less: "?n < length data" by (auto split: if_splits)
    let ?m = "m - length ?d"
    have "reader_at off (block_pad off @ phys_record ?t (take ?n data) @ take ?m (layout False ?o (drop ?n data))) r"
      using "1.prems"(1) False less by (simp add: lay)
    from ReadPhysicalRecord_padded [OF this _ fragment_type_pos fragment_type_le] n fits
    obtain r1 where r1: "ReadPhysicalRecord V r = (?t, take ?n data, r1)" "same_reports r r1"
      and at: "reader_at ?o (take ?m (layout False ?o (drop ?n data))) r1"
      by (auto simp: min_absorb2)
    let ?s = "(if b then [] else scratch) @ take ?n data"
    have "?m < length (layout False ?o (drop ?n data))"
      using "1.prems"(2) False less by (auto simp: lay)
    from "1.IH" [OF refl less at this, of ?s] obtain r2 where
      r2: "ReadRecord_loop V True ?s r1 = Some (None, r2)" "same_reports r1 r2" by auto
    have "ReadRecord_loop V (\<not> b) scratch r = ReadRecord_loop V True ?s r1"
      using less r1(1)
      by (subst ReadRecord_loop.simps) (auto simp: fragment_type_def record_type_defs)
    with r2 r1(2) show ?thesis by (auto intro: same_reports_trans)
  qed
qed

lemma ReadRecord_end:
  assumes "reader_at off [] r"
  shows "\<exists>r'. ReadRecord V r = Some (None, r') \<and> same_reports r r'"
proof -
  have "length (layout True off []) > 0" by (subst layout_unfold) (simp add: Let_def mlsm_bounds)
  then show ?thesis
    using ReadRecord_layout_torn [of off 0 True "[]" r "[]"] assms by (simp add: ReadRecord_def)
qed

end

subsection \<open>The reader returns\<close>

text \<open>
  Whatever the bytes are, every call consumes some or ends the input, so both loops return on a
  readable file.
\<close>

lemma ReportDrop_frame [simp]:
  "rd_file (ReportDrop r n s) = rd_file r" "rd_buffer (ReportDrop r n s) = rd_buffer r"
  "rd_eof (ReportDrop r n s) = rd_eof r" "rd_reporter (ReportDrop r n s) = rd_reporter r"
  by (simp_all add: ReportDrop_def split: option.splits)

lemma ParseRecord_consumes:
  assumes "ParseRecord r = (t, p, r')" "kHeaderSize \<le> length (rd_buffer r)"
  shows "rd_file r' = rd_file r" "t \<noteq> kEof \<Longrightarrow> length (rd_buffer r') < length (rd_buffer r)"
  using assms
  by (auto simp: ParseRecord_def Let_def kHeaderSize_def split: if_splits)

context sequential_file
begin

lemma ReadPhysicalRecord_consumes:
  assumes "ReadPhysicalRecord V r = (t, p, r')" "readable (rd_file r)"
  shows "readable (rd_file r') \<and> (t \<noteq> kEof \<longrightarrow>
      length (rd_buffer r') + length (remaining (rd_file r'))
      < length (rd_buffer r) + length (remaining (rd_file r)))"
proof -
  have base: "readable (rd_file r') \<and> (t \<noteq> kEof \<longrightarrow>
      length (rd_buffer r') + length (remaining (rd_file r'))
      < length (rd_buffer r) + length (remaining (rd_file r)))"
    if "ReadPhysicalRecord V r = (t, p, r')" "readable (rd_file r)"
      "\<not> (length (rd_buffer r) < kHeaderSize \<and> \<not> rd_eof r)" for r
    using that ParseRecord_consumes [of r t p r']
    by (auto simp: ReadPhysicalRecord.simps [of V r] split: if_splits)
  show ?thesis
  proof (cases "length (rd_buffer r) < kHeaderSize \<and> \<not> rd_eof r")
    case False
    then show ?thesis using base assms by blast
  next
    case True
    let ?rem = "remaining (rd_file r)"
    obtain f' where f': "sf_Read V (rd_file r) kBlockSize = (OK, take kBlockSize ?rem, f')"
      "remaining f' = drop kBlockSize ?rem" "readable f'"
      using Read_law [OF assms(2)] by blast
    define r1 where "r1 = (let r1 = r\<lparr>rd_file := f', rd_buffer := take kBlockSize ?rem\<rparr> in
      if length (take kBlockSize ?rem) < kBlockSize then r1\<lparr>rd_eof := True\<rparr> else r1)"
    have r1: "rd_file r1 = f'" "rd_buffer r1 = take kBlockSize ?rem"
      "rd_eof r1 \<or> kBlockSize \<le> length (take kBlockSize ?rem)"
      by (auto simp: r1_def Let_def)
    have "ReadPhysicalRecord V r1 = (t, p, r')"
      using assms(1) True f'(1) by (simp add: ReadPhysicalRecord.simps [of V r] r1_def Let_def)
    from base [OF this] r1 f' show ?thesis by (auto simp: mlsm_bounds)
  qed
qed

lemma ReadRecord_returns:
  fixes r :: "('f, 'r) Reader"
  assumes "readable (rd_file r)"
  shows "\<exists>res r'. ReadRecord_loop V b s r = Some (res, r') \<and> readable (rd_file r') \<and>
    (res \<noteq> None \<longrightarrow> length (rd_buffer r') + length (remaining (rd_file r'))
                  < length (rd_buffer r) + length (remaining (rd_file r)))"
  using assms
proof (induction "length (rd_buffer r) + length (remaining (rd_file r))" arbitrary: r b s
    rule: less_induct)
  case less
  obtain t p r1 where rp: "ReadPhysicalRecord V r = (t, p, r1)" by (metis prod_cases3)
  note c = ReadPhysicalRecord_consumes [OF rp less.prems]
  have IH: "\<exists>res r'. ReadRecord_loop V b' s' r2 = Some (res, r') \<and> readable (rd_file r') \<and>
    (res \<noteq> None \<longrightarrow> length (rd_buffer r') + length (remaining (rd_file r'))
                  < length (rd_buffer r) + length (remaining (rd_file r)))"
    if "t \<noteq> kEof" "rd_file r2 = rd_file r1" "rd_buffer r2 = rd_buffer r1" for b' s' and r2 :: "('f, 'r) Reader"
    using less.hyps [of r2 b' s'] c that by fastforce
  show ?case
  proof (cases "t = kEof")
    case True
    with rp c show ?thesis by (subst ReadRecord_loop.simps) (auto simp: kEof_def record_type_defs)
  next
    case False
    with rp c IH show ?thesis by (subst ReadRecord_loop.simps) auto
  qed
qed

lemma ForEachRecord_returns:
  assumes "readable (rd_file r)"
  shows "\<exists>st' r'. ForEachRecord V body st r = Some (st', r') \<and> readable (rd_file r')"
  using assms
proof (induction "length (rd_buffer r) + length (remaining (rd_file r))" arbitrary: r st
    rule: less_induct)
  case less
  obtain res r1 where "ReadRecord V r = Some (res, r1)" "readable (rd_file r1)"
    "res \<noteq> None \<longrightarrow> length (rd_buffer r1) + length (remaining (rd_file r1))
                  < length (rd_buffer r) + length (remaining (rd_file r))"
    using ReadRecord_returns [OF less.prems, of False "[]"] by (auto simp: ReadRecord_def)
  with less.hyps [of r1] show ?case
    by (subst ForEachRecord.simps) (cases res, auto)
qed

end

end
