(* ===== verification/Wal_Log.thy ===== *)
theory Wal_Log
  imports Wal_Reader
begin

section \<open>Logs: what was written is read back, up to the point of a crash\<close>

text \<open>
  Writer and reader together. \<open>log_bytes\<close> is the file a sequence of \<^verbatim>\<open>AddRecord\<close> calls
  leaves; the recovery loop over any prefix of it yields exactly the records that lie whole
  within the prefix.
\<close>

lemma layout_one_block:
  assumes "off + kHeaderSize + length d \<le> kBlockSize"
  shows "layout True off d = phys_record kFullType d"
  using assms
  by (subst layout_unfold)
     (auto simp: block_start_def block_pad_def fragment_length_def fragment_type_def Let_def)

text \<open>
  The bytes of a log of records, begun at a position of a block, the position behind it, and the
  number of records that lie whole within its first \<open>m\<close> bytes.
\<close>

fun log_bytes :: "nat \<Rightarrow> bytes list \<Rightarrow> bytes" where
  "log_bytes off [] = []"
| "log_bytes off (x # xs) = layout True off x @ log_bytes (next_offset off (length x)) xs"

fun log_offset :: "nat \<Rightarrow> bytes list \<Rightarrow> nat" where
  "log_offset off [] = off"
| "log_offset off (x # xs) = log_offset (next_offset off (length x)) xs"

fun whole_records :: "nat \<Rightarrow> nat \<Rightarrow> bytes list \<Rightarrow> nat" where
  "whole_records off m [] = 0"
| "whole_records off m (x # xs) =
     (let l = length (layout True off x) in
      if l \<le> m then Suc (whole_records (next_offset off (length x)) (m - l) xs) else 0)"

lemma log_bytes_append: "log_bytes off (xs @ ys) = log_bytes off xs @ log_bytes (log_offset off xs) ys"
  by (induction xs arbitrary: off) auto

lemma log_offset_append: "log_offset off (xs @ ys) = log_offset (log_offset off xs) ys"
  by (induction xs arbitrary: off) auto

lemma log_offset_le: "off \<le> kBlockSize \<Longrightarrow> log_offset off xs \<le> kBlockSize"
  by (induction xs arbitrary: off) (auto simp: next_offset_le)

lemma log_offset_mod:
  "off \<le> kBlockSize \<Longrightarrow>
   log_offset off xs mod kBlockSize = (off + length (log_bytes off xs)) mod kBlockSize"
proof (induction xs arbitrary: off)
  case Nil
  then show ?case by simp
next
  case (Cons x xs)
  let ?o = "next_offset off (length x)"
  have "log_offset off (x # xs) mod kBlockSize = (?o + length (log_bytes ?o xs)) mod kBlockSize"
    using Cons.IH [OF next_offset_le] by simp
  also have "\<dots> = (off + length (layout True off x) + length (log_bytes ?o xs)) mod kBlockSize"
    using next_offset_layout [OF Cons.prems, of x True] by (metis mod_add_left_eq)
  finally show ?case by (simp add: add.assoc)
qed

lemma next_offset_full_block [simp]: "next_offset kBlockSize n = next_offset 0 n"
  by (subst (1 2) next_offset.simps) (simp add: Let_def)

lemma log_bytes_mod: "off \<le> kBlockSize \<Longrightarrow> log_bytes (off mod kBlockSize) xs = log_bytes off xs"
  by (cases "off = kBlockSize"; cases xs) auto

lemma log_offset_mod_start:
  "off \<le> kBlockSize \<Longrightarrow> xs \<noteq> [] \<Longrightarrow> log_offset (off mod kBlockSize) xs = log_offset off xs"
  by (cases "off = kBlockSize"; cases xs) auto

lemma whole_records_all: "length (log_bytes off xs) \<le> m \<Longrightarrow> whole_records off m xs = length xs"
  by (induction xs arbitrary: off m) (auto simp: Let_def)

lemma whole_records_le: "whole_records off m xs \<le> length xs"
  by (induction xs arbitrary: off m) (auto simp: Let_def)

lemma whole_records_append:
  "length (log_bytes off xs) \<le> m \<Longrightarrow>
   whole_records off m (xs @ ys) =
     length xs + whole_records (log_offset off xs) (m - length (log_bytes off xs)) ys"
  by (induction xs arbitrary: off m) (auto simp: Let_def)

context sequential_file
begin

text \<open>
  The recovery loop over the first \<open>m\<close> bytes of a log: it returns, it hands exactly the records
  that lie whole in these bytes to its body, in order, and reports nothing.
\<close>

lemma ForEachRecord_take:
  assumes "reader_at off (take m (log_bytes off xs)) r"
  shows "\<exists>r'. ForEachRecord V body st r = Some (foldl body st (take (whole_records off m xs) xs), r') \<and>
    same_reports r r'"
  using assms
proof (induction xs arbitrary: off m st r)
  case Nil
  with ReadRecord_end [of off r] show ?case by (subst ForEachRecord.simps) auto
next
  case (Cons x xs)
  let ?l = "length (layout True off x)"
  let ?o = "next_offset off (length x)"
  show ?case
  proof (cases "?l \<le> m")
    case True
    with Cons.prems have "reader_at off (layout True off x @ take (m - ?l) (log_bytes ?o xs)) r"
      by simp
    from ReadRecord_layout [OF this, of "[]"] obtain r1 where
      r1: "ReadRecord V r = Some (Some x, r1)" "same_reports r r1"
      and at: "reader_at ?o (take (m - ?l) (log_bytes ?o xs)) r1" by (auto simp: ReadRecord_def)
    from Cons.IH [OF at, of "body st x"] r1 True show ?thesis
      by (subst ForEachRecord.simps) (auto intro: same_reports_trans)
  next
    case False
    with Cons.prems have "reader_at off (take m (layout True off x)) r" by simp
    from ReadRecord_layout_torn [OF this, of "[]"] False obtain r1 where
      "ReadRecord V r = Some (None, r1)" "same_reports r r1" by (auto simp: ReadRecord_def)
    with False show ?thesis by (subst ForEachRecord.simps) auto
  qed
qed

lemma ForEachRecord_new:
  assumes "readable f" "remaining f = take m (log_bytes 0 xs)"
  shows "\<exists>r'. ForEachRecord V body st (Reader_new f rep rs) =
      Some (foldl body st (take (whole_records 0 m xs) xs), r') \<and> rd_state r' = rs"
proof -
  have eq1: "log_bytes kBlockSize xs = log_bytes 0 xs" by (cases xs) simp_all
  have eq2: "whole_records kBlockSize m xs = whole_records 0 m xs" by (cases xs) (simp_all add: Let_def)
  note eq = eq1 eq2
  have "reader_at kBlockSize (take m (log_bytes kBlockSize xs)) (Reader_new f rep rs)"
    using reader_at_new [OF assms(1), of rep rs] by (simp only: assms(2) eq)
  from ForEachRecord_take [OF this, of body st] obtain r' where
    "ForEachRecord V body st (Reader_new f rep rs) =
      Some (foldl body st (take (whole_records 0 m xs) xs), r')"
    "same_reports (Reader_new f rep rs) r'" unfolding eq by blast
  then show ?thesis by (simp add: same_reports_def Reader_new_def)
qed

end

text \<open>
  The writer resumes at the offset of the file's end within its block; the size's 64 bits do
  not matter for it, as they hold a whole number of blocks.
\<close>

lemma block_offset_resume [simp]: "block_offset (Writer_resume (of_nat n)) = n mod kBlockSize"
proof -
  have "n mod 2 ^ 64 mod kBlockSize = n mod kBlockSize"
    by (rule mod_mod_cancel) (simp add: kBlockSize_def)
  then show ?thesis by (simp add: Writer_resume_def unat_of_nat)
qed

lemma block_offset_resume_0 [simp]: "block_offset (Writer_resume 0) = 0"
  by (simp add: Writer_resume_def)

text \<open>A file that consists of whole records consists of the records the reader finds in it.\<close>

lemma log_bytes_whole:
  assumes "take m (log_bytes 0 xs) = log_bytes 0 ys"
  shows "ys = take (whole_records 0 m xs) xs"
proof -
  let ?f = "(\<lparr>pf_path = ''f'', pf_fd = 0\<rparr>, fresh_os\<lparr>os_files := [''f'' \<mapsto> log_bytes 0 ys],
    os_fds := [0 \<mapsto> \<lparr>fd_path = ''f'', fd_offset = 0, fd_append = False\<rparr>]\<rparr>)"
  let ?read = "ForEachRecord posix_sequential (\<lambda>l x. l @ [x]) [] (Reader_new ?f None ())"
  have f: "posix_readable ?f" "posix_remaining ?f = log_bytes 0 ys"
    by (simp_all add: posix_readable_def posix_remaining_def harmless_def fresh_os_def file_contents_def)
  have snoc: "foldl (\<lambda>l x. l @ [x]) a zs = a @ zs" for a zs :: "bytes list" by (induction zs arbitrary: a) simp_all
  have "posix_remaining ?f = take m (log_bytes 0 xs)" using f(2) assms by simp
  from posix_sf.ForEachRecord_new [OF f(1) this, of "\<lambda>l x. l @ [x]" "[]" None "()"]
  have "map_option fst ?read = Some (take (whole_records 0 m xs) xs)" by (auto simp: snoc)
  moreover have "posix_remaining ?f = take (length (log_bytes 0 ys)) (log_bytes 0 ys)" using f(2) by simp
  from posix_sf.ForEachRecord_new [OF f(1) this, of "\<lambda>l x. l @ [x]" "[]" None "()"]
  have "map_option fst ?read = Some ys" using whole_records_all [of 0 ys] by (auto simp: snoc)
  ultimately show ?thesis by simp
qed

text \<open>
  A read that fails ends the log like the end of the file does: the loop returns with what it has,
  here nothing, and only the reporter hears of it.
\<close>

lemma ForEachRecord_read_fails:
  assumes "sf_Read V f kBlockSize = (s, bs, f')" "\<not> ok s"
  shows "\<exists>r'. ForEachRecord V body st (Reader_new f rep q) = Some (st, r') \<and> rd_file r' = f'"
proof -
  let ?r = "Reader_new f rep q"
  let ?r' = "ReportDrop (?r\<lparr>rd_file := f', rd_buffer := [], rd_eof := True\<rparr>) kBlockSize s"
  have "ReadPhysicalRecord V ?r = (kEof, [], ?r')"
    by (subst ReadPhysicalRecord.simps) (simp add: assms Reader_new_def kHeaderSize_def)
  then have "ReadRecord V ?r = Some (None, ?r')"
    unfolding ReadRecord_def by (subst ReadRecord_loop.simps) (simp add: record_type_defs kEof_def)
  then show ?thesis
    by (subst ForEachRecord.simps) (simp add: ReportDrop_def split: option.split)
qed

lemma replay_read_fails:
  assumes "os_files os p = Some c" "e \<noteq> EINTR" "os_script os = Proceed k # Fails e # sc" "calm (os\<lparr>os_script := sc\<rparr>)"
  obtains f os1 r' where "NewSequentialFile p os = (OK, Some f, os1)"
    "ForEachRecord posix_sequential body st (Reader_new (f, os1) rep q) = Some (st, r')"
    "disk_kept os (PosixFile_destroy f (snd (rd_file r')))" "calm (PosixFile_destroy f (snd (rd_file r')))"
proof -
  let ?f = "\<lparr>pf_path = p, pf_fd = os_next_fd os\<rparr>"
  obtain os1 where o1: "NewSequentialFile p os = (OK, Some ?f, os1)" "os_script os1 = Fails e # sc"
    "os_files os1 = os_files os" "os_stable os1 = os_stable os" "os_dirs os1 = os_dirs os"
    using assms by (simp add: NewSequentialFile_def open_with_def sys_open_def next_result_def failure_def add_fd_def)
  let ?os2 = "os1\<lparr>os_script := sc\<rparr>"
  have "sf_Read posix_sequential (?f, os1) kBlockSize = (PosixError (''read '' @ p) e, [], (?f, ?os2))"
    using o1(2) assms(2) by (simp add: posix_sequential_def PosixRead_def read_loop.simps sys_read_def next_result_def
        failure_def kBlockSize_def)
  from ForEachRecord_read_fails [OF this, of body st rep q] obtain r' where
    r': "ForEachRecord posix_sequential body st (Reader_new (?f, os1) rep q) = Some (st, r')" "rd_file r' = (?f, ?os2)"
    by (auto simp: PosixError_def)
  have "disk_kept os ?os2" using o1 assms(3) by (auto simp: disk_kept_def intro: exI [of _ 2])
  moreover have "calm ?os2" using assms(4) by (simp add: calm_def)
  ultimately have "disk_kept os (PosixFile_destroy ?f ?os2)" "calm (PosixFile_destroy ?f ?os2)"
    by (auto intro: disk_kept_trans PosixFile_destroy_kept disk_kept_calm [OF PosixFile_destroy_kept])
  with that o1(1) r' show thesis by simp
qed

text \<open>The two calls before it, when they are carried out.\<close>

lemma MakeDir_proceeds:
  assumes "os_script os = Proceed k # sc"
  obtains os' where "MakeDir p os = (OK, os')" "os_script os' = sc" "os_files os' = os_files os"
  using assms by (cases "os_files os p \<noteq> None \<or> p \<in> os_dirs os")
    (auto simp: MakeDir_def sys_mkdir_def next_result_def failure_def Let_def)

lemma FileExists_proceeds:
  assumes "os_script os = Proceed k # sc" "os_files os p = Some c"
  obtains os' where "FileExists p os = (True, os')" "os_script os' = sc" "os_files os' = os_files os"
  using assms by (simp add: FileExists_def sys_access_def next_result_def failure_def Let_def)

lemma appends_behind:
  assumes "calm os" "os_files os p = Some c"
  obtains os1 os2 f os3 where "FileExists p os = (True, os1)" "GetFileSize p os1 = (OK, of_nat (length c), os2)"
    "NewAppendableFile p os2 = (OK, Some f, os3)" "file_contents os3 p = c"
proof -
  obtain os1 where o1: "FileExists p os = (True, os1)" "disk_kept os os1"
    using FileExists_calm [OF assms(1), of p] assms(2) by auto
  moreover from o1(2) assms obtain os2 where o2: "GetFileSize p os1 = (OK, of_nat (length c), os2)" "disk_kept os1 os2"
    using GetFileSize_calm [OF disk_kept_calm [OF o1(2) assms(1)], of p c] by (auto simp: disk_kept_def)
  moreover note k = disk_kept_trans [OF o1(2) o2(2)]
  from NewAppendableFile_calm [OF disk_kept_calm [OF k assms(1)], of p] obtain f os3 where
    "NewAppendableFile p os2 = (OK, Some f, os3)" "pf_path f = p" "posix_contents (f, os3) = file_contents os2 p" by auto
  moreover have "file_contents os2 p = c" using k assms(2) by (simp add: disk_kept_def file_contents_def)
  ultimately show thesis using that by (simp add: posix_contents_def)
qed

text \<open>
  A header whose payload is missing, with fewer bytes behind it than it announces: the reader
  takes all of them for the payload, finds it incomplete, and stops.
\<close>

lemma ReadRecord_overrun:
  assumes "posix_readable f" "posix_remaining f = record_header crc t n @ q"
    "length q < n" "n < kBlockSize - kHeaderSize" "t < 256"
  shows "\<exists>r'. ForEachRecord posix_sequential body st (Reader_new f rep rs) = Some (st, r') \<and> rd_state r' = rs"
proof -
  let ?R = "Reader_new f rep rs"
  have "posix_sf.reader_at kBlockSize (record_header crc t n @ q) ?R"
    using posix_sf.reader_at_new [OF assms(1), of rep rs] assms(2) by simp
  from posix_sf.ReadPhysicalRecord_switch [OF this] obtain r1 where
    r1: "ReadPhysicalRecord posix_sequential ?R = ReadPhysicalRecord posix_sequential r1"
      "posix_sf.reader_at 0 (record_header crc t n @ q) r1" "same_reports ?R r1"
    by (auto simp: kHeaderSize_def)
  have "rd_buffer r1 = record_header crc t n @ q" "rd_eof r1"
    using r1(2) assms(3,4) by (auto simp: posix_sf.reader_at_def)
  then have "ReadPhysicalRecord posix_sequential r1 = (kEof, [], r1\<lparr>rd_buffer := []\<rparr>)"
    using ParseRecord_overrun [of r1 crc t n q] assms(3-5)
    by (simp add: ReadPhysicalRecord.simps [of _ r1] mlsm_bounds)
  with r1(1) have "ReadRecord posix_sequential ?R = Some (None, r1\<lparr>rd_buffer := []\<rparr>)"
    unfolding ReadRecord_def by (subst ReadRecord_loop.simps) (simp add: kEof_def record_type_defs)
  with r1(3) show ?thesis
    by (subst ForEachRecord.simps) (auto simp: same_reports_def Reader_new_def)
qed

text \<open>A client that adds one record after another and stops at the first failure.\<close>

fun add_records ::
  "'f WritableFile \<Rightarrow> Writer \<Rightarrow> 'f \<Rightarrow> bytes list \<Rightarrow> Status \<times> Writer \<times> 'f" where
  "add_records W w f [] = (OK, w, f)"
| "add_records W w f (x # xs) =
     (case AddRecord W w f x of (s, w', f') \<Rightarrow>
        if ok s then add_records W w' f' xs else (s, w', f'))"

lemma add_records_append:
  "add_records W w f (xs @ ys) =
     (case add_records W w f xs of (s, w', f') \<Rightarrow>
        if ok s then add_records W w' f' ys else (s, w', f'))"
  by (induction xs arbitrary: w f) (auto split: prod.splits)

context writable_file
begin

lemma add_records_grown:
  assumes "add_records W w f xs = (s, w', f')" "opened f" "writer_ok w"
  shows "grown contents durable opened (log_bytes (block_offset w) xs) f s f'"
  using assms
proof (induction xs arbitrary: w f)
  case Nil
  then show ?case by (simp add: grown_refl)
next
  case (Cons x xs)
  obtain s1 w1 f1 where add: "AddRecord W w f x = (s1, w1, f1)" by (metis prod_cases3)
  note g = AddRecord_grown [OF add Cons.prems(2,3)]
  show ?case
  proof (cases "ok s1")
    case False
    with add Cons.prems(1) g(1) show ?thesis by (auto simp: grown_stop)
  next
    case True
    with add Cons.prems(1) have "add_records W w1 f1 xs = (s, w', f')" by simp
    from Cons.IH [OF this grown_opened [OF g(1)]] g(2) [OF True]
    have "grown contents durable opened (log_bytes (next_offset (block_offset w) (length x)) xs) f1 s f'"
      by simp
    with grown_trans [OF g(1) True] show ?thesis by simp
  qed
qed

lemma add_records_offset:
  assumes "add_records W w f xs = (s, w', f')" "opened f" "writer_ok w" "ok s"
  shows "writer_ok w' \<and> block_offset w' = log_offset (block_offset w) xs"
  using assms
proof (induction xs arbitrary: w f)
  case Nil
  then show ?case by simp
next
  case (Cons x xs)
  obtain s1 w1 f1 where add: "AddRecord W w f x = (s1, w1, f1)" by (metis prod_cases3)
  note g = AddRecord_grown [OF add Cons.prems(2,3)]
  have "ok s1" using Cons.prems(1,4) add by (auto split: if_splits)
  moreover from this have "add_records W w1 f1 xs = (s, w', f')" using Cons.prems(1) add by simp
  ultimately show ?case
    using Cons.IH [OF _ grown_opened [OF g(1)]] g(2) Cons.prems(4) by simp
qed

text \<open>A writer resumed behind a log continues that log.\<close>

lemma add_records_resume:
  assumes "add_records W (Writer_resume (of_nat (length (contents f)))) f xs = (s, w', f')" "opened f"
    and "contents f = log_bytes 0 past"
  shows "\<exists>m. contents f' = take m (log_bytes 0 (past @ xs)) \<and>
    (ok s \<longrightarrow> contents f' = log_bytes 0 (past @ xs))"
proof -
  let ?w = "Writer_resume (of_nat (length (contents f)))"
  have "block_offset ?w = log_offset 0 past mod kBlockSize"
    using log_offset_mod [of 0 past] assms(3) by simp
  then have "log_bytes (block_offset ?w) xs = log_bytes (log_offset 0 past) xs"
    by (simp add: log_bytes_mod log_offset_le)
  with add_records_grown [OF assms(1,2)] assms(3) have
    "(\<exists>k. contents f' = log_bytes 0 past @ take k (log_bytes (log_offset 0 past) xs)) \<and>
     (ok s \<longrightarrow> contents f' = log_bytes 0 (past @ xs))"
    by (simp add: grown_def log_bytes_append)
  then obtain k where
    "contents f' = log_bytes 0 past @ take k (log_bytes (log_offset 0 past) xs)"
    "ok s \<longrightarrow> contents f' = log_bytes 0 (past @ xs)" by blast
  then show ?thesis
    by (intro exI [of _ "length (log_bytes 0 past) + k"]) (simp add: log_bytes_append)
qed

end

context reliable_file
begin

lemma add_records_ok:
  assumes "opened f" "healthy f" "writer_ok w"
  shows "\<exists>w' f'. add_records W w f xs = (OK, w', f') \<and> healthy f'"
  using assms
proof (induction xs arbitrary: w f)
  case (Cons x xs)
  from AddRecord_ok [OF Cons.prems] obtain w1 f1 where
    add: "AddRecord W w f x = (OK, w1, f1)" "healthy f1" by blast
  note g = AddRecord_grown [OF add(1) Cons.prems(1,3)]
  from Cons.IH [OF grown_opened [OF g(1)] add(2)] g(2) add(1) show ?case by simp
qed simp

end

lemma take_length_take: "take (length (take n xs)) xs = take n xs"
  by (cases "n \<le> length xs") simp_all

lemma foldl_collect: "foldl (\<lambda>acc x. acc @ [x]) st xs = st @ xs"
  by (induction xs arbitrary: st) auto


subsection \<open>Properties\<close>

text \<open>
  \<^bold>\<open>C16\<close> Round trip through the file system. A writer resumes a log that holds the records
  \<open>past\<close> and adds \<open>recs\<close> until the first failure; the file is then cut anywhere (a crash) and
  read. The read loop returns, without a report, exactly the records that lie whole within what
  is left, in order; and if every call returned OK and nothing was cut, these are all records.
\<close>

theorem WAL_round_trip:
  assumes "posix_opened (pf, os)" "posix_contents (pf, os) = log_bytes 0 past"
    and "add_records posix_writable (Writer_resume (of_nat (length (log_bytes 0 past)))) (pf, os) recs =
           (s, w, written)"
    and "posix_readable rd" "posix_remaining rd = take m (posix_contents written)"
  shows "\<exists>n r. ForEachRecord posix_sequential (\<lambda>xs x. xs @ [x]) [] (Reader_new rd reporter log) =
      Some (take n (past @ recs), r) \<and> rd_state r = log \<and>
    n = whole_records 0 (length (posix_remaining rd)) (past @ recs) \<and>
    (ok s \<and> length (posix_contents written) \<le> m \<longrightarrow> n = length (past @ recs))"
proof -
  let ?xs = "past @ recs"
  have "add_records posix_writable (Writer_resume (of_nat (length (posix_contents (pf, os))))) (pf, os) recs =
      (s, w, written)"
    using assms(2,3) by simp
  from posix_wf.add_records_resume [OF this assms(1,2)] obtain k where
    k: "posix_contents written = take k (log_bytes 0 ?xs)"
      "ok s \<longrightarrow> posix_contents written = log_bytes 0 ?xs" by blast
  let ?n = "length (posix_remaining rd)"
  have "posix_remaining rd = take ?n (log_bytes 0 ?xs)"
    unfolding assms(5) k(1) take_take take_length_take ..
  from posix_sf.ForEachRecord_new [OF assms(4) this, of "\<lambda>xs x. xs @ [x]" "[]" reporter log]
  obtain r where "ForEachRecord posix_sequential (\<lambda>xs x. xs @ [x]) [] (Reader_new rd reporter log) =
      Some (take (whole_records 0 ?n ?xs) ?xs, r)" "rd_state r = log"
    by (auto simp: foldl_collect)
  moreover have "ok s \<and> length (posix_contents written) \<le> m \<longrightarrow> whole_records 0 ?n ?xs = length ?xs"
    using k(2) assms(5) whole_records_all [of 0 ?xs ?n] by auto
  ultimately show ?thesis by blast
qed

theorem WAL_round_trip_witness:
  "\<exists>s w written n r.
    add_records posix_writable (Writer_resume 0)
      (\<lparr>pf_path = ''f'', pf_fd = 3\<rparr>,
       fresh_os\<lparr>os_files := [''f'' \<mapsto> []], os_fds := [3 \<mapsto> \<lparr>fd_path = ''f'', fd_offset = 0, fd_append = True\<rparr>],
         os_script := [Fails EINTR, Proceed 2]\<rparr>) [[1, 2], [3]] = (s, w, written) \<and>
    ForEachRecord posix_sequential (\<lambda>xs x. xs @ [x]) []
      (Reader_new (\<lparr>pf_path = ''f'', pf_fd = 3\<rparr>,
         fresh_os\<lparr>os_files := [''f'' \<mapsto> take 12 (posix_contents written)],
           os_fds := [3 \<mapsto> \<lparr>fd_path = ''f'', fd_offset = 0, fd_append = False\<rparr>]\<rparr>)
        (Some (\<lambda>n _ _. Suc n)) 0) = Some (take n ([] @ [[1, 2], [3]]), r) \<and>
    rd_state r = 0"
proof -
  let ?pf = "\<lparr>pf_path = ''f'', pf_fd = 3\<rparr>"
  let ?os = "fresh_os\<lparr>os_files := [''f'' \<mapsto> []],
    os_fds := [3 \<mapsto> \<lparr>fd_path = ''f'', fd_offset = 0, fd_append = True\<rparr>],
    os_script := [Fails EINTR, Proceed 2]\<rparr>"
  obtain s w written where
    run: "add_records posix_writable (Writer_resume 0) (?pf, ?os) [[1, 2], [3]] = (s, w, written)"
    by (metis prod_cases3)
  let ?rd = "(?pf, fresh_os\<lparr>os_files := [''f'' \<mapsto> take 12 (posix_contents written)],
    os_fds := [3 \<mapsto> \<lparr>fd_path = ''f'', fd_offset = 0, fd_append = False\<rparr>]\<rparr>)"
  have "posix_opened (?pf, ?os)" "posix_contents (?pf, ?os) = log_bytes 0 []"
    "posix_readable ?rd" "posix_remaining ?rd = take 12 (posix_contents written)"
    by (simp_all add: posix_state_defs posix_readable_def posix_remaining_def harmless_def fresh_os_def
        file_contents_def)
  with WAL_round_trip [of ?pf ?os "[]" "[[1, 2], [3]]" s w written ?rd 12 "Some (\<lambda>n _ _. Suc n)" 0] run
  show ?thesis by auto
qed

text \<open>
  \<^bold>\<open>C22\<close> The read loop returns on every file, whatever bytes it holds and however the system
  shortens or interrupts its reads: garbage can make it drop and report, never hang.
\<close>

theorem WAL_reader_returns:
  assumes "posix_readable (rd_file r)"
  shows "\<exists>st' r'. ForEachRecord posix_sequential body st r = Some (st', r')"
  using posix_sf.ForEachRecord_returns [OF assms, of body st] by blast

theorem WAL_reader_returns_witness:
  "\<exists>st' r'. ForEachRecord posix_sequential (\<lambda>n _. Suc n) 0
    (Reader_new (\<lparr>pf_path = ''f'', pf_fd = 3\<rparr>,
       fresh_os\<lparr>os_files := [''f'' \<mapsto> replicate 100 255],
         os_fds := [3 \<mapsto> \<lparr>fd_path = ''f'', fd_offset = 0, fd_append = False\<rparr>],
         os_script := [Fails EINTR, Proceed 4]\<rparr>) (Some (\<lambda>n _ _. Suc n)) 0) = Some (st', r')"
  by (rule WAL_reader_returns) (simp add: posix_readable_def harmless_def Reader_new_def)

text \<open>
  \<^bold>\<open>C18\<close> A stored record of which up to four consecutive payload bytes were changed is never
  handed out: the reader reports a checksum mismatch with the bytes of the block it drops, and
  goes on with the next block.
\<close>

theorem WAL_corruption_detected:
  assumes "rd_buffer r = take kHeaderSize (phys_record t (a @ b @ c)) @ a @ b' @ c @ rest"
    and "length (a @ b @ c) < 65536" "0 < t" "t \<le> kMaxRecordType"
    and "length b' = length b" "length b \<le> 4" "b' \<noteq> b"
  shows "ReadPhysicalRecord V r =
    (kBadRecord, [], ReportDrop (r\<lparr>rd_buffer := []\<rparr>) (length (rd_buffer r)) (Corruption ''checksum mismatch''))"
proof -
  let ?h = "record_header (Value (of_nat t # a @ b @ c)) t (length (a @ b @ c))"
  have t: "t < 256" using assms(4) by (simp add: record_type_defs)
  have buf: "rd_buffer r = ?h @ (a @ b' @ c @ rest)"
    using assms(1) by (simp add: phys_record_def)
  note f = record_header_fields [OF assms(2) t, of "Value (of_nat t # a @ b @ c)" "a @ b' @ c @ rest"]
  have "Value ((of_nat t # a) @ b' @ c) \<noteq> Value ((of_nat t # a) @ b @ c)"
    unfolding Value_def by (rule Extend_burst) (use assms in auto)
  then have "ParseRecord r = (kBadRecord, [],
      ReportDrop (r\<lparr>rd_buffer := []\<rparr>) (length (rd_buffer r)) (Corruption ''checksum mismatch''))"
    using f assms(3,5) by (simp add: ParseRecord_def buf Let_def kZeroType_def)
  then show ?thesis by (simp add: ReadPhysicalRecord.simps [of V r] buf)
qed

theorem WAL_corruption_detected_witness:
  "ReadPhysicalRecord posix_sequential
     ((Reader_new (\<lparr>pf_path = ''f'', pf_fd = 3\<rparr>, fresh_os) (Some (\<lambda>n _ _. Suc n)) 0)
       \<lparr>rd_buffer := take kHeaderSize (phys_record kFullType ([1] @ [2, 3] @ [4])) @ [1] @ [9, 9] @ [4] @ []\<rparr>) =
   (kBadRecord, [], Reader_new (\<lparr>pf_path = ''f'', pf_fd = 3\<rparr>, fresh_os) (Some (\<lambda>n _ _. Suc n)) 1)"
  by (subst WAL_corruption_detected [where t = kFullType and a = "[1]" and b = "[2, 3]" and c = "[4]"
        and b' = "[9, 9]" and rest = "[]"])
     (simp_all add: Reader_new_def ReportDrop_def record_type_defs)

end
