(* ===== verification/Kv.thy ===== *)
theory Kv
  imports Prelude
begin

section \<open>The key-value state machine both databases implement\<close>

text \<open>
  The abstract specification of \<^verbatim>\<open>DB\<close> and \<^verbatim>\<open>ReplicatedDB\<close>: a finite map from keys to
  values, changed by puts and deletes. Recovery replays a sequence of such operations;
  \<open>kv_codec\<close> is the contract of the record formats that carry them through a log: decoding
  and applying an encoded operation performs the operation.
\<close>

type_synonym kv = "bytes \<rightharpoonup> bytes"

datatype kv_op = KvPut bytes bytes | KvDelete bytes

fun kv_apply :: "kv \<Rightarrow> kv_op \<Rightarrow> kv" where
  "kv_apply t (KvPut k v) = t(k \<mapsto> v)"
| "kv_apply t (KvDelete k) = t(k := None)"

definition kv_replay :: "kv_op list \<Rightarrow> kv" where
  "kv_replay ops = foldl kv_apply Map.empty ops"

text \<open>Key and value lengths that fit the 32-bit length fields of the record formats.\<close>

fun kv_fits :: "kv_op \<Rightarrow> bool" where
  "kv_fits (KvPut k v) \<longleftrightarrow> length k < 2 ^ 32 \<and> length v < 2 ^ 32"
| "kv_fits (KvDelete k) \<longleftrightarrow> length k < 2 ^ 32"

text \<open>What an operation sequence leaves of a key, if it touches the key at all.\<close>

fun kv_effect :: "kv_op \<Rightarrow> bytes \<Rightarrow> bytes option option" where
  "kv_effect (KvPut k v) x = (if x = k then Some (Some v) else None)"
| "kv_effect (KvDelete k) x = (if x = k then Some None else None)"

fun last_effect :: "kv_op list \<Rightarrow> bytes \<Rightarrow> bytes option option" where
  "last_effect [] x = None"
| "last_effect (op # ops) x =
     (case last_effect ops x of None \<Rightarrow> kv_effect op x | Some e \<Rightarrow> Some e)"

lemma kv_apply_effect: "kv_apply t op x = (case kv_effect op x of None \<Rightarrow> t x | Some e \<Rightarrow> e)"
  by (cases op) auto

lemma foldl_kv_apply_effect:
  "foldl kv_apply t ops x = (case last_effect ops x of None \<Rightarrow> t x | Some e \<Rightarrow> e)"
  by (induction ops arbitrary: t) (auto simp: kv_apply_effect split: option.splits)

lemma last_effect_append:
  "last_effect (xs @ ys) x = (case last_effect ys x of None \<Rightarrow> last_effect xs x | Some e \<Rightarrow> Some e)"
  by (induction xs) (auto split: option.splits)

text \<open>
  Replaying a log again from an earlier point, over the table it has produced already, changes
  nothing: the last operation on a key decides.
\<close>

lemma kv_replay_from:
  assumes "n \<le> length xs"
  shows "foldl kv_apply (kv_replay xs) (drop n (xs @ ys)) = kv_replay (xs @ ys)"
proof (rule ext)
  fix x
  have xs: "last_effect xs x = (case last_effect (drop n xs) x of None \<Rightarrow> last_effect (take n xs) x | Some e \<Rightarrow> Some e)"
    using last_effect_append [of "take n xs" "drop n xs"] by simp
  show "foldl kv_apply (kv_replay xs) (drop n (xs @ ys)) x = kv_replay (xs @ ys) x"
    using assms xs by (simp add: kv_replay_def foldl_kv_apply_effect last_effect_append split: option.splits)
qed

lemma kv_replay_snoc: "kv_replay (ops @ [op]) = kv_apply (kv_replay ops) op"
  by (simp add: kv_replay_def)

locale kv_codec =
  fixes encode :: "kv_op \<Rightarrow> bytes"
    and step :: "kv \<Rightarrow> bytes \<Rightarrow> kv"
  assumes step_encode: "kv_fits op \<Longrightarrow> step t (encode op) = kv_apply t op"
begin

lemma replay_encoded:
  "list_all kv_fits ops \<Longrightarrow> foldl step t (map encode ops) = foldl kv_apply t ops"
  by (induction ops arbitrary: t) (auto simp: step_encode)

lemma replay_prefix:
  assumes "list_all kv_fits ops"
  shows "foldl step Map.empty (take n (map encode ops)) = kv_replay (take n ops)"
proof -
  have "list_all kv_fits (take n ops)"
    using assms by (auto simp: list_all_iff dest: in_set_takeD)
  then show ?thesis by (simp add: take_map replay_encoded kv_replay_def)
qed

end

end
