(* ===== verification/Db.thy ===== *)
theory Db
  imports Wal_Log Kv
begin

section \<open>The database (db.h, db.cc)\<close>

text \<open>
  A table in memory and a write-ahead log. A write is encoded, appended to the log and synced
  before the table changes; opening replays the log. \<open>DBImpl\<close> is the object after a successful
  \<^verbatim>\<open>Recover\<close>, when both pointers are set; the operating system is threaded through every
  operation.
\<close>

definition kTypeDelete :: byte where "kTypeDelete = 0"
definition kTypePut :: byte where "kTypePut = 1"

definition kWalName :: string where
  "kWalName = ''wal.log''"

definition DbFile :: "string \<Rightarrow> string \<Rightarrow> string" where
  "DbFile dbpath name = dbpath @ ''/'' @ name"

definition EncodeRecord :: "byte \<Rightarrow> bytes \<Rightarrow> bytes \<Rightarrow> bytes" where
  "EncodeRecord type key value =
     [type] @ EncodeFixed32 (of_nat (length key)) @ key @
     (if type = kTypePut then EncodeFixed32 (of_nat (length value)) @ value else [])"

text \<open>\<open>None\<close> is the result \<^verbatim>\<open>false\<close>.\<close>

definition DecodeRecord :: "bytes \<Rightarrow> (byte \<times> bytes \<times> bytes) option" where
  "DecodeRecord record =
     (if length record < 1 + 4 then None
      else
        let type = record ! 0;
            p = drop 1 record;
            klen = unat (DecodeFixed32 p);
            p = drop 4 p
        in
        if length p < klen then None
        else
          let key = take klen p;
              p = drop klen p
          in
          if type = kTypePut then
            if length p < 4 then None
            else
              let vlen = unat (DecodeFixed32 p);
                  p = drop 4 p
              in if length p < vlen then None else Some (type, key, take vlen p)
          else Some (type, key, []))"

text \<open>\<^verbatim>\<open>RecoveryReporter\<close> counts.\<close>

definition RecoveryReporter :: "int \<Rightarrow> nat \<Rightarrow> Status \<Rightarrow> int" where
  "RecoveryReporter corruptions bytes status = corruptions + 1"

record DBImpl =
  dbpath :: string
  table :: kv
  wal_file :: PosixFile
  wal_writer :: Writer

definition Apply :: "kv \<Rightarrow> byte \<Rightarrow> bytes \<Rightarrow> bytes \<Rightarrow> kv" where
  "Apply t type key value = (if type = kTypePut then t(key \<mapsto> value) else t(key := None))"

text \<open>The body of the loop of \<^verbatim>\<open>ReplayWal\<close>: a record that does not decode is skipped.\<close>

definition ReplayBody :: "kv \<Rightarrow> bytes \<Rightarrow> kv" where
  "ReplayBody t record =
     (case DecodeRecord record of
        None \<Rightarrow> t
      | Some (type, key, value) \<Rightarrow> Apply t type key value)"

text \<open>The outer option is the termination of the read loop.\<close>

definition ReplayWal :: "string \<Rightarrow> kv \<Rightarrow> os_state \<Rightarrow> (Status \<times> kv \<times> os_state) option" where
  "ReplayWal wal_path t os =
     (case NewSequentialFile wal_path os of
        (s, None, os) \<Rightarrow> Some (s, t, os)
      | (s, Some file, os) \<Rightarrow>
          (case ForEachRecord posix_sequential ReplayBody t
                  (Reader_new (file, os) (Some RecoveryReporter) 0) of
             None \<Rightarrow> None
           | Some (t, reader) \<Rightarrow> Some (OK, t, PosixFile_destroy file (snd (rd_file reader)))))"

definition Recover :: "string \<Rightarrow> os_state \<Rightarrow> (Status \<times> DBImpl option \<times> os_state) option" where
  "Recover path os =
     (let wal_path = DbFile path kWalName;
          (exists, os) = FileExists wal_path os
      in
      case (if exists then ReplayWal wal_path Map.empty os else Some (OK, Map.empty, os)) of
        None \<Rightarrow> None
      | Some (s, t, os) \<Rightarrow>
          if \<not> ok s then Some (s, None, os)
          else
            let (exists, os) = FileExists wal_path os;
                (gs, wal_size, os) = (if exists then GetFileSize wal_path os else (OK, 0, os))
            in
            if \<not> ok gs then Some (gs, None, os)
            else
              case NewAppendableFile wal_path os of
                (s, None, os) \<Rightarrow> Some (s, None, os)
              | (s, Some file, os) \<Rightarrow>
                  Some (OK, Some \<lparr>dbpath = path, table = t, wal_file = file,
                                  wal_writer = Writer_resume wal_size\<rparr>, os))"

definition Write :: "DBImpl \<Rightarrow> byte \<Rightarrow> bytes \<Rightarrow> bytes \<Rightarrow> os_state \<Rightarrow> Status \<times> DBImpl \<times> os_state" where
  "Write db type key value os =
     (let record = EncodeRecord type key value;
          (s, w, (f, os)) = AddRecord posix_writable (wal_writer db) (wal_file db, os) record;
          db = db\<lparr>wal_writer := w, wal_file := f\<rparr>
      in
      if \<not> ok s then (s, db, os)
      else
        let (s, (f, os)) = wf_Sync posix_writable (wal_file db, os);
            db = db\<lparr>wal_file := f\<rparr>
        in
        if \<not> ok s then (s, db, os)
        else (OK, db\<lparr>table := Apply (table db) type key value\<rparr>, os))"

definition Put :: "DBImpl \<Rightarrow> bytes \<Rightarrow> bytes \<Rightarrow> os_state \<Rightarrow> Status \<times> DBImpl \<times> os_state" where
  "Put db key value os = Write db kTypePut key value os"

definition Delete :: "DBImpl \<Rightarrow> bytes \<Rightarrow> os_state \<Rightarrow> Status \<times> DBImpl \<times> os_state" where
  "Delete db key os = Write db kTypeDelete key [] os"

definition Get :: "DBImpl \<Rightarrow> bytes \<Rightarrow> Status \<times> bytes option" where
  "Get db key =
     (case table db key of
        None \<Rightarrow> (NotFound (text_of key), None)
      | Some value \<Rightarrow> (OK, Some value))"

definition DBImpl_destroy :: "DBImpl \<Rightarrow> os_state \<Rightarrow> os_state" where
  "DBImpl_destroy db os =
     (let (_, (f, os)) = wf_Close posix_writable (wal_file db, os) in PosixFile_destroy f os)"

record Options =
  create_if_missing :: bool

definition new_Options :: Options where
  "new_Options = \<lparr>create_if_missing = True\<rparr>"

definition DB_Open :: "Options \<Rightarrow> string \<Rightarrow> os_state \<Rightarrow> (Status \<times> DBImpl option \<times> os_state) option" where
  "DB_Open options path os =
     (if create_if_missing options then
        let (s, os) = MakeDir path os in
        if \<not> ok s then Some (s, None, os) else Recover path os
      else
        let (exists, os) = FileExists path os in
        if \<not> exists then Some (InvalidArgument (path @ '' does not exist''), None, os)
        else Recover path os)"


subsection \<open>Specification\<close>

text \<open>
  The state the database promises: the log on disk holds exactly the writes so far, all of it is
  durable, the writer stands at its end, and the table is what replaying the log gives.
\<close>

fun db_encode :: "kv_op \<Rightarrow> bytes" where
  "db_encode (KvPut k v) = EncodeRecord kTypePut k v"
| "db_encode (KvDelete k) = EncodeRecord kTypeDelete k []"

definition db_log :: "kv_op list \<Rightarrow> bytes" where
  "db_log ops = log_bytes 0 (map db_encode ops)"

definition db_inv :: "kv_op list \<Rightarrow> DBImpl \<Rightarrow> os_state \<Rightarrow> bool" where
  "db_inv ops db os \<longleftrightarrow>
     list_all kv_fits ops \<and>
     pf_path (wal_file db) = DbFile (dbpath db) kWalName \<and>
     posix_opened (wal_file db, os) \<and>
     posix_contents (wal_file db, os) = db_log ops \<and>
     posix_durable (wal_file db, os) = db_log ops \<and>
     writer_ok (wal_writer db) \<and>
     block_offset (wal_writer db) mod kBlockSize = length (db_log ops) mod kBlockSize \<and>
     table db = kv_replay ops"

text \<open>The two write operations as one, by the operation they perform.\<close>

fun db_write :: "DBImpl \<Rightarrow> kv_op \<Rightarrow> os_state \<Rightarrow> Status \<times> DBImpl \<times> os_state" where
  "db_write db (KvPut k v) os = Put db k v os"
| "db_write db (KvDelete k) os = Delete db k os"

text \<open>A client that writes until the first failure; the number counts the writes that returned OK.\<close>

fun db_run :: "DBImpl \<Rightarrow> kv_op list \<Rightarrow> os_state \<Rightarrow> nat \<times> Status \<times> DBImpl \<times> os_state" where
  "db_run db [] os = (0, OK, db, os)"
| "db_run db (op # ops) os =
     (case db_write db op os of (s, db', os') \<Rightarrow>
        if ok s then (case db_run db' ops os' of (n, rest) \<Rightarrow> (Suc n, rest))
        else (0, s, db', os'))"

text \<open>\<open>wal_replays c t\<close>: replaying a log with contents \<open>c\<close> into the empty table gives \<open>t\<close>.\<close>

definition wal_replays :: "bytes \<Rightarrow> kv \<Rightarrow> bool" where
  "wal_replays c t \<longleftrightarrow>
     (\<forall>f. posix_readable f \<and> posix_remaining f = c \<longrightarrow>
        (\<exists>r'. ForEachRecord posix_sequential ReplayBody Map.empty
               (Reader_new f (Some RecoveryReporter) 0) = Some (t, r')))"


subsection \<open>The record format\<close>

lemma DecodeRecord_EncodeRecord:
  assumes "length key < 2 ^ 32" "length value < 2 ^ 32"
  shows "DecodeRecord (EncodeRecord type key value) =
    Some (type, key, if type = kTypePut then value else [])"
  using assms unfolding DecodeRecord_def EncodeRecord_def
  by (simp add: Let_def unat_of_nat_u32)

interpretation db_codec: kv_codec db_encode ReplayBody
proof (unfold_locales, goal_cases)
  case (1 op t)
  then show ?case
    by (cases op)
       (auto simp: ReplayBody_def DecodeRecord_EncodeRecord Apply_def kTypePut_def kTypeDelete_def)
qed

lemma wal_replays_log:
  assumes "list_all kv_fits ops"
  shows "wal_replays (take m (db_log ops)) (kv_replay (take (whole_records 0 m (map db_encode ops)) ops))"
  unfolding wal_replays_def db_log_def
  using posix_sf.ForEachRecord_new [of _ m "map db_encode ops" ReplayBody Map.empty
      "Some RecoveryReporter" 0]
  by (auto simp: db_codec.replay_prefix [OF assms])

lemma ReplayWal_calm:
  assumes "calm os" "os_files os p = Some c" "wal_replays c t"
  shows "\<exists>os'. ReplayWal p Map.empty os = Some (OK, t, os') \<and> disk_kept os os'"
proof -
  obtain f os1 where f: "NewSequentialFile p os = (OK, Some f, os1)" "disk_kept os os1"
    "posix_readable (f, os1)" "posix_remaining (f, os1) = c"
    using NewSequentialFile_calm [OF assms(1,2)] by auto
  have reading: "posix_reading os (f, os1)" using f by (simp add: posix_reading_def)
  let ?R = "Reader_new (f, os1) (Some RecoveryReporter) 0"
  obtain r' where r': "ForEachRecord posix_sequential ReplayBody Map.empty ?R = Some (t, r')"
    using assms(3) f(3,4) unfolding wal_replays_def by blast
  have "posix_reading os (rd_file ?R)" using reading by (simp add: Reader_new_def)
  from posix_sf_kept.ForEachRecord_returns [OF this, of ReplayBody Map.empty] r'
  have "posix_reading os (rd_file r')" by auto
  then have "disk_kept os (PosixFile_destroy f (snd (rd_file r')))"
    by (auto simp: posix_reading_def intro: disk_kept_trans [OF _ PosixFile_destroy_kept])
  with r' f(1) show ?thesis by (simp add: ReplayWal_def)
qed

text \<open>
  Opening, with no call failing: the log is replayed into the table and opened for appending
  behind its present contents, whatever they are.
\<close>

lemma Recover_calm:
  fixes path
  defines "p \<equiv> DbFile path kWalName"
  assumes calm: "calm os" and dirs: "p \<notin> os_dirs os"
    and wal: "os_files os p = Some c \<and> wal_replays c t \<or> os_files os p = None \<and> c = [] \<and> t = Map.empty"
  shows "\<exists>db os'. Recover path os = Some (OK, Some db, os') \<and> calm os' \<and>
    dbpath db = path \<and> pf_path (wal_file db) = p \<and> posix_opened (wal_file db, os') \<and>
    posix_contents (wal_file db, os') = c \<and>
    posix_durable (wal_file db, os') = (if os_files os p = None then [] else stable_contents os p) \<and>
    wal_writer db = Writer_resume (of_nat (length c)) \<and> table db = t \<and> os_dirs os' = os_dirs os"
proof -
  let ?ex = "os_files os p \<noteq> None"
  obtain os1 where os1: "FileExists p os = (?ex, os1)" "disk_kept os os1"
    using FileExists_calm [OF calm, of p] dirs by auto
  note c1 = disk_kept_calm [OF os1(2) calm]
  have f1: "os_files os1 p = os_files os p" using os1(2) by (simp add: disk_kept_def)
  obtain os2 where os2: "(if ?ex then ReplayWal p Map.empty os1 else Some (OK, Map.empty, os1)) =
      Some (OK, t, os2)" "disk_kept os1 os2"
    using ReplayWal_calm [OF c1, of p c t] f1 wal by auto
  note k2 = disk_kept_trans [OF os1(2) os2(2)]
  note c2 = disk_kept_calm [OF k2 calm]
  obtain os3 where os3: "FileExists p os2 = (?ex, os3)" "disk_kept os2 os3"
    using FileExists_calm [OF c2, of p] dirs k2 by (auto simp: disk_kept_def)
  note k3 = disk_kept_trans [OF k2 os3(2)]
  note c3 = disk_kept_calm [OF k3 calm]
  have f3: "os_files os3 p = os_files os p" using k3 by (simp add: disk_kept_def)
  let ?n = "of_nat (length c) :: u64"
  obtain os4 where os4: "(if ?ex then GetFileSize p os3 else (OK, 0, os3)) = (OK, ?n, os4)"
    "disk_kept os3 os4"
    using GetFileSize_calm [OF c3, of p] f3 wal by auto
  note k4 = disk_kept_trans [OF k3 os4(2)]
  note c4 = disk_kept_calm [OF k4 calm]
  have f4: "os_files os4 p = os_files os p" using k4 by (simp add: disk_kept_def)
  obtain f os5 where os5: "NewAppendableFile p os4 = (OK, Some f, os5)" "calm os5" "pf_path f = p"
    "posix_opened (f, os5)" "posix_contents (f, os5) = file_contents os4 p"
    "posix_durable (f, os5) = (if os_files os4 p = None then [] else stable_contents os4 p)"
    "os_dirs os5 = os_dirs os4"
    using NewAppendableFile_calm [OF c4, of p] by auto
  have "Recover path os =
      Some (OK, Some \<lparr>dbpath = path, table = t, wal_file = f, wal_writer = Writer_resume ?n\<rparr>, os5)"
    using os1(1) os2(1) os3(1) os4(1) os5(1)
    by (simp add: Recover_def p_def [symmetric])
  moreover have "posix_contents (f, os5) = c"
    using f4 os5(5) wal by (auto simp: file_contents_def)
  moreover have "os_dirs os5 = os_dirs os" using os5(7) k4 by (simp add: disk_kept_def)
  ultimately show ?thesis
    using os5 f4 by (simp add: disk_kept_contents [OF k4])
qed

lemma Recover_log:
  assumes "calm os" "DbFile path kWalName \<notin> os_dirs os" "list_all kv_fits ops"
    "os_files os (DbFile path kWalName) = Some (take m (db_log ops))"
  shows "\<exists>db os'. Recover path os = Some (OK, Some db, os') \<and>
    table db = kv_replay (take (whole_records 0 m (map db_encode ops)) ops)"
  using Recover_calm [OF assms(1,2)] assms(4) wal_replays_log [OF assms(3), of m] by blast

text \<open>Opening a log that ends with a whole record establishes the invariant.\<close>

lemma Recover_clean:
  assumes "calm os" "list_all kv_fits ops" "DbFile path kWalName \<notin> os_dirs os"
    and wal: "os_files os (DbFile path kWalName) = Some (db_log ops) \<or>
      os_files os (DbFile path kWalName) = None \<and> ops = []"
    and stable: "stable_contents os (DbFile path kWalName) = db_log ops"
  shows "\<exists>db os'. Recover path os = Some (OK, Some db, os') \<and> calm os' \<and> dbpath db = path \<and>
    db_inv ops db os' \<and> os_dirs os' = os_dirs os"
proof -
  let ?m = "length (db_log ops)"
  have "wal_replays (db_log ops) (kv_replay ops)"
    using wal_replays_log [OF assms(2), of ?m] whole_records_all [of 0 "map db_encode ops" ?m]
    by (simp add: db_log_def)
  moreover have "block_offset (Writer_resume (of_nat ?m)) = ?m mod kBlockSize"
    by simp
  moreover have "db_log [] = []" "kv_replay [] = Map.empty"
    by (simp_all add: db_log_def kv_replay_def)
  ultimately show ?thesis
    using Recover_calm [OF assms(1,3), of "db_log ops" "kv_replay ops"] wal stable assms(2)
    by (auto simp: db_inv_def)
qed

lemma db_log_snoc:
  assumes "block_offset w \<le> kBlockSize" "block_offset w mod kBlockSize = length (db_log ops) mod kBlockSize"
  shows "db_log (ops @ [op]) = db_log ops @ layout True (block_offset w) (db_encode op)"
    and "next_offset (block_offset w) (length (db_encode op)) mod kBlockSize =
         length (db_log (ops @ [op])) mod kBlockSize"
proof -
  let ?o = "log_offset 0 (map db_encode ops)"
  have "?o \<le> kBlockSize" by (rule log_offset_le) simp
  moreover have "?o mod kBlockSize = block_offset w mod kBlockSize"
    using log_offset_mod [of 0 "map db_encode ops"] assms(2) by (simp add: db_log_def)
  ultimately have "layout True ?o x = layout True (block_offset w) x" for x
    using layout_mod [of ?o] layout_mod [OF assms(1)] by metis
  then show log: "db_log (ops @ [op]) = db_log ops @ layout True (block_offset w) (db_encode op)"
    by (simp add: db_log_def log_bytes_append)
  show "next_offset (block_offset w) (length (db_encode op)) mod kBlockSize =
         length (db_log (ops @ [op])) mod kBlockSize"
    using next_offset_layout [OF assms(1), of "db_encode op" True]
      mod_add_left_eq [of "block_offset w" kBlockSize] mod_add_left_eq [of "length (db_log ops)" kBlockSize]
      assms(2)
    by (simp only: log length_append)
qed

lemma db_write_unfold:
  "db_write db op os =
     (let (s, w, (f, os)) = AddRecord posix_writable (wal_writer db) (wal_file db, os) (db_encode op);
          db = db\<lparr>wal_writer := w, wal_file := f\<rparr>
      in
      if \<not> ok s then (s, db, os)
      else
        let (s, (f, os)) = wf_Sync posix_writable (wal_file db, os);
            db = db\<lparr>wal_file := f\<rparr>
        in
        if \<not> ok s then (s, db, os)
        else (OK, db\<lparr>table := kv_apply (table db) op\<rparr>, os))"
  by (cases op)
     (auto simp: Put_def Delete_def Write_def Apply_def kTypePut_def kTypeDelete_def Let_def
      split: prod.splits)



subsection \<open>Writing\<close>

text \<open>
  A write, whatever the machine does: where it succeeds the invariant holds of the longer log;
  where it fails the table is as before, and the log has grown by a prefix of the record's bytes
  of which nothing need have reached stable storage.
\<close>

lemma db_append_spec:
  assumes inv: "db_inv ops db os"
    and add: "AddRecord posix_writable (wal_writer db) (wal_file db, os) (db_encode op) = (s, w', fs)"
  shows "posix_open_at (wal_file db) os fs" "posix_durable fs = db_log ops"
    "\<exists>k. posix_contents fs = take k (db_log (ops @ [op])) \<and> length (db_log ops) \<le> k"
    "ok s \<Longrightarrow> posix_contents fs = db_log (ops @ [op]) \<and> writer_ok w' \<and>
      block_offset w' mod kBlockSize = length (db_log (ops @ [op])) mod kBlockSize"
    "calm os \<Longrightarrow> ok s"
proof -
  let ?lay = "layout True (block_offset (wal_writer db)) (db_encode op)"
  have op0: "posix_open_at (wal_file db) os (wal_file db, os)" and wok: "writer_ok (wal_writer db)"
    and con: "posix_contents (wal_file db, os) = db_log ops"
    and dur: "posix_durable (wal_file db, os) = db_log ops"
    using inv by (auto simp: db_inv_def intro: posix_open_at_refl)
  have "block_offset (wal_writer db) \<le> kBlockSize" using wok by (simp add: writer_ok_def)
  note snoc = db_log_snoc [OF this, of ops op]
  have log: "db_log (ops @ [op]) = db_log ops @ ?lay" using snoc(1) inv by (simp add: db_inv_def)
  note g = posix_wf_at.AddRecord_grown [OF add op0 wok]
  show "posix_open_at (wal_file db) os fs" using g(1) by (rule grown_opened)
  show "posix_durable fs = db_log ops" using g(1) dur by (simp add: grown_def)
  from g(1) con obtain k where "posix_contents fs = db_log ops @ take k ?lay"
    by (auto simp: grown_def)
  then have "posix_contents fs = take (length (db_log ops) + k) (db_log (ops @ [op]))"
    by (simp add: log)
  then show "\<exists>k. posix_contents fs = take k (db_log (ops @ [op])) \<and> length (db_log ops) \<le> k"
    using le_add1 by blast
  show "ok s \<Longrightarrow> posix_contents fs = db_log (ops @ [op]) \<and> writer_ok w' \<and>
      block_offset w' mod kBlockSize = length (db_log (ops @ [op])) mod kBlockSize"
    using g snoc(2) inv con log by (simp add: grown_def db_inv_def)
  show "calm os \<Longrightarrow> ok s"
    using posix_wf_at.AddRecord_ok [OF op0 _ wok, of "db_encode op"] add
    by (auto simp: posix_healthy_def calm_harmless)
qed

lemma db_write_spec:
  assumes inv: "db_inv ops db os" and op: "kv_fits op" and w: "db_write db op os = (s, db', os')"
  shows "dbpath db' = dbpath db" "os_dirs os' = os_dirs os" "calm os \<Longrightarrow> ok s \<and> calm os'"
    "ok s \<Longrightarrow> db_inv (ops @ [op]) db' os'"
    "\<not> ok s \<Longrightarrow> table db' = table db \<and> wal_file db' = wal_file db \<and>
      posix_opened (wal_file db, os') \<and> posix_durable (wal_file db, os') = db_log ops \<and>
      (\<exists>k. posix_contents (wal_file db, os') = take k (db_log (ops @ [op])) \<and> length (db_log ops) \<le> k)"
proof -
  obtain s1 w1 f1 os1 where add:
    "AddRecord posix_writable (wal_writer db) (wal_file db, os) (db_encode op) = (s1, w1, (f1, os1))"
    by (metis prod_cases4)
  note a = db_append_spec [OF inv add]
  have f1: "f1 = wal_file db" using a(1) by (simp add: posix_open_at_def)
  obtain s2 f2 os2 where sy: "wf_Sync posix_writable (wal_file db, os1) = (s2, (f2, os2))"
    by (metis prod_cases3)
  note at2 = PosixSync_at [OF a(1) [unfolded f1] sy]
  have f2: "f2 = wal_file db" using at2 by (simp add: posix_open_at_def)
  note law = posix_wf_at.Sync_law [OF a(1) [unfolded f1] sy, unfolded f2]
  have res: "(s, db', os') =
    (if \<not> ok s1 then (s1, db\<lparr>wal_writer := w1\<rparr>, os1)
     else if \<not> ok s2 then (s2, db\<lparr>wal_writer := w1\<rparr>, os2)
     else (OK, db\<lparr>wal_writer := w1, table := kv_apply (table db) op\<rparr>, os2))"
    using w add sy by (auto simp: db_write_unfold f1 f2 Let_def)
  show "dbpath db' = dbpath db" "os_dirs os' = os_dirs os"
    using res a(1) at2 by (auto simp: posix_open_at_def split: if_splits)
  show "calm os \<Longrightarrow> ok s \<and> calm os'"
    using res a at2 sy PosixSync_calm [of "(wal_file db, os1)"]
    by (auto simp: posix_open_at_def f1 split: if_splits)
  show "ok s \<Longrightarrow> db_inv (ops @ [op]) db' os'"
    using res a(4) law at2 inv op
    by (auto simp: db_inv_def posix_open_at_def f1 f2 kv_replay_snoc split: if_splits)
  show "\<not> ok s \<Longrightarrow> table db' = table db \<and> wal_file db' = wal_file db \<and>
      posix_opened (wal_file db, os') \<and> posix_durable (wal_file db, os') = db_log ops \<and>
      (\<exists>k. posix_contents (wal_file db, os') = take k (db_log (ops @ [op])) \<and> length (db_log ops) \<le> k)"
    using res a(1-3) law by (auto simp: f1 posix_open_at_def split: if_splits)
qed

text \<open>
  Power failure during or after a write: reopening finds every write that had returned OK, and
  of the one in flight all or nothing.
\<close>

lemma db_write_crash_recover:
  assumes inv: "db_inv ops db os" and op: "kv_fits op" and w: "db_write db op os = (s, db', os1)"
    and cr: "file_crash (DbFile (dbpath db) kWalName) os1 os2" "calm os2"
    and dirs: "DbFile (dbpath db) kWalName \<notin> os_dirs os2"
  shows "\<exists>db2 os3. Recover (dbpath db) os2 = Some (OK, Some db2, os3) \<and>
    (table db2 = kv_replay (ops @ [op]) \<or> \<not> ok s \<and> table db2 = kv_replay ops)"
proof -
  let ?p = "DbFile (dbpath db) kWalName" and ?L = "db_log (ops @ [op])"
  note spec = db_write_spec [OF inv op w]
  have path: "pf_path (wal_file db) = ?p" using inv by (simp add: db_inv_def)
  have fits: "list_all kv_fits (ops @ [op])" using inv op by (simp add: db_inv_def)
  have pre: "length (db_log ops) \<le> length ?L"
    by (simp add: db_log_def log_bytes_append)
  obtain k where k: "file_contents os1 ?p = take k ?L" "length (stable_contents os1 ?p) \<le> k"
    "os_files os1 ?p \<noteq> None" "length (db_log ops) \<le> length (stable_contents os1 ?p)"
    "ok s \<Longrightarrow> length ?L \<le> length (stable_contents os1 ?p)"
  proof (cases "ok s")
    case True
    with spec(1,4) pre show thesis
      by (intro that [of "length ?L"]) (auto simp: db_inv_def posix_state_defs)
  next
    case False
    with spec(5) path show thesis by (auto simp: posix_state_defs intro: that)
  qed
  from file_crash_take [OF cr(1) k(1-3)] obtain m where
    m: "os_files os2 ?p = Some (take m ?L)" "length (stable_contents os1 ?p) \<le> m" by metis
  from Recover_log [OF cr(2) dirs fits m(1)] obtain db2 os3 where
    db2: "Recover (dbpath db) os2 = Some (OK, Some db2, os3)"
    "table db2 = kv_replay (take (whole_records 0 m (map db_encode (ops @ [op]))) (ops @ [op]))"
    by auto
  have le: "length (log_bytes 0 (map db_encode ops)) \<le> m"
    using m(2) k(4) by (simp add: db_log_def)
  let ?w = "whole_records 0 m (map db_encode (ops @ [op]))"
  have "?w = length ops \<or> ?w = length (ops @ [op])"
    using whole_records_append [OF le, of "[db_encode op]"] by (simp add: Let_def)
  moreover have "?w = length (ops @ [op])" if "ok s"
    using whole_records_all [of 0 "map db_encode (ops @ [op])" m] k(5) [OF that] m(2)
    by (simp add: db_log_def)
  ultimately show ?thesis using db2 by auto
qed

lemma db_run_dirs:
  "db_inv past db os \<Longrightarrow> list_all kv_fits ops \<Longrightarrow> db_run db ops os = (n, s, db', os') \<Longrightarrow>
   os_dirs os' = os_dirs os"
proof (induction ops arbitrary: past db os n)
  case Nil
  then show ?case by simp
next
  case (Cons op ops)
  obtain s1 db1 os1 where w: "db_write db op os = (s1, db1, os1)" by (metis prod_cases3)
  have op: "kv_fits op" using Cons.prems(2) by simp
  note spec = db_write_spec [OF Cons.prems(1) op w]
  show ?case
    using Cons.IH [OF spec(4)] Cons.prems(2,3) w spec(2) by (auto split: prod.splits if_splits)
qed

lemma db_run_crash_recover:
  assumes "db_inv done db os" "list_all kv_fits ops" "db_run db ops os = (n, s, db', os1)"
    "file_crash (DbFile (dbpath db) kWalName) os1 os2" "calm os2"
    "DbFile (dbpath db) kWalName \<notin> os_dirs os2"
  shows "n \<le> length ops \<and> (ok s \<longleftrightarrow> n = length ops) \<and>
    table db' = kv_replay (done @ take n ops) \<and>
    (\<exists>db2 os3 j. Recover (dbpath db) os2 = Some (OK, Some db2, os3) \<and>
      table db2 = kv_replay (done @ take j ops) \<and> (j = n \<or> \<not> ok s \<and> j = Suc n))"
  using assms
proof (induction ops arbitrary: "done" db os n)
  case Nil
  let ?p = "DbFile (dbpath db) kWalName"
  from Nil have st: "file_contents os1 ?p = take (length (db_log done)) (db_log done)"
    "stable_contents os1 ?p = db_log done" "os_files os1 ?p \<noteq> None"
    by (auto simp: db_inv_def posix_state_defs)
  from file_crash_take [OF Nil.prems(4) st(1) _ st(3)] st(2) obtain m where
    m: "os_files os2 ?p = Some (take m (db_log done))" "length (db_log done) \<le> m" by auto
  have "whole_records 0 m (map db_encode done) = length done"
    using whole_records_all [of 0 "map db_encode done" m] m(2) by (simp add: db_log_def)
  then show ?case
    using Recover_log [OF Nil.prems(5) _ _ m(1)] Nil.prems by (auto simp: db_inv_def)
next
  case (Cons op ops)
  obtain s1 db1 os1' where w: "db_write db op os = (s1, db1, os1')" by (metis prod_cases3)
  have op: "kv_fits op" using Cons.prems(2) by simp
  note spec = db_write_spec [OF Cons.prems(1) op w]
  show ?case
  proof (cases "ok s1")
    case True
    obtain n1 where n1: "db_run db1 ops os1' = (n1, s, db', os1)" "n = Suc n1"
      using Cons.prems(3) w True by (auto split: prod.splits)
    from Cons.IH [OF spec(4) [OF True] _ n1(1) _ Cons.prems(5)] Cons.prems(2,4,6) spec(1)
    obtain db2 os3 j where IH: "n1 \<le> length ops" "ok s \<longleftrightarrow> n1 = length ops"
      "table db' = kv_replay ((done @ [op]) @ take n1 ops)"
      "Recover (dbpath db1) os2 = Some (OK, Some db2, os3)"
      "table db2 = kv_replay ((done @ [op]) @ take j ops)" "j = n1 \<or> \<not> ok s \<and> j = Suc n1"
      by auto
    have "\<exists>db2 os3 j. Recover (dbpath db) os2 = Some (OK, Some db2, os3) \<and>
      table db2 = kv_replay (done @ take j (op # ops)) \<and> (j = n \<or> \<not> ok s \<and> j = Suc n)"
      using IH(4-6) n1(2) spec(1) by (intro exI [of _ db2] exI [of _ os3] exI [of _ "Suc j"]) auto
    with IH n1(2) show ?thesis by simp
  next
    case False
    with Cons.prems(3) w have eq: "n = 0" "s = s1" "db' = db1" "os1 = os1'" by auto
    obtain db2 os3 where db2: "Recover (dbpath db) os2 = Some (OK, Some db2, os3)"
      "table db2 = kv_replay (done @ [op]) \<or> table db2 = kv_replay done"
      using db_write_crash_recover [OF Cons.prems(1) op w _ Cons.prems(5,6)] Cons.prems(4) eq by blast
    then have "\<exists>j. table db2 = kv_replay (done @ take j (op # ops)) \<and> (j = 0 \<or> j = Suc 0)"
      by (metis append_Nil2 take0 take_Suc_Cons)
    with db2(1) eq False spec(5) [OF False] Cons.prems(1) show ?thesis
      by (auto simp: db_inv_def)
  qed
qed


subsection \<open>Appending behind a torn record\<close>

text \<open>
  The log is reopened for appending behind whatever a crash left. Suppose the crash left just
  the header of a record. The next record that is written lands where the payload should be; a
  reader that trusts the header's length takes it, and all that follows in the block, for the
  missing payload, and stops there.
\<close>

text \<open>A write onto a log with any contents, with no call failing.\<close>

lemma db_write_calm:
  assumes "posix_opened (wal_file db, os)" "writer_ok (wal_writer db)" "calm os"
  shows "\<exists>db' os'. db_write db op os = (OK, db', os') \<and> table db' = kv_apply (table db) op \<and>
    wal_file db' = wal_file db \<and> posix_opened (wal_file db, os') \<and> os_dirs os' = os_dirs os \<and>
    posix_contents (wal_file db, os') =
      posix_contents (wal_file db, os) @ layout True (block_offset (wal_writer db)) (db_encode op) \<and>
    posix_durable (wal_file db, os') = posix_contents (wal_file db, os')"
proof -
  let ?f = "wal_file db"
  note op0 = posix_open_at_refl [OF assms(1)]
  obtain w1 f1 os1 where
    add: "AddRecord posix_writable (wal_writer db) (?f, os) (db_encode op) = (OK, w1, (f1, os1))"
    using posix_wf_at.AddRecord_ok [OF op0 _ assms(2), of "db_encode op"] assms(3)
    by (auto simp: posix_healthy_def calm_harmless)
  note g = posix_wf_at.AddRecord_grown(1) [OF add op0 assms(2)]
  note at1 = grown_opened [OF g]
  have f1: "f1 = ?f" and o1: "posix_opened (?f, os1)" "calm os1" "os_dirs os1 = os_dirs os"
    using at1 assms(3) by (auto simp: posix_open_at_def)
  obtain f2 os2 where sy: "wf_Sync posix_writable (?f, os1) = (OK, (f2, os2))"
    using PosixSync_calm [OF o1(1)] o1(2) by auto
  note at2 = PosixSync_at [OF at1 [unfolded f1] sy]
  have f2: "f2 = ?f" using at2 by (simp add: posix_open_at_def)
  note law = posix_wf_at.Sync_law [OF at1 [unfolded f1] sy, unfolded f2]
  have "db_write db op os = (OK, db\<lparr>wal_writer := w1, table := kv_apply (table db) op\<rparr>, os2)"
    using add sy by (simp add: db_write_unfold f1 f2 Let_def)
  with g law at2 show ?thesis by (auto simp: grown_def f1 f2 posix_open_at_def)
qed

lemma torn_header_loses_write:
  fixes path
  defines "p \<equiv> DbFile path kWalName"
  assumes calm: "calm os" and dirs: "p \<notin> os_dirs os"
    and big: "kv_fits big" "length (db_encode big) < kBlockSize - kHeaderSize"
    and torn: "os_files os p = Some (take kHeaderSize (db_log [big]))"
    and op: "kv_fits op" "length (db_encode op) + kHeaderSize < length (db_encode big)"
  shows "\<exists>db os1 db' os2. Recover path os = Some (OK, Some db, os1) \<and>
    db_write db op os1 = (OK, db', os2) \<and> table db' = kv_replay [op] \<and>
    (\<forall>os3. crash os2 os3 \<and> calm os3 \<longrightarrow>
      (\<exists>db3 os4. Recover path os3 = Some (OK, Some db3, os4) \<and> table db3 = Map.empty))"
proof -
  let ?n = "length (db_encode big)"
  let ?h = "record_header (Value (of_nat kFullType # db_encode big)) kFullType ?n"
  have h: "take kHeaderSize (db_log [big]) = ?h"
    using layout_one_block [of 0 "db_encode big"] big(2) by (simp add: db_log_def phys_record_def)
  have t: "kFullType < 256" by (simp add: kFullType_def)
  have over: "wal_replays (?h @ q) Map.empty" if "length q < ?n" for q
    unfolding wal_replays_def
  proof (intro allI impI, elim conjE)
    fix f assume "posix_readable f" "posix_remaining f = ?h @ q"
    from ReadRecord_overrun [OF this that big(2) t, of ReplayBody Map.empty "Some RecoveryReporter" 0]
    show "\<exists>r'. ForEachRecord posix_sequential ReplayBody Map.empty
        (Reader_new f (Some RecoveryReporter) 0) = Some (Map.empty, r')" by blast
  qed
  have "0 < ?n" using op(2) by linarith
  then have "wal_replays ?h Map.empty" using over [of "[]"] by simp
  then have "os_files os (DbFile path kWalName) = Some ?h \<and> wal_replays ?h Map.empty"
    using torn h by (simp add: p_def)
  from Recover_calm [OF calm dirs [unfolded p_def] disjI1 [OF this]]
  obtain db os1 where db: "Recover path os = Some (OK, Some db, os1)" "calm os1"
    "pf_path (wal_file db) = p" "posix_opened (wal_file db, os1)"
    "posix_contents (wal_file db, os1) = ?h" "wal_writer db = Writer_resume (of_nat kHeaderSize)"
    "table db = Map.empty" "os_dirs os1 = os_dirs os"
    unfolding p_def length_record_header by blast
  have off: "block_offset (wal_writer db) = kHeaderSize" "writer_ok (wal_writer db)"
    unfolding db(6) by simp_all (simp add: Writer_resume_def mlsm_bounds unat_of_nat_u64)
  let ?q = "phys_record kFullType (db_encode op)"
  have q: "length ?q < ?n" using op(2) by simp
  have lay: "layout True (block_offset (wal_writer db)) (db_encode op) = ?q"
    unfolding off using op(2) big(2) by (intro layout_one_block) simp
  have con: "file_contents os1 p = ?h" using db(3,5) by (simp add: posix_contents_def)
  from db_write_calm [OF db(4) off(2) db(2), of op] obtain db' os2 where
    w: "db_write db op os1 = (OK, db', os2)" "table db' = kv_replay [op]"
      "posix_opened (wal_file db, os2)" "os_dirs os2 = os_dirs os1"
      "file_contents os2 p = ?h @ ?q" "stable_contents os2 p = ?h @ ?q"
    by (auto simp: lay db(3,7) con kv_replay_def posix_contents_def posix_durable_def)
  have "\<exists>db3 os4. Recover path os3 = Some (OK, Some db3, os4) \<and> table db3 = Map.empty"
    if cr: "crash os2 os3" "calm os3" for os3
  proof -
    obtain m where "os_files os3 p = Some (take m (?h @ ?q))" "length (?h @ ?q) \<le> m"
      using file_crash_take [OF crash_file [OF cr(1)], of p "length (?h @ ?q)" "?h @ ?q"] w db(3)
      by (auto simp: posix_opened_def)
    then have "os_files os3 (DbFile path kWalName) = Some (?h @ ?q)" by (simp add: p_def)
    moreover have "DbFile path kWalName \<notin> os_dirs os3"
      using cr(1) w(4) db(8) dirs by (simp add: crash_def p_def)
    ultimately show ?thesis using Recover_calm [OF cr(2)] over [OF q] by blast
  qed
  with db(1) w(1,2) show ?thesis by blast
qed

subsection \<open>Properties\<close>

lemma db_inv_script [simp]: "db_inv ops db (os\<lparr>os_script := sc\<rparr>) = db_inv ops db os"
  by (simp add: db_inv_def posix_state_defs file_contents_def stable_contents_def)

lemma DB_Open_recovers:
  assumes "calm os" "DbFile path kWalName \<notin> os_dirs os"
    and "create_if_missing options \<or> os_files os path \<noteq> None \<or> path \<in> os_dirs os"
  shows "\<exists>os1. DB_Open options path os = Recover path os1 \<and> calm os1 \<and>
    os_files os1 = os_files os \<and> os_stable os1 = os_stable os \<and> DbFile path kWalName \<notin> os_dirs os1"
proof (cases "create_if_missing options")
  case True
  from MakeDir_calm [OF assms(1), of path] obtain os1 where
    os1: "MakeDir path os = (OK, os1)" "calm os1" "os_files os1 = os_files os"
      "os_stable os1 = os_stable os" "os_dirs os1 \<subseteq> insert path (os_dirs os)" by auto
  have "DbFile path kWalName \<noteq> path" by (simp add: DbFile_def kWalName_def)
  with True os1 assms(2) show ?thesis by (intro exI [of _ os1]) (auto simp: DB_Open_def)
next
  case False
  from FileExists_calm [OF assms(1), of path] obtain os1 where
    os1: "FileExists path os = (os_files os path \<noteq> None \<or> path \<in> os_dirs os, os1)" "disk_kept os os1" by blast
  with disk_kept_calm [OF os1(2) assms(1)] False assms(2,3) show ?thesis
    by (intro exI [of _ os1]) (auto simp: DB_Open_def disk_kept_def)
qed

lemma DB_Open_create:
  assumes "calm os" "DbFile path kWalName \<notin> os_dirs os"
  obtains os1 where "DB_Open new_Options path os = Recover path os1" "calm os1"
    "os_files os1 = os_files os" "os_stable os1 = os_stable os" "DbFile path kWalName \<notin> os_dirs os1"
  using DB_Open_recovers [OF assms, of new_Options] by (auto simp: new_Options_def)

lemma DB_Open_refuses:
  assumes "calm os" "\<not> create_if_missing options" "os_files os path = None" "path \<notin> os_dirs os"
  shows "\<exists>os'. DB_Open options path os = Some (InvalidArgument (path @ '' does not exist''), None, os') \<and> disk_kept os os'"
  using FileExists_calm [OF assms(1), of path] assms(2-4) by (auto simp: DB_Open_def)

text \<open>
  \<^bold>\<open>C14\<close> Durability. A database is opened on a log of earlier writes (or none) and a
  client writes until the first failure, while the operating system fails as it likes
  (\<open>sc\<close>). Then the power fails at any point behind the last call. Reopening succeeds, and the
  table is that of all earlier writes and all writes that returned OK, in order, with at most
  the one write that failed added as a whole.
\<close>

theorem DB_acknowledged_writes_survive:
  assumes "calm os" "DbFile path kWalName \<notin> os_dirs os"
    and "os_files os (DbFile path kWalName) = Some (db_log past) \<or>
         os_files os (DbFile path kWalName) = None \<and> past = []"
    and "stable_contents os (DbFile path kWalName) = db_log past"
    and "list_all kv_fits past" "list_all kv_fits ops"
  shows "\<exists>db os1. DB_Open new_Options path os = Some (OK, Some db, os1) \<and> table db = kv_replay past \<and>
    (\<forall>sc n s db' os2 os3.
       db_run db ops (os1\<lparr>os_script := sc\<rparr>) = (n, s, db', os2) \<and> crash os2 os3 \<and> calm os3 \<longrightarrow>
       (ok s \<longleftrightarrow> n = length ops) \<and> table db' = kv_replay (past @ take n ops) \<and>
       (\<exists>db3 os4 j. DB_Open new_Options path os3 = Some (OK, Some db3, os4) \<and>
          table db3 = kv_replay (past @ take j ops) \<and> (j = n \<or> \<not> ok s \<and> j = Suc n)))"
proof -
  let ?p = "DbFile path kWalName"
  obtain os0 where os0: "DB_Open new_Options path os = Recover path os0" "calm os0"
    "os_files os0 = os_files os" "os_stable os0 = os_stable os" "?p \<notin> os_dirs os0"
    using DB_Open_create [OF assms(1,2)] by metis
  have "os_files os0 ?p = Some (db_log past) \<or> os_files os0 ?p = None \<and> past = []"
    "stable_contents os0 ?p = db_log past"
    using assms(3,4) os0(3,4) by (simp_all add: stable_contents_def)
  from Recover_clean [OF os0(2) assms(5) os0(5) this] obtain db os1 where
    db: "DB_Open new_Options path os = Some (OK, Some db, os1)" "dbpath db = path" "db_inv past db os1"
      "os_dirs os1 = os_dirs os0"
    using os0(1) by auto
  have "(ok s \<longleftrightarrow> n = length ops) \<and> table db' = kv_replay (past @ take n ops) \<and>
       (\<exists>db3 os4 j. DB_Open new_Options path os3 = Some (OK, Some db3, os4) \<and>
          table db3 = kv_replay (past @ take j ops) \<and> (j = n \<or> \<not> ok s \<and> j = Suc n))"
    if run: "db_run db ops (os1\<lparr>os_script := sc\<rparr>) = (n, s, db', os2)" "crash os2 os3" "calm os3"
    for sc n s db' os2 os3
  proof -
    have inv: "db_inv past db (os1\<lparr>os_script := sc\<rparr>)" using db(3) by simp
    have "?p \<notin> os_dirs os3"
      using db_run_dirs [OF inv assms(6) run(1)] run(2) db(4) os0(5) by (simp add: crash_def)
    then obtain os3' where os3': "DB_Open new_Options path os3 = Recover path os3'" "calm os3'"
      "os_files os3' = os_files os3" "?p \<notin> os_dirs os3'"
      using DB_Open_create [OF run(3)] by metis
    have "file_crash (DbFile (dbpath db) kWalName) os2 os3'"
      using crash_file [OF run(2)] os3'(3) by (simp add: file_crash_def)
    from db_run_crash_recover [OF inv assms(6) run(1) this os3'(2)] os3'(1,4) db(2)
    show ?thesis by auto
  qed
  moreover have "table db = kv_replay past" using db(3) by (simp add: db_inv_def)
  ultimately show ?thesis using db(1) by blast
qed

theorem DB_acknowledged_writes_survive_witness:
  "\<exists>db os1. DB_Open new_Options ''d'' fresh_os = Some (OK, Some db, os1) \<and> table db = kv_replay [] \<and>
    (\<forall>sc n s db' os2 os3.
       db_run db [KvPut [1] [2], KvDelete [1]] (os1\<lparr>os_script := sc\<rparr>) = (n, s, db', os2) \<and>
       crash os2 os3 \<and> calm os3 \<longrightarrow>
       (ok s \<longleftrightarrow> n = length [KvPut [1] [2], KvDelete [1]]) \<and>
       table db' = kv_replay ([] @ take n [KvPut [1] [2], KvDelete [1]]) \<and>
       (\<exists>db3 os4 j. DB_Open new_Options ''d'' os3 = Some (OK, Some db3, os4) \<and>
          table db3 = kv_replay ([] @ take j [KvPut [1] [2], KvDelete [1]]) \<and>
          (j = n \<or> \<not> ok s \<and> j = Suc n)))"
  by (rule DB_acknowledged_writes_survive)
     (simp_all add: fresh_os_def calm_def stable_contents_def db_log_def)

text \<open>
  \<^bold>\<open>C17\<close> Opening a log that was cut at any byte, with any options: where the directory is there or
  may be created, the open succeeds and the table is that of the longest sequence of whole
  records, in order; otherwise it is refused and nothing on the disk has changed.
\<close>

theorem DB_open_cut_log:
  assumes "calm os" "DbFile path kWalName \<notin> os_dirs os" "list_all kv_fits ops"
    and "os_files os (DbFile path kWalName) = Some (take m (db_log ops))"
  shows "if create_if_missing options \<or> os_files os path \<noteq> None \<or> path \<in> os_dirs os
    then \<exists>db os'. DB_Open options path os = Some (OK, Some db, os') \<and>
      table db = kv_replay (take (whole_records 0 m (map db_encode ops)) ops)
    else \<exists>os'. DB_Open options path os = Some (InvalidArgument (path @ '' does not exist''), None, os') \<and> disk_kept os os'"
proof (cases "create_if_missing options \<or> os_files os path \<noteq> None \<or> path \<in> os_dirs os")
  case True
  from DB_Open_recovers [OF assms(1,2) this] obtain os0 where "DB_Open options path os = Recover path os0" "calm os0"
    "os_files os0 = os_files os" "DbFile path kWalName \<notin> os_dirs os0" by blast
  with Recover_log [OF _ _ assms(3)] assms(4) True show ?thesis by (simp only: if_True) metis
next
  case False
  with DB_Open_refuses [OF assms(1)] show ?thesis by simp
qed

theorem DB_open_cut_log_witness:
  "\<exists>db os'. DB_Open new_Options ''d''
      (fresh_os\<lparr>os_files := [DbFile ''d'' kWalName \<mapsto> take 9 (db_log [KvPut [1] [2]])]\<rparr>) =
        Some (OK, Some db, os') \<and>
    table db = kv_replay (take (whole_records 0 9 (map db_encode [KvPut [1] [2]])) [KvPut [1] [2]])"
  using DB_open_cut_log [of "fresh_os\<lparr>os_files := [DbFile ''d'' kWalName \<mapsto> take 9 (db_log [KvPut [1] [2]])]\<rparr>" "''d''"
      "[KvPut [1] [2]]" 9 new_Options]
  by (simp add: fresh_os_def calm_def new_Options_def)

text \<open>
  \<^bold>\<open>C19\<close> Reads see writes, on every path: after \<^verbatim>\<open>Put\<close> the key has the new value
  and every other key is as before; after \<^verbatim>\<open>Delete\<close> the key is not found; and where the
  log reports an error, nothing a reader sees has changed.
\<close>

theorem DB_reads_see_writes:
  "(case Put db key value os of (s, db', os') \<Rightarrow>
      Get db' k = (if ok s \<and> k = key then (OK, Some value) else Get db k)) \<and>
   (case Delete db key os of (s, db', os') \<Rightarrow>
      Get db' k = (if ok s \<and> k = key then (NotFound (text_of key), None) else Get db k))"
  by (auto simp: Put_def Delete_def Write_def Get_def Apply_def kTypePut_def kTypeDelete_def Let_def
      split: prod.splits)

text \<open>
  The record format: what \<^verbatim>\<open>EncodeRecord\<close> writes, \<^verbatim>\<open>DecodeRecord\<close>
  reads back, for puts and for deletes (whose value is dropped), as long as the lengths fit
  their 32-bit fields.
\<close>

theorem DecodeRecord_inverts_EncodeRecord:
  assumes "length key < 2 ^ 32" "length value < 2 ^ 32"
  shows "DecodeRecord (EncodeRecord type key value) =
    Some (type, key, if type = kTypePut then value else [])"
  by (rule DecodeRecord_EncodeRecord [OF assms])

theorem DecodeRecord_inverts_EncodeRecord_witness:
  "DecodeRecord (EncodeRecord kTypePut [7, 8] [9]) =
    Some (kTypePut, [7, 8], if kTypePut = kTypePut then [9] else [])"
  by (rule DecodeRecord_inverts_EncodeRecord) simp_all

text \<open>
  \<^bold>\<open>C20\<close> A write lost in spite of its OK. The log holds the header of a record whose payload
  a crash cut off. The database opens, a write returns OK and is durable; but the log is
  appended to behind the torn header, so the next open, after any crash, takes the new record
  for the missing payload and comes up empty. db.h promises that a crash after a successful
  \<^verbatim>\<open>Put\<close> does not lose the write.
\<close>

theorem DB_loses_write_after_torn_header:
  assumes "calm os" "DbFile path kWalName \<notin> os_dirs os"
    and "kv_fits big" "length (db_encode big) < kBlockSize - kHeaderSize"
    and "os_files os (DbFile path kWalName) = Some (take kHeaderSize (db_log [big]))"
    and "kv_fits op" "length (db_encode op) + kHeaderSize < length (db_encode big)"
  shows "\<exists>db os1 db' os2. Recover path os = Some (OK, Some db, os1) \<and>
    db_write db op os1 = (OK, db', os2) \<and> table db' = kv_replay [op] \<and>
    (\<forall>os3. crash os2 os3 \<and> calm os3 \<longrightarrow>
      (\<exists>db3 os4. Recover path os3 = Some (OK, Some db3, os4) \<and> table db3 = Map.empty))"
  by (rule torn_header_loses_write [OF assms])

theorem DB_loses_write_after_torn_header_witness:
  "\<exists>db os1 db' os2.
    Recover ''d'' (fresh_os\<lparr>os_files :=
      [DbFile ''d'' kWalName \<mapsto> take kHeaderSize (db_log [KvPut [1] (replicate 100 2)])]\<rparr>) =
      Some (OK, Some db, os1) \<and>
    db_write db (KvPut [3] [4]) os1 = (OK, db', os2) \<and> table db' = kv_replay [KvPut [3] [4]] \<and>
    (\<forall>os3. crash os2 os3 \<and> calm os3 \<longrightarrow>
      (\<exists>db3 os4. Recover ''d'' os3 = Some (OK, Some db3, os4) \<and> table db3 = Map.empty))"
  by (rule DB_loses_write_after_torn_header [of _ _ "KvPut [1] (replicate 100 2)"])
     (simp_all add: fresh_os_def calm_def EncodeRecord_def kTypePut_def mlsm_bounds)

text \<open>
  \<^bold>\<open>C36\<close> A read error at the start of the log while the database is opened, and every other call
  carried out: \<open>Open\<close> returns OK, and whatever the log holds, no key is found. The log itself is
  untouched.
\<close>

theorem DB_open_hides_read_error:
  assumes "os_files os (DbFile path kWalName) = Some c" "e \<noteq> EINTR"
    and "os_script os = [Proceed i, Proceed j, Proceed k, Fails e] @ sc" "calm (os\<lparr>os_script := sc\<rparr>)"
  shows "\<exists>db os'. DB_Open new_Options path os = Some (OK, Some db, os') \<and>
    Get db key = (NotFound (text_of key), None) \<and> file_contents os' (DbFile path kWalName) = c"
proof -
  let ?p = "DbFile path kWalName"
  obtain os1 where o1: "MakeDir path os = (OK, os1)" "os_script os1 = [Proceed j, Proceed k, Fails e] @ sc"
    "os_files os1 = os_files os"
    using MakeDir_proceeds [of os i "[Proceed j, Proceed k, Fails e] @ sc" path] assms(3) by auto
  obtain os2 where o2: "FileExists ?p os1 = (True, os2)" "os_script os2 = [Proceed k, Fails e] @ sc"
    "os_files os2 = os_files os1"
    using FileExists_proceeds [of os1 j "[Proceed k, Fails e] @ sc" ?p c] o1 assms(1) by auto
  have "os_files os2 ?p = Some c" "os_script os2 = Proceed k # Fails e # sc" "calm (os2\<lparr>os_script := sc\<rparr>)"
    using o1 o2 assms(1,4) by (simp_all add: calm_def)
  then obtain fd osr rd where rd: "NewSequentialFile ?p os2 = (OK, Some fd, osr)"
    "ForEachRecord posix_sequential ReplayBody Map.empty (Reader_new (fd, osr) (Some RecoveryReporter) 0) = Some (Map.empty, rd)"
    "disk_kept os2 (PosixFile_destroy fd (snd (rd_file rd)))" "calm (PosixFile_destroy fd (snd (rd_file rd)))"
    by (rule replay_read_fails [OF _ assms(2)])
  then obtain os3 where o3: "ReplayWal ?p Map.empty os2 = Some (OK, Map.empty, os3)" "disk_kept os2 os3" "calm os3"
    by (simp add: ReplayWal_def)
  have "os_files os3 ?p = Some c" using o1 o2 o3 assms(1) by (simp add: disk_kept_def)
  from appends_behind [OF o3(3) this] obtain os4 os5 f os6 where
    "FileExists ?p os3 = (True, os4)" "GetFileSize ?p os4 = (OK, of_nat (length c), os5)"
    "NewAppendableFile ?p os5 = (OK, Some f, os6)" "file_contents os6 ?p = c" by blast
  with o1(1) o2(1) o3(1) show ?thesis by (simp add: DB_Open_def new_Options_def Recover_def Get_def)
qed

theorem DB_open_hides_read_error_witness:
  "\<exists>os db os'. file_contents os (DbFile ''d'' kWalName) = db_log [KvPut [1] [2]] \<and>
     DB_Open new_Options ''d'' os = Some (OK, Some db, os') \<and> Get db [1] = (NotFound (text_of [1]), None)"
proof -
  let ?os = "fresh_os\<lparr>os_files := [DbFile ''d'' kWalName \<mapsto> db_log [KvPut [1] [2]]],
    os_script := [Proceed 0, Proceed 0, Proceed 0, Fails EIO]\<rparr>"
  have "\<exists>db os'. DB_Open new_Options ''d'' ?os = Some (OK, Some db, os') \<and> Get db [1] = (NotFound (text_of [1]), None) \<and>
      file_contents os' (DbFile ''d'' kWalName) = db_log [KvPut [1] [2]]"
    by (rule DB_open_hides_read_error [of ?os _ _ EIO 0 0 0 "[]"]) (simp_all add: calm_def)
  moreover have "file_contents ?os (DbFile ''d'' kWalName) = db_log [KvPut [1] [2]]" by (simp add: file_contents_def)
  ultimately show ?thesis by blast
qed

end
