(* ===== verification/Raft.thy ===== *)
theory Raft
  imports Prelude
begin

section \<open>The Raft core (messages.h, raft.h, raft.cc)\<close>

text \<open>
  The message-driven state machine: one definition per member function of \<^verbatim>\<open>Raft\<close>, on a
  record of its data members, with terms, node identifiers and log indices at their 64 bits.

  The log carries the sentinel of the constructor at position 0, so that index \<open>i\<close> is
  \<open>log r ! unat i\<close>. The two maps of a leader, \<^verbatim>\<open>next_index_\<close> and \<^verbatim>\<open>match_index_\<close>,
  are only ever read by \<^verbatim>\<open>operator[]\<close>, which gives 0 for a missing key: they are total
  functions here, and \<^verbatim>\<open>clear()\<close> is the function that is 0 everywhere.
\<close>

type_synonym NodeId = u64
type_synonym Term = u64

record LogEntry =
  le_term :: Term
  le_index :: u64
  le_data :: bytes

datatype MessageType = kRequestVote | kRequestVoteResp | kAppendEntries | kAppendEntriesResp

record Message =
  msg_type :: MessageType
  msg_from :: NodeId
  msg_to :: NodeId
  msg_term :: Term
  vote_granted :: bool
  success :: bool
  last_log_index :: u64
  last_log_term :: Term
  prev_log_index :: u64
  prev_log_term :: Term
  entries :: "LogEntry list"
  leader_commit :: u64
  msg_match_index :: u64

text \<open>A message as \<^verbatim>\<open>Message msg;\<close> initialises it, with its type set.\<close>

definition new_Message :: "MessageType \<Rightarrow> Message" where
  "new_Message t =
     \<lparr>msg_type = t, msg_from = 0, msg_to = 0, msg_term = 0, vote_granted = False, success = False,
      last_log_index = 0, last_log_term = 0, prev_log_index = 0, prev_log_term = 0, entries = [],
      leader_commit = 0, msg_match_index = 0\<rparr>"

datatype Role = kFollower | kCandidate | kLeader

record Config =
  cfg_id :: NodeId
  peers :: "NodeId list"
  election_timeout :: int
  heartbeat_timeout :: int

record Raft =
  config :: Config
  role :: Role
  current_term :: Term
  voted_for :: NodeId
  log :: "LogEntry list"
  commit_index :: u64
  last_applied :: u64
  stable_index :: u64
  leader :: NodeId
  election_elapsed :: int
  heartbeat_elapsed :: int
  votes_granted :: "NodeId list"
  next_index :: "NodeId \<Rightarrow> u64"
  match_index :: "NodeId \<Rightarrow> u64"
  hard_state_dirty :: bool
  out_msgs :: "Message list"

definition sentinel :: LogEntry where
  "sentinel = \<lparr>le_term = 0, le_index = 0, le_data = []\<rparr>"

definition Raft_new :: "Config \<Rightarrow> Raft" where
  "Raft_new cfg =
     \<lparr>config = cfg, role = kFollower, current_term = 0, voted_for = 0, log = [sentinel],
      commit_index = 0, last_applied = 0, stable_index = 0, leader = 0, election_elapsed = 0,
      heartbeat_elapsed = 0, votes_granted = [], next_index = (\<lambda>_. 0), match_index = (\<lambda>_. 0),
      hard_state_dirty = False, out_msgs = []\<rparr>"


subsection \<open>Accessors\<close>

definition raft_id :: "Raft \<Rightarrow> NodeId" where
  "raft_id r = cfg_id (config r)"

definition LastIndex :: "Raft \<Rightarrow> u64" where
  "LastIndex r = of_nat (length (log r)) - 1"

definition LastTerm :: "Raft \<Rightarrow> Term" where
  "LastTerm r = le_term (last (log r))"

definition TermAt :: "Raft \<Rightarrow> u64 \<Rightarrow> Term" where
  "TermAt r i = (if i > LastIndex r then 0 else le_term (log r ! unat i))"

definition entry_at :: "Raft \<Rightarrow> u64 \<Rightarrow> LogEntry" where
  "entry_at r i = log r ! unat i"

definition QuorumSize :: "Raft \<Rightarrow> nat" where
  "QuorumSize r = length (peers (config r)) div 2 + 1"

definition Send :: "Raft \<Rightarrow> Message \<Rightarrow> Raft" where
  "Send r m = r\<lparr>out_msgs := out_msgs r @ [m]\<rparr>"

definition TakeMessages :: "Raft \<Rightarrow> Message list \<times> Raft" where
  "TakeMessages r = (out_msgs r, r\<lparr>out_msgs := []\<rparr>)"

definition set_stable_index :: "Raft \<Rightarrow> u64 \<Rightarrow> Raft" where
  "set_stable_index r i = r\<lparr>stable_index := i\<rparr>"

definition clear_hard_state_dirty :: "Raft \<Rightarrow> Raft" where
  "clear_hard_state_dirty r = r\<lparr>hard_state_dirty := False\<rparr>"

text \<open>The peers other than the node itself, as the loops over \<^verbatim>\<open>config_.peers\<close> visit them.\<close>

definition other_peers :: "Raft \<Rightarrow> NodeId list" where
  "other_peers r = filter (\<lambda>peer. peer \<noteq> raft_id r) (peers (config r))"


subsection \<open>Replication: the leader's side\<close>

definition AppendEntries_for :: "Raft \<Rightarrow> NodeId \<Rightarrow> Message" where
  "AppendEntries_for r peer =
     (let next = next_index r peer;
          prev = next - 1
      in (new_Message kAppendEntries)
           \<lparr>msg_from := raft_id r, msg_to := peer, msg_term := current_term r,
            prev_log_index := prev, prev_log_term := TermAt r prev,
            leader_commit := commit_index r,
            entries := map (\<lambda>i. log r ! i) [unat next ..< Suc (unat (LastIndex r))]\<rparr>)"

definition SendAppendEntries :: "Raft \<Rightarrow> NodeId \<Rightarrow> Raft" where
  "SendAppendEntries r peer = Send r (AppendEntries_for r peer)"

definition BroadcastAppendEntries :: "Raft \<Rightarrow> Raft" where
  "BroadcastAppendEntries r = foldl SendAppendEntries r (other_peers r)"

definition replicas :: "Raft \<Rightarrow> u64 \<Rightarrow> nat" where
  "replicas r n = 1 + length (filter (\<lambda>peer. match_index r peer \<ge> n) (other_peers r))"

function MaybeCommit_loop :: "Raft \<Rightarrow> u64 \<Rightarrow> Raft" where
  "MaybeCommit_loop r n =
     (if n > commit_index r then
        if TermAt r n = current_term r \<and> replicas r n \<ge> QuorumSize r
        then r\<lparr>commit_index := n\<rparr>
        else MaybeCommit_loop r (n - 1)
      else r)"
  by pat_completeness auto
termination
  by (relation "measure (\<lambda>(r, n). unat n)") (auto simp: u64_pred_less)

declare MaybeCommit_loop.simps [simp del]

definition MaybeCommit :: "Raft \<Rightarrow> Raft" where
  "MaybeCommit r = MaybeCommit_loop r (LastIndex r)"

definition HandleAppendEntriesResp :: "Raft \<Rightarrow> Message \<Rightarrow> Raft" where
  "HandleAppendEntriesResp r msg =
     (if success msg then
        MaybeCommit (r\<lparr>match_index := (match_index r)(msg_from msg := msg_match_index msg),
                      next_index := (next_index r)(msg_from msg := msg_match_index msg + 1)\<rparr>)
      else
        let next = next_index r (msg_from msg) in
        if next > 1 then r\<lparr>next_index := (next_index r)(msg_from msg := next - 1)\<rparr> else r)"


subsection \<open>Role changes\<close>

definition BecomeFollower :: "Raft \<Rightarrow> Term \<Rightarrow> NodeId \<Rightarrow> Raft" where
  "BecomeFollower r term lead =
     (let r = (if term > current_term r
               then r\<lparr>current_term := term, voted_for := 0, hard_state_dirty := True\<rparr> else r)
      in r\<lparr>role := kFollower, leader := lead, election_elapsed := 0\<rparr>)"

definition BecomeLeader :: "Raft \<Rightarrow> Raft" where
  "BecomeLeader r =
     (let r = r\<lparr>role := kLeader, leader := raft_id r, heartbeat_elapsed := 0,
                next_index := (\<lambda>_. 0), match_index := (\<lambda>_. 0)\<rparr>;
          r = foldl (\<lambda>r peer. r\<lparr>next_index := (next_index r)(peer := LastIndex r + 1),
                                match_index := (match_index r)(peer := 0)\<rparr>) r (other_peers r)
      in BroadcastAppendEntries r)"

definition RequestVote_for :: "Raft \<Rightarrow> NodeId \<Rightarrow> Message" where
  "RequestVote_for r peer =
     (new_Message kRequestVote)
       \<lparr>msg_from := raft_id r, msg_to := peer, msg_term := current_term r,
        last_log_index := LastIndex r, last_log_term := LastTerm r\<rparr>"

definition BecomeCandidate :: "Raft \<Rightarrow> Raft" where
  "BecomeCandidate r =
     (let r = r\<lparr>current_term := current_term r + 1, voted_for := raft_id r, hard_state_dirty := True,
                role := kCandidate, leader := 0, election_elapsed := 0, votes_granted := [raft_id r]\<rparr>
      in if length (votes_granted r) \<ge> QuorumSize r then BecomeLeader r
         else foldl (\<lambda>r peer. Send r (RequestVote_for r peer)) r (other_peers r))"


subsection \<open>Votes and replication: the receiver's side\<close>

definition HandleRequestVote :: "Raft \<Rightarrow> Message \<Rightarrow> Raft" where
  "HandleRequestVote r msg =
     (let can_vote = (voted_for r = 0 \<or> voted_for r = msg_from msg);
          up_to_date = (last_log_term msg > LastTerm r \<or>
             last_log_term msg = LastTerm r \<and> last_log_index msg \<ge> LastIndex r);
          resp = (new_Message kRequestVoteResp)
            \<lparr>msg_from := raft_id r, msg_to := msg_from msg, msg_term := current_term r,
             vote_granted := (can_vote \<and> up_to_date)\<rparr>;
          r = (if vote_granted resp
               then r\<lparr>voted_for := msg_from msg, hard_state_dirty := True, election_elapsed := 0\<rparr>
               else r)
      in Send r resp)"

text \<open>One round of the loop over the entries of the message.\<close>

definition append_entry :: "Raft \<Rightarrow> LogEntry \<Rightarrow> Raft" where
  "append_entry r e =
     (if le_index e \<le> LastIndex r then
        if TermAt r (le_index e) = le_term e then r
        else
          r\<lparr>log := take (unat (le_index e)) (log r) @ [e],
            stable_index := (if stable_index r \<ge> le_index e then le_index e - 1 else stable_index r)\<rparr>
      else r\<lparr>log := log r @ [e]\<rparr>)"

definition HandleAppendEntries :: "Raft \<Rightarrow> Message \<Rightarrow> Raft" where
  "HandleAppendEntries r msg =
     (let r = r\<lparr>leader := msg_from msg, election_elapsed := 0\<rparr>;
          resp = (new_Message kAppendEntriesResp)
            \<lparr>msg_from := raft_id r, msg_to := msg_from msg, msg_term := current_term r\<rparr>
      in
      if prev_log_index msg > LastIndex r \<or> TermAt r (prev_log_index msg) \<noteq> prev_log_term msg
      then Send r (resp\<lparr>success := False\<rparr>)
      else
        let r = foldl append_entry r (entries msg);
            r = (if leader_commit msg > commit_index r
                 then r\<lparr>commit_index := min (leader_commit msg) (LastIndex r)\<rparr> else r)
        in Send r (resp\<lparr>success := True,
             msg_match_index := prev_log_index msg + of_nat (length (entries msg))\<rparr>))"


subsection \<open>Inputs: messages, time, proposals\<close>

definition StepFollower :: "Raft \<Rightarrow> Message \<Rightarrow> Raft" where
  "StepFollower r msg =
     (case msg_type msg of
        kRequestVote \<Rightarrow> HandleRequestVote r msg
      | kAppendEntries \<Rightarrow> HandleAppendEntries r msg
      | _ \<Rightarrow> r)"

definition StepCandidate :: "Raft \<Rightarrow> Message \<Rightarrow> Raft" where
  "StepCandidate r msg =
     (case msg_type msg of
        kRequestVoteResp \<Rightarrow>
          if vote_granted msg then
            let r = (if msg_from msg \<in> set (votes_granted r) then r
                     else r\<lparr>votes_granted := votes_granted r @ [msg_from msg]\<rparr>)
            in if length (votes_granted r) \<ge> QuorumSize r then BecomeLeader r else r
          else r
      | kAppendEntries \<Rightarrow> HandleAppendEntries (BecomeFollower r (msg_term msg) (msg_from msg)) msg
      | kRequestVote \<Rightarrow> HandleRequestVote r msg
      | _ \<Rightarrow> r)"

definition StepLeader :: "Raft \<Rightarrow> Message \<Rightarrow> Raft" where
  "StepLeader r msg =
     (case msg_type msg of
        kRequestVote \<Rightarrow> HandleRequestVote r msg
      | kAppendEntriesResp \<Rightarrow> HandleAppendEntriesResp r msg
      | _ \<Rightarrow> r)"

definition StepRole :: "Raft \<Rightarrow> Message \<Rightarrow> Raft" where
  "StepRole r msg =
     (case role r of
        kFollower \<Rightarrow> StepFollower r msg
      | kCandidate \<Rightarrow> StepCandidate r msg
      | kLeader \<Rightarrow> StepLeader r msg)"

definition Step :: "Raft \<Rightarrow> Message \<Rightarrow> Raft" where
  "Step r msg =
     (if msg_term msg > current_term r then
        let lead = (if msg_type msg = kAppendEntries then msg_from msg else 0)
        in StepRole (BecomeFollower r (msg_term msg) lead) msg
      else if msg_term msg < current_term r then
        let resp = \<lambda>t. (new_Message t)\<lparr>msg_from := raft_id r, msg_to := msg_from msg, msg_term := current_term r\<rparr>
        in if msg_type msg = kRequestVote then
             Send r ((resp kRequestVoteResp)\<lparr>vote_granted := False\<rparr>)
           else if msg_type msg = kAppendEntries then
             Send r ((resp kAppendEntriesResp)\<lparr>success := False\<rparr>)
           else r
      else StepRole r msg)"

definition Tick :: "Raft \<Rightarrow> Raft" where
  "Tick r =
     (if role r = kLeader then
        let r = r\<lparr>heartbeat_elapsed := heartbeat_elapsed r + 1\<rparr> in
        if heartbeat_elapsed r \<ge> heartbeat_timeout (config r)
        then BroadcastAppendEntries (r\<lparr>heartbeat_elapsed := 0\<rparr>)
        else r
      else
        let r = r\<lparr>election_elapsed := election_elapsed r + 1\<rparr> in
        if election_elapsed r \<ge> election_timeout (config r) then BecomeCandidate r else r)"

definition Propose :: "Raft \<Rightarrow> bytes \<Rightarrow> bool \<times> Raft" where
  "Propose r data =
     (if role r \<noteq> kLeader then (False, r)
      else (True, MaybeCommit (r\<lparr>log := log r @
        [\<lparr>le_term = current_term r, le_index = LastIndex r + 1, le_data = data\<rparr>]\<rparr>)))"

definition TakeCommitted :: "Raft \<Rightarrow> LogEntry list \<times> Raft" where
  "TakeCommitted r =
     (map (\<lambda>i. log r ! i) [unat (last_applied r + 1) ..< Suc (unat (commit_index r))],
      r\<lparr>last_applied := commit_index r\<rparr>)"

definition Restore :: "Raft \<Rightarrow> Term \<Rightarrow> NodeId \<Rightarrow> LogEntry list \<Rightarrow> Raft" where
  "Restore r term vote es =
     (let r = r\<lparr>current_term := term, voted_for := vote, log := log r @ es\<rparr>
      in r\<lparr>stable_index := LastIndex r, hard_state_dirty := False\<rparr>)"

end
