(* ===== verification/Raft_Spec.thy ===== *)
theory Raft_Spec
  imports Prelude
begin

section \<open>What a Raft cluster promises\<close>

text \<open>
  The protocol behind raft.cc, without messages, clocks, indices or machine words. Each node has
  a term, a log of pairs of term and data, and a commit count; besides these the state keeps the
  history on which the safety argument rests and which messages report parts of: the votes cast,
  the log each candidate stood with and each voter held, the log of the leader of every term, the
  lengths acknowledged to it and the length it announced as committed.

  A quorum system is all the protocol needs to know of the membership. The safety of this system
  is proved here; that the code implements it is the matter of the theory on clusters.
\<close>

locale quorum_system =
  fixes quorum :: "'n set \<Rightarrow> bool"
  assumes quorums_meet: "quorum Q \<Longrightarrow> quorum Q' \<Longrightarrow> \<exists>v. v \<in> Q \<and> v \<in> Q'"

definition majority :: "'n set \<Rightarrow> 'n set \<Rightarrow> bool" where
  "majority M Q \<longleftrightarrow> finite M \<and> Q \<subseteq> M \<and> card M < 2 * card Q"

interpretation majority: quorum_system "majority M" for M
proof
  fix Q Q' :: "'a set"
  assume Q: "majority M Q" "majority M Q'"
  show "\<exists>v. v \<in> Q \<and> v \<in> Q'"
  proof (rule ccontr)
    assume "\<nexists>v. v \<in> Q \<and> v \<in> Q'"
    then have "card (Q \<union> Q') = card Q + card Q'"
      using Q by (intro card_Un_disjoint) (auto simp: majority_def intro: finite_subset)
    moreover have "card (Q \<union> Q') \<le> card M"
      using Q by (intro card_mono) (auto simp: majority_def)
    ultimately show False using Q by (simp add: majority_def)
  qed
qed


subsection \<open>States and actions\<close>

type_synonym 'd plog = "(nat \<times> 'd) list"

record ('n, 'd) spec =
  sp_term :: "'n \<Rightarrow> nat"
  sp_log :: "'n \<Rightarrow> 'd plog"
  sp_leads :: "'n \<Rightarrow> bool"
  sp_commit :: "'n \<Rightarrow> nat"
  sp_vote :: "'n \<Rightarrow> nat \<Rightarrow> 'n option"
  sp_stood :: "'n \<Rightarrow> nat \<Rightarrow> 'd plog option"
  sp_ballot :: "'n \<Rightarrow> nat \<Rightarrow> 'd plog option"
  sp_llog :: "nat \<Rightarrow> ('n \<times> 'd plog) option"
  sp_acked :: "'n \<Rightarrow> nat \<Rightarrow> nat"
  sp_announced :: "nat \<Rightarrow> nat"

definition spec_init :: "('n, 'd) spec" where
  "spec_init =
     \<lparr>sp_term = (\<lambda>_. 0), sp_log = (\<lambda>_. []), sp_leads = (\<lambda>_. False), sp_commit = (\<lambda>_. 0),
      sp_vote = (\<lambda>_ _. None), sp_stood = (\<lambda>_ _. None), sp_ballot = (\<lambda>_ _. None),
      sp_llog = (\<lambda>_. None), sp_acked = (\<lambda>_ _. 0), sp_announced = (\<lambda>_. 0)\<rparr>"

definition upd2 :: "('a \<Rightarrow> 'b \<Rightarrow> 'c) \<Rightarrow> 'a \<Rightarrow> 'b \<Rightarrow> 'c \<Rightarrow> 'a \<Rightarrow> 'b \<Rightarrow> 'c" where
  "upd2 f a b c = f(a := (f a)(b := c))"

lemma upd2_apply [simp]: "upd2 f a b c x y = (if x = a \<and> y = b then c else f x y)"
  by (simp add: upd2_def)

definition last_term :: "'d plog \<Rightarrow> nat" where
  "last_term l = (if l = [] then 0 else fst (last l))"

text \<open>The comparison of paper section 5.4.1: last term first, then length.\<close>

definition up_to_date :: "'d plog \<Rightarrow> 'd plog \<Rightarrow> bool" where
  "up_to_date g l \<longleftrightarrow>
     last_term l < last_term g \<or> last_term l = last_term g \<and> length l \<le> length g"

text \<open>
  Taking over entries from position \<open>p\<close>: entries that agree in their term are passed over, the
  first that does not replaces what is there and everything behind it.
\<close>

fun merge :: "nat \<Rightarrow> 'd plog \<Rightarrow> 'd plog \<Rightarrow> 'd plog" where
  "merge p l [] = l"
| "merge p l (e # es) =
     (if p < length l \<and> fst (l ! p) = fst e then merge (Suc p) l es else take p l @ e # es)"

definition committed :: "('n set \<Rightarrow> bool) \<Rightarrow> ('n, 'd) spec \<Rightarrow> nat \<Rightarrow> nat \<Rightarrow> bool" where
  "committed quorum s T i \<longleftrightarrow>
     (\<exists>c l Q. sp_llog s T = Some (c, l) \<and> 0 < i \<and> i \<le> length l \<and> fst (l ! (i - 1)) = T \<and>
        quorum Q \<and> (\<forall>v\<in>Q. i \<le> sp_acked s v T))"

inductive spec_step :: "('n set \<Rightarrow> bool) \<Rightarrow> ('n, 'd) spec \<Rightarrow> ('n, 'd) spec \<Rightarrow> bool"
  for quorum :: "'n set \<Rightarrow> bool" where
  new_term: "sp_term s n < T \<Longrightarrow>
    spec_step quorum s (s\<lparr>sp_term := (sp_term s)(n := T), sp_leads := (sp_leads s)(n := False)\<rparr>)"
| stand: "T = Suc (sp_term s n) \<Longrightarrow>
    spec_step quorum s (s\<lparr>sp_term := (sp_term s)(n := T), sp_leads := (sp_leads s)(n := False),
      sp_vote := upd2 (sp_vote s) n T (Some n), sp_stood := upd2 (sp_stood s) n T (Some (sp_log s n)),
      sp_ballot := upd2 (sp_ballot s) n T (if sp_llog s T = None then Some (sp_log s n) else None)\<rparr>)"
| grant: "T = sp_term s n \<Longrightarrow> sp_stood s c T = Some g \<Longrightarrow> sp_vote s n T = None \<Longrightarrow>
    up_to_date g (sp_log s n) \<Longrightarrow>
    spec_step quorum s (s\<lparr>sp_vote := upd2 (sp_vote s) n T (Some c),
      sp_ballot := upd2 (sp_ballot s) n T (if sp_llog s T = None then Some (sp_log s n) else None)\<rparr>)"
| win: "T = sp_term s n \<Longrightarrow> sp_stood s n T = Some (sp_log s n) \<Longrightarrow> sp_llog s T = None \<Longrightarrow>
    quorum Q \<Longrightarrow> \<forall>v\<in>Q. sp_vote s v T = Some n \<Longrightarrow>
    spec_step quorum s (s\<lparr>sp_leads := (sp_leads s)(n := True),
      sp_llog := (sp_llog s)(T := Some (n, sp_log s n)),
      sp_acked := upd2 (sp_acked s) n T (length (sp_log s n)),
      sp_announced := (sp_announced s)(T := sp_commit s n)\<rparr>)"
| propose: "T = sp_term s n \<Longrightarrow> sp_leads s n \<Longrightarrow> l = sp_log s n @ [(T, d)] \<Longrightarrow>
    spec_step quorum s (s\<lparr>sp_log := (sp_log s)(n := l), sp_llog := (sp_llog s)(T := Some (n, l)),
      sp_acked := upd2 (sp_acked s) n T (length l)\<rparr>)"
| accept: "T = sp_term s n \<Longrightarrow> \<not> sp_leads s n \<Longrightarrow> sp_llog s T = Some (c, l) \<Longrightarrow> p \<le> k \<Longrightarrow> k \<le> length l \<Longrightarrow>
    p \<le> length (sp_log s n) \<Longrightarrow> p = 0 \<or> fst (sp_log s n ! (p - 1)) = fst (l ! (p - 1)) \<Longrightarrow>
    spec_step quorum s (s\<lparr>sp_log := (sp_log s)(n := merge p (sp_log s n) (drop p (take k l))),
      sp_acked := upd2 (sp_acked s) n T (max (sp_acked s n T) k)\<rparr>)"
| cut: "T = sp_term s n \<Longrightarrow> \<not> sp_leads s n \<Longrightarrow> sp_llog s T = Some (c, l) \<Longrightarrow> p < length (sp_log s n) \<Longrightarrow>
    p < length l \<Longrightarrow> fst (sp_log s n ! p) \<noteq> fst (l ! p) \<Longrightarrow> take p (sp_log s n) = take p l \<Longrightarrow> sp_commit s n \<le> p \<Longrightarrow>
    spec_step quorum s (s\<lparr>sp_log := (sp_log s)(n := take p (sp_log s n))\<rparr>)"
| commit: "T = sp_term s n \<Longrightarrow> sp_leads s n \<Longrightarrow> committed quorum s T k \<Longrightarrow> sp_commit s n \<le> k \<Longrightarrow>
    spec_step quorum s (s\<lparr>sp_commit := (sp_commit s)(n := k),
      sp_announced := (sp_announced s)(T := max k (sp_announced s T))\<rparr>)"
| follow: "T = sp_term s n \<Longrightarrow> sp_llog s T = Some (c, l) \<Longrightarrow> k \<le> sp_announced s T \<Longrightarrow>
    sp_commit s n \<le> k \<Longrightarrow> k \<le> length (sp_log s n) \<Longrightarrow> take k (sp_log s n) = take k l \<Longrightarrow>
    spec_step quorum s (s\<lparr>sp_commit := (sp_commit s)(n := k)\<rparr>)"
| restart: "spec_step quorum s (s\<lparr>sp_leads := (sp_leads s)(n := False), sp_commit := (sp_commit s)(n := 0)\<rparr>)"

inductive spec_reachable :: "('n set \<Rightarrow> bool) \<Rightarrow> ('n, 'd) spec \<Rightarrow> bool" for quorum :: "'n set \<Rightarrow> bool" where
  start: "spec_reachable quorum spec_init"
| step: "spec_reachable quorum s \<Longrightarrow> spec_step quorum s s' \<Longrightarrow> spec_reachable quorum s'"


subsection \<open>Prefixes\<close>

lemma take_eq_take_le: "take n a = take n b \<Longrightarrow> m \<le> n \<Longrightarrow> take m a = take m b"
  by (metis min_def take_take)

lemma take_eq_length: "take i a = take i b \<Longrightarrow> i \<le> length b \<Longrightarrow> i \<le> length a"
  by (metis length_take min.absorb2 min.cobounded1)

lemma take_eq_nth: "take i a = take i b \<Longrightarrow> j < i \<Longrightarrow> a ! j = b ! j"
  by (metis nth_take)

text \<open>A log that shares its first \<open>i\<close> entries with the source keeps them.\<close>

lemma merge_keeps:
  assumes "take i l = take i src" "i \<le> length l" "drop p src = es @ rest" "p \<le> length src"
  shows "take i (merge p l es) = take i l"
  using assms(3,4)
proof (induction es arbitrary: p)
  case Nil
  then show ?case by simp
next
  case (Cons e es)
  have p: "p < length src" and e: "src ! p = e" and d: "drop (Suc p) src = es @ rest"
    using Cons.prems
    by (metis append_Cons drop_all list.distinct(1) linorder_not_le,
        metis append_Cons nth_via_drop, metis append_Cons drop_Suc list.sel(3) tl_drop)
  show ?case
  proof (cases "p < length l \<and> fst (l ! p) = fst e")
    case True
    with Cons.IH [OF d] p show ?thesis by simp
  next
    case False
    have "i \<le> p"
    proof (rule ccontr)
      assume "\<not> i \<le> p"
      with take_eq_nth [OF assms(1), of p] False assms(2) e show False by auto
    qed
    with False assms(2) show ?thesis by (auto simp: min_def)
  qed
qed

text \<open>
  The outcome of taking over \<open>k\<close> entries of the source, for logs on which equal terms at a
  position mean equal prefixes: either these \<open>k\<close> entries alone, or the old log, which has them.
\<close>

lemma merge_result:
  assumes match: "\<And>j. j < length l \<Longrightarrow> j < length src \<Longrightarrow> fst (l ! j) = fst (src ! j) \<Longrightarrow>
      take (Suc j) l = take (Suc j) src"
    and "take p l = take p src" "p \<le> length l" "p + length es \<le> length src" "es = take (length es) (drop p src)"
  shows "merge p l es = take (p + length es) src \<or>
    merge p l es = l \<and> take (p + length es) l = take (p + length es) src \<and> p + length es \<le> length l"
  using assms(2-)
proof (induction es arbitrary: p)
  case Nil
  then show ?case by simp
next
  case (Cons e es)
  have p: "p < length src" using Cons.prems(3) by simp
  from Cons.prems(4) p have e: "e = src ! p" and es: "es = take (length es) (drop (Suc p) src)"
    by (auto simp: Cons_nth_drop_Suc [symmetric])
  show ?case
  proof (cases "p < length l \<and> fst (l ! p) = fst e")
    case True
    with match [of p] p e have "take (Suc p) l = take (Suc p) src" by simp
    from Cons.IH [OF this _ _ es] True Cons.prems(3) show ?thesis by simp
  next
    case False
    have "take p l @ e # es = take p src @ take (length (e # es)) (drop p src)"
      by (metis Cons.prems(1,4))
    then have "take p l @ e # es = take (p + length (e # es)) src" by (simp only: take_add)
    moreover have "merge p l (e # es) = take p l @ e # es" using False by auto
    ultimately show ?thesis by simp
  qed
qed


subsection \<open>Invariants\<close>

text \<open>Every entry comes from the leader of its term, with everything before it.\<close>

definition good_log :: "('n, 'd) spec \<Rightarrow> 'd plog \<Rightarrow> bool" where
  "good_log s x \<longleftrightarrow> sorted (map fst x) \<and>
     (\<forall>i<length x. \<exists>c l. sp_llog s (fst (x ! i)) = Some (c, l) \<and> i < length l \<and>
        take (Suc i) x = take (Suc i) l)"

definition differs :: "('n, 'd) spec \<Rightarrow> nat \<Rightarrow> 'd plog \<Rightarrow> bool" where
  "differs s T x \<longleftrightarrow> (\<exists>c l. sp_llog s T = Some (c, l) \<and> take (length x) l \<noteq> x)"

text \<open>What \<open>n\<close> acknowledged in term \<open>T\<close> is still in the log \<open>x\<close>, or a leader of a term between lacks it.\<close>

definition kept :: "('n, 'd) spec \<Rightarrow> 'n \<Rightarrow> nat \<Rightarrow> 'd plog \<Rightarrow> nat \<Rightarrow> bool" where
  "kept s n T x B \<longleftrightarrow>
     (\<forall>c l i. sp_llog s T = Some (c, l) \<and> 0 < i \<and> i \<le> sp_acked s n T \<and> fst (l ! (i - 1)) = T \<longrightarrow>
        take i x = take i l \<or> (\<exists>T'. T < T' \<and> T' < B \<and> differs s T' (take i l)))"

definition elected :: "('n set \<Rightarrow> bool) \<Rightarrow> ('n, 'd) spec \<Rightarrow> nat \<Rightarrow> 'n \<Rightarrow> 'd plog \<Rightarrow> bool" where
  "elected quorum s T c l \<longleftrightarrow>
     (\<exists>Q g x. quorum Q \<and> (\<forall>v\<in>Q. sp_vote s v T = Some c \<and> sp_ballot s v T \<noteq> None) \<and>
        sp_stood s c T = Some g \<and> l = g @ x \<and> (\<forall>e\<in>set x. fst e = T))"

definition safe_prefix :: "('n set \<Rightarrow> bool) \<Rightarrow> ('n, 'd) spec \<Rightarrow> nat \<Rightarrow> 'd plog \<Rightarrow> bool" where
  "safe_prefix quorum s B x \<longleftrightarrow> x = [] \<or>
     (\<exists>T i c l. T \<le> B \<and> committed quorum s T i \<and> length x \<le> i \<and> sp_llog s T = Some (c, l) \<and>
        x = take (length x) l)"

definition inv_future :: "('n, 'd) spec \<Rightarrow> bool" where
  "inv_future s \<longleftrightarrow>
     (\<forall>n T. sp_term s n < T \<longrightarrow> sp_vote s n T = None \<and> sp_stood s n T = None \<and> sp_acked s n T = 0)"

definition inv_votes :: "('n, 'd) spec \<Rightarrow> bool" where
  "inv_votes s \<longleftrightarrow>
     (\<forall>n T c. sp_vote s n T = Some c \<longrightarrow> sp_stood s c T \<noteq> None) \<and>
     (\<forall>n T x. sp_ballot s n T = Some x \<longrightarrow>
        (\<exists>c g. sp_vote s n T = Some c \<and> sp_stood s c T = Some g \<and> up_to_date g x)) \<and>
     (\<forall>n T. sp_vote s n T \<noteq> None \<and> sp_llog s T = None \<longrightarrow> sp_ballot s n T \<noteq> None)"

definition inv_logs :: "('n, 'd) spec \<Rightarrow> bool" where
  "inv_logs s \<longleftrightarrow>
     (\<forall>n. good_log s (sp_log s n) \<and> (\<forall>e\<in>set (sp_log s n). fst e \<le> sp_term s n)) \<and>
     (\<forall>n T g. sp_stood s n T = Some g \<longrightarrow> good_log s g \<and> (\<forall>e\<in>set g. fst e < T)) \<and>
     (\<forall>n T x. sp_ballot s n T = Some x \<longrightarrow> good_log s x) \<and>
     (\<forall>T c l. sp_llog s T = Some (c, l) \<longrightarrow> good_log s l)"

definition inv_leaders :: "('n set \<Rightarrow> bool) \<Rightarrow> ('n, 'd) spec \<Rightarrow> bool" where
  "inv_leaders quorum s \<longleftrightarrow>
     (\<forall>T c l. sp_llog s T = Some (c, l) \<longrightarrow> T \<le> sp_term s c \<and> elected quorum s T c l) \<and>
     (\<forall>n. sp_leads s n \<longrightarrow> sp_llog s (sp_term s n) = Some (n, sp_log s n))"

definition inv_acks :: "('n, 'd) spec \<Rightarrow> bool" where
  "inv_acks s \<longleftrightarrow>
     (\<forall>n T. 0 < sp_acked s n T \<longrightarrow> (\<exists>c l. sp_llog s T = Some (c, l) \<and> sp_acked s n T \<le> length l)) \<and>
     (\<forall>n T. kept s n T (sp_log s n) (Suc (sp_term s n))) \<and>
     (\<forall>n T T' x. sp_ballot s n T' = Some x \<and> T < T' \<longrightarrow> kept s n T x T')"

definition inv_commit :: "('n set \<Rightarrow> bool) \<Rightarrow> ('n, 'd) spec \<Rightarrow> bool" where
  "inv_commit quorum s \<longleftrightarrow>
     (\<forall>n. sp_commit s n \<le> length (sp_log s n) \<and>
        safe_prefix quorum s (sp_term s n) (take (sp_commit s n) (sp_log s n))) \<and>
     (\<forall>T c l. sp_llog s T = Some (c, l) \<longrightarrow> sp_announced s T \<le> length l \<and>
        safe_prefix quorum s T (take (sp_announced s T) l)) \<and>
     (\<forall>n. sp_leads s n \<longrightarrow> sp_commit s n \<le> sp_announced s (sp_term s n))"

definition spec_inv :: "('n set \<Rightarrow> bool) \<Rightarrow> ('n, 'd) spec \<Rightarrow> bool" where
  "spec_inv quorum s \<longleftrightarrow> inv_future s \<and> inv_votes s \<and> inv_logs s \<and> inv_leaders quorum s \<and>
     inv_acks s \<and> inv_commit quorum s"


subsection \<open>History only grows\<close>

definition grows :: "('n, 'd) spec \<Rightarrow> ('n, 'd) spec \<Rightarrow> bool" where
  "grows s s' \<longleftrightarrow>
     (\<forall>T c l. sp_llog s T = Some (c, l) \<longrightarrow>
        (\<exists>x. sp_llog s' T = Some (c, l @ x) \<and> (\<forall>e\<in>set x. fst e = T))) \<and>
     (\<forall>n. sp_term s n \<le> sp_term s' n) \<and>
     (\<forall>n T. sp_acked s n T \<le> sp_acked s' n T) \<and>
     (\<forall>n T c. sp_vote s n T = Some c \<longrightarrow> sp_vote s' n T = Some c) \<and>
     (\<forall>n T g. sp_stood s n T = Some g \<longrightarrow> sp_stood s' n T = Some g) \<and>
     (\<forall>n T x. sp_ballot s n T = Some x \<longrightarrow> sp_ballot s' n T = Some x) \<and>
     (\<forall>T c l. sp_llog s T = Some (c, l) \<longrightarrow> sp_announced s T \<le> sp_announced s' T)"

lemma growsD:
  assumes "grows s s'"
  shows "sp_llog s T = Some (c, l) \<Longrightarrow> \<exists>x. sp_llog s' T = Some (c, l @ x) \<and> (\<forall>e\<in>set x. fst e = T)"
    "sp_term s n \<le> sp_term s' n" "sp_acked s n T \<le> sp_acked s' n T"
    "sp_vote s n T = Some c \<Longrightarrow> sp_vote s' n T = Some c"
    "sp_stood s n T = Some g \<Longrightarrow> sp_stood s' n T = Some g"
    "sp_ballot s n T = Some x \<Longrightarrow> sp_ballot s' n T = Some x"
    "sp_llog s T = Some (c, l) \<Longrightarrow> sp_announced s T \<le> sp_announced s' T"
  using assms by (auto simp: grows_def)

lemma grows_refl [simp]: "grows s s"
  by (auto simp: grows_def intro!: exI [of _ "[]"])

lemma grows_trans:
  assumes "grows s s'" "grows s' s''"
  shows "grows s s''"
  unfolding grows_def
proof (intro conjI allI impI)
  fix T c l
  assume l: "sp_llog s T = Some (c, l)"
  from growsD(1) [OF assms(1) l] obtain x where
    x: "sp_llog s' T = Some (c, l @ x)" "\<forall>e\<in>set x. fst e = T" by blast
  from growsD(1) [OF assms(2) x(1)] obtain y where
    "sp_llog s'' T = Some (c, (l @ x) @ y)" "\<forall>e\<in>set y. fst e = T" by blast
  with x show "\<exists>x. sp_llog s'' T = Some (c, l @ x) \<and> (\<forall>e\<in>set x. fst e = T)"
    by (intro exI [of _ "x @ y"]) auto
  show "sp_announced s T \<le> sp_announced s'' T"
    using growsD(7) [OF assms(1) l] growsD(7) [OF assms(2) x(1)] by simp
qed (meson assms growsD order_trans)+

lemma good_log_grows:
  assumes "grows s s'" "good_log s x"
  shows "good_log s' x"
  unfolding good_log_def
proof (intro conjI allI impI)
  show "sorted (map fst x)" using assms(2) by (simp add: good_log_def)
next
  fix i assume "i < length x"
  with assms(2) obtain c l where
    "sp_llog s (fst (x ! i)) = Some (c, l)" "i < length l" "take (Suc i) x = take (Suc i) l"
    by (auto simp: good_log_def)
  moreover from growsD(1) [OF assms(1) this(1)] obtain y where
    "sp_llog s' (fst (x ! i)) = Some (c, l @ y)" by blast
  ultimately show "\<exists>c l. sp_llog s' (fst (x ! i)) = Some (c, l) \<and> i < length l \<and>
      take (Suc i) x = take (Suc i) l" by auto
qed

lemma good_log_take: "good_log s x \<Longrightarrow> good_log s (take k x)"
  by (auto simp: good_log_def min_def take_map [symmetric] sorted_wrt_take)

lemma committed_grows: "grows s s' \<Longrightarrow> committed quorum s T i \<Longrightarrow> committed quorum s' T i"
  unfolding committed_def
proof (elim exE conjE)
  fix c l Q
  assume g: "grows s s'" and l: "sp_llog s T = Some (c, l)" "0 < i" "i \<le> length l"
    "fst (l ! (i - 1)) = T" and Q: "quorum Q" "\<forall>v\<in>Q. i \<le> sp_acked s v T"
  from growsD(1) [OF g l(1)] obtain x where "sp_llog s' T = Some (c, l @ x)" by blast
  moreover have "\<forall>v\<in>Q. i \<le> sp_acked s' v T" using Q(2) growsD(3) [OF g] order_trans by blast
  moreover have "i - 1 < length l" using l(2,3) by simp
  ultimately show "\<exists>c l Q. sp_llog s' T = Some (c, l) \<and> 0 < i \<and> i \<le> length l \<and>
      fst (l ! (i - 1)) = T \<and> quorum Q \<and> (\<forall>v\<in>Q. i \<le> sp_acked s' v T)"
    using l Q(1) by (intro exI [of _ c] exI [of _ "l @ x"] exI [of _ Q]) (simp add: nth_append)
qed

lemma safe_prefix_grows:
  assumes "grows s s'" "B \<le> B'" "safe_prefix quorum s B x"
  shows "safe_prefix quorum s' B' x"
proof (cases "x = []")
  case False
  with assms(3) obtain T i c l where
    t: "T \<le> B" "committed quorum s T i" "length x \<le> i" "sp_llog s T = Some (c, l)" "x = take (length x) l"
    by (auto simp: safe_prefix_def)
  from growsD(1) [OF assms(1) t(4)] obtain y where "sp_llog s' T = Some (c, l @ y)" by blast
  moreover have "x = take (length x) (l @ y)" using t(5) by (metis append_eq_conv_conj append_take_drop_id append.assoc)
  ultimately show ?thesis
    using t committed_grows [OF assms(1) t(2)] assms(2) unfolding safe_prefix_def
    by (meson order_trans)
qed (simp add: safe_prefix_def)

text \<open>A leader that lacks a prefix ending in an entry of an earlier term will always lack it.\<close>

lemma differs_grows:
  assumes "grows s s'" "differs s T' x" "x \<noteq> []" "fst (last x) < T'"
  shows "differs s' T' x"
proof -
  from assms(2) obtain c l where l: "sp_llog s T' = Some (c, l)" "take (length x) l \<noteq> x"
    by (auto simp: differs_def)
  from growsD(1) [OF assms(1) l(1)] obtain y where
    y: "sp_llog s' T' = Some (c, l @ y)" "\<forall>e\<in>set y. fst e = T'" by blast
  have "take (length x) (l @ y) \<noteq> x"
  proof
    assume eq: "take (length x) (l @ y) = x"
    show False
    proof (cases "length x \<le> length l")
      case True
      with eq l(2) show False by simp
    next
      case False
      let ?y = "take (length x - length l) y"
      have x: "l @ ?y = x" using eq False by simp
      then have "?y \<noteq> []" using False by auto
      with x have "last x \<in> set ?y" by (metis last_appendR last_in_set)
      then have "last x \<in> set y" by (rule in_set_takeD)
      with y(2) assms(4) show False by simp
    qed
  qed
  with y show ?thesis by (auto simp: differs_def)
qed

lemma last_take: "0 < i \<Longrightarrow> i \<le> length l \<Longrightarrow> last (take i l) = l ! (i - 1)"
  by (subst last_conv_nth) (auto simp: min_absorb2)

lemma differs_take:
  "i \<le> length l \<Longrightarrow>
   differs s T (take i l) \<longleftrightarrow> (\<exists>c m. sp_llog s T = Some (c, m) \<and> take i m \<noteq> take i l)"
  by (simp add: differs_def min_absorb2)

lemma acked_le:
  assumes "inv_acks s" "0 < i" "i \<le> sp_acked s n T"
  obtains c l where "sp_llog s T = Some (c, l)" "i \<le> length l"
proof -
  have "0 < sp_acked s n T" using assms(2,3) by simp
  with assms(1) obtain c l where "sp_llog s T = Some (c, l)" "sp_acked s n T \<le> length l"
    unfolding inv_acks_def by blast
  with assms(3) that show thesis by simp
qed

lemma kept_grows:
  assumes "grows s s'" "inv_acks s" "sp_acked s' n T = sp_acked s n T" "kept s n T x B" "B \<le> B'"
  shows "kept s' n T x B'"
  unfolding kept_def
proof (intro allI impI, elim conjE)
  fix c l' i
  assume l': "sp_llog s' T = Some (c, l')" "0 < i" "i \<le> sp_acked s' n T" "fst (l' ! (i - 1)) = T"
  then obtain c0 l where l: "sp_llog s T = Some (c0, l)" "i \<le> length l"
    using acked_le [OF assms(2), of i n T] assms(3) by auto
  from growsD(1) [OF assms(1) l(1)] l'(1) obtain y where "l' = l @ y" by auto
  with l(2) l'(2,4) have eq: "take i l' = take i l" and t: "fst (l ! (i - 1)) = T"
    by (auto simp: nth_append split: if_splits)
  from assms(4) l l' t assms(3) consider "take i x = take i l"
    | T' where "T < T'" "T' < B" "differs s T' (take i l)"
    unfolding kept_def by metis
  then show "take i x = take i l' \<or> (\<exists>T'>T. T' < B' \<and> differs s' T' (take i l'))"
  proof cases
    case 1
    then show ?thesis by (simp add: eq)
  next
    case 2
    have "differs s' T' (take i l)"
      using 2(1) t l'(2) l(2)
      by (intro differs_grows [OF assms(1) 2(3)]) (auto simp: last_take)
    with 2 assms(5) show ?thesis unfolding eq by (meson order_less_le_trans)
  qed
qed


subsection \<open>Consequences of the invariants\<close>

text \<open>Log matching: equal terms at a position mean equal prefixes.\<close>

lemma log_matching:
  assumes "good_log s x" "good_log s y" "j < length x" "j < length y" "fst (x ! j) = fst (y ! j)"
  shows "take (Suc j) x = take (Suc j) y"
  using assms unfolding good_log_def by (metis option.inject prod.inject)

lemma llog_terms:
  assumes "inv_logs s" "inv_leaders quorum s" "sp_llog s T = Some (c, l)" "e \<in> set l"
  shows "fst e \<le> T"
proof -
  from assms(2,3) have "elected quorum s T c l" by (auto simp: inv_leaders_def)
  then obtain g x where g: "sp_stood s c T = Some g" "l = g @ x" "\<forall>e\<in>set x. fst e = T"
    by (auto simp: elected_def)
  with assms(1) have "\<forall>e\<in>set g. fst e < T" unfolding inv_logs_def by blast
  with g(2,3) assms(4) show ?thesis by fastforce
qed

lemma last_term_sorted: "sorted (map fst x) \<Longrightarrow> j < length x \<Longrightarrow> fst (x ! j) \<le> last_term x"
  by (cases "x = []") (auto simp: last_term_def last_conv_nth sorted_iff_nth_mono)

text \<open>A candidate elected over a log that holds an entry of term \<open>T\<close> holds it as well.\<close>

lemma up_to_date_contains:
  assumes "good_log s g" "good_log s x" "up_to_date g x"
    and l: "sp_llog s T = Some (c, l)" "0 < i" "i \<le> length l" "fst (l ! (i - 1)) = T"
    and x: "take i x = take i l"
    and later: "\<And>T' c' l'. T < T' \<Longrightarrow> T' \<in> fst ` set g \<Longrightarrow> sp_llog s T' = Some (c', l') \<Longrightarrow> take i l' = take i l"
    and llog: "\<And>T' c' l'. sp_llog s T' = Some (c', l') \<Longrightarrow> good_log s l'"
  shows "take i g = take i l \<and> i \<le> length g"
proof -
  have ix: "i \<le> length x" using take_eq_length [OF x l(3)] .
  have "x ! (i - 1) = l ! (i - 1)" using take_eq_nth [OF x] l(2) by simp
  with last_term_sorted [of x "i - 1"] ix assms(2) l(2,4) have lx: "T \<le> last_term x"
    by (auto simp: good_log_def)
  have "T \<le> last_term g" using assms(3) lx by (auto simp: up_to_date_def)
  have "g \<noteq> []"
  proof
    assume "g = []"
    with assms(3) lx ix l(2) show False by (auto simp: up_to_date_def last_term_def)
  qed
  let ?k = "length g - 1"
  let ?t = "last_term g"
  have k: "?k < length g" "fst (g ! ?k) = ?t" "Suc ?k = length g"
    using \<open>g \<noteq> []\<close> by (simp_all add: last_term_def last_conv_nth)
  from assms(1) k obtain c' l' where
    l': "sp_llog s ?t = Some (c', l')" "?k < length l'" "g = take (length g) l'"
    unfolding good_log_def by (metis order_refl take_all)
  show ?thesis
  proof (cases "?t = T")
    case True
    with lx assms(3) have "length x \<le> length g" by (auto simp: up_to_date_def)
    with ix have "i \<le> length g" by simp
    with True l' l(1) show ?thesis by (metis Pair_inject min.absorb2 min.commute option.inject take_take)
  next
    case False
    with \<open>T \<le> ?t\<close> have "T < ?t" by simp
    moreover have "?t \<in> fst ` set g" using k by (metis image_eqI nth_mem)
    ultimately have eq: "take i l' = take i l" using later l'(1) by blast
    have il: "i \<le> length l'" using take_eq_length [OF eq l(3)] .
    have "i \<le> length g"
    proof (rule ccontr)
      assume "\<not> i \<le> length g"
      then have "?k \<le> i - 1" by simp
      with llog [OF l'(1)] il l(2) have "fst (l' ! ?k) \<le> fst (l' ! (i - 1))"
        by (auto simp: good_log_def sorted_iff_nth_mono)
      moreover have "l' ! ?k = g ! ?k" using l'(3) k(1) by (metis nth_take)
      moreover have "l' ! (i - 1) = l ! (i - 1)" using take_eq_nth [OF eq] l(2) by simp
      ultimately show False using \<open>T < ?t\<close> k(2) l(4) by simp
    qed
    with l'(3) eq show ?thesis by (metis min.absorb1 take_take)
  qed
qed

context quorum_system
begin

text \<open>
  Leader completeness: the leader of every later term holds whatever is committed, by induction
  on the term.
\<close>

lemma leader_completeness:
  assumes inv: "inv_votes s" "inv_logs s" "inv_leaders quorum s" "inv_acks s"
    and com: "committed quorum s T i" and l: "sp_llog s T = Some (c, l)"
  shows "sp_llog s T' = Some (c', l') \<Longrightarrow> T \<le> T' \<Longrightarrow> take i l' = take i l"
proof (induction T' arbitrary: c' l' rule: less_induct)
  case (less T')
  from com l obtain Q where i: "0 < i" "i \<le> length l" "fst (l ! (i - 1)) = T"
    and Q: "quorum Q" "\<forall>v\<in>Q. i \<le> sp_acked s v T"
    by (auto simp: committed_def)
  show ?case
  proof (cases "T' = T")
    case True
    with less.prems l show ?thesis by simp
  next
    case False
    with less.prems have lt: "T < T'" by simp
    from inv(3) less.prems(1) have "elected quorum s T' c' l'" by (auto simp: inv_leaders_def)
    then obtain Q' g y where Q': "quorum Q'" "\<forall>v\<in>Q'. sp_vote s v T' = Some c' \<and> sp_ballot s v T' \<noteq> None"
      and g: "sp_stood s c' T' = Some g" "l' = g @ y"
      by (auto simp: elected_def)
    obtain v where v: "v \<in> Q" "v \<in> Q'" using quorums_meet [OF Q(1) Q'(1)] by blast
    then obtain x where x: "sp_vote s v T' = Some c'" "sp_ballot s v T' = Some x" using Q'(2) by blast
    with inv(1) g(1) have utd: "up_to_date g x" unfolding inv_votes_def by fastforce
    have good: "good_log s g" "good_log s x" and old: "\<forall>e\<in>set g. fst e < T'"
      using inv(2) g(1) x(2) unfolding inv_logs_def by blast+
    have "kept s v T x T'" using inv(4) x(2) lt unfolding inv_acks_def by blast
    with l i Q(2) v(1) consider "take i x = take i l"
      | T'' where "T < T''" "T'' < T'" "differs s T'' (take i l)"
      unfolding kept_def by blast
    then have "take i x = take i l"
    proof cases
      case 2
      from 2(3) obtain c'' l'' where "sp_llog s T'' = Some (c'', l'')" "take i l'' \<noteq> take i l"
        using i(2) by (auto simp: differs_take)
      with less.IH [OF 2(2)] 2(1) show ?thesis by simp
    qed
    moreover have "take i m = take i l"
      if "T < t" "t \<in> fst ` set g" "sp_llog s t = Some (d, m)" for t d m
      using less.IH [of t d m] that old by auto
    moreover have "good_log s m" if "sp_llog s t = Some (d, m)" for t d m
      using that inv(2) unfolding inv_logs_def by blast
    ultimately have "take i g = take i l \<and> i \<le> length g"
      by (intro up_to_date_contains [OF good utd l i]) auto
    with g(2) show ?thesis by simp
  qed
qed

text \<open>Two safe prefixes agree as far as both go.\<close>

lemma safe_prefixes_agree:
  assumes inv: "inv_votes s" "inv_logs s" "inv_leaders quorum s" "inv_acks s"
    and "safe_prefix quorum s A x" "safe_prefix quorum s B y"
  shows "take (length y) x = take (length x) y"
proof -
  have wlog: "take (length q) p = take (length p) q"
    if p: "committed quorum s T i" "length p \<le> i" "sp_llog s T = Some (c, l)" "p = take (length p) l"
      and q: "length q \<le> j" "sp_llog s T' = Some (c', l')" "q = take (length q) l'" and "T \<le> T'"
    for p q T i c l j T' c' l'
  proof -
    have "take i l' = take i l"
      by (rule leader_completeness [OF inv p(1,3) q(2) \<open>T \<le> T'\<close>])
    from take_eq_take_le [OF this p(2)] p(4) have "p = take (length p) l'" by simp
    then show ?thesis using q(3) by (metis min.commute take_take)
  qed
  show ?thesis
  proof (cases "x = [] \<or> y = []")
    case False
    then obtain T i c l T' j c' l' where
      x: "committed quorum s T i" "length x \<le> i" "sp_llog s T = Some (c, l)" "x = take (length x) l"
      and y: "committed quorum s T' j" "length y \<le> j" "sp_llog s T' = Some (c', l')" "y = take (length y) l'"
      using assms(5,6) unfolding safe_prefix_def by blast
    show ?thesis
      using wlog [OF x y(2-4)] wlog [OF y x(2-4)] by (metis linear)
  qed auto
qed

end


subsection \<open>Every action keeps the invariants\<close>

lemma inv_votes_ballot: "inv_votes s \<Longrightarrow> sp_vote s n T = None \<Longrightarrow> sp_ballot s n T = None"
  unfolding inv_votes_def by (metis not_None_eq option.distinct(1))

lemma inv_acks_none: "inv_acks s \<Longrightarrow> sp_llog s T = None \<Longrightarrow> sp_acked s n T = 0"
  unfolding inv_acks_def by (metis gr0I not_None_eq option.distinct(1))

lemma leads_llog: "inv_leaders quorum s \<Longrightarrow> sp_leads s n \<Longrightarrow> sp_llog s (sp_term s n) = Some (n, sp_log s n)"
  by (simp add: inv_leaders_def)

lemma step_grows:
  assumes "spec_step quorum s s'" "inv_future s" "inv_votes s" "inv_leaders quorum s" "inv_acks s"
  shows "grows s s'"
  using assms(1)
proof cases
  case (stand T n)
  with assms(2) have "sp_vote s n T = None" "sp_stood s n T = None" by (simp_all add: inv_future_def)
  with stand inv_votes_ballot [OF assms(3)] show ?thesis by (auto simp: grows_def)
next
  case (grant T n c g)
  with inv_votes_ballot [OF assms(3)] show ?thesis by (auto simp: grows_def)
next
  case (win T n Q)
  with inv_acks_none [OF assms(5)] show ?thesis by (auto simp: grows_def)
next
  case (propose T n l d)
  have "sp_acked s n T \<le> length (sp_log s n)"
    using assms(5) leads_llog [OF assms(4) propose(3)] propose(2)
    unfolding inv_acks_def by (metis gr_zeroI le0 option.inject prod.inject)
  with propose leads_llog [OF assms(4) propose(3)] show ?thesis by (auto simp: grows_def)
qed (auto simp: grows_def)

text \<open>What is new in the history after an action.\<close>

lemma step_vote:
  assumes "spec_step quorum s s'" "sp_vote s' m T = Some c"
  shows "sp_vote s m T = Some c \<or> sp_stood s' c T \<noteq> None"
  using assms by cases (auto split: if_splits)

lemma step_ballot:
  assumes "spec_step quorum s s'" "sp_ballot s' m T = Some x"
  shows "sp_ballot s m T = Some x \<or>
    x = sp_log s m \<and> sp_llog s T = None \<and> sp_term s m \<le> T \<and> T \<le> sp_term s' m \<and>
    (\<exists>c g. sp_vote s' m T = Some c \<and> sp_stood s' c T = Some g \<and> up_to_date g x)"
  using assms by cases (auto simp: up_to_date_def split: if_splits)

lemma step_stood:
  assumes "spec_step quorum s s'" "sp_stood s' m T = Some g"
  shows "sp_stood s m T = Some g \<or> g = sp_log s m \<and> T = Suc (sp_term s m)"
  using assms by cases (auto split: if_splits)

lemma step_llog:
  assumes "spec_step quorum s s'" "inv_leaders quorum s" "sp_llog s' T = Some (c, l)"
  shows "(\<exists>l0 x. sp_llog s T = Some (c, l0) \<and> l = l0 @ x \<and> (\<forall>e\<in>set x. fst e = T)) \<or>
    sp_llog s T = None \<and> sp_stood s c T = Some l \<and> l = sp_log s c \<and> T = sp_term s c \<and>
    sp_commit s c = sp_announced s' T \<and> sp_log s' c = l \<and>
    (\<exists>Q. quorum Q \<and> (\<forall>v\<in>Q. sp_vote s v T = Some c))"
  using assms(1,3)
proof cases
  case (propose T n l d)
  with leads_llog [OF assms(2)] assms(3) show ?thesis by (fastforce split: if_splits)
next
  case (win T n Q)
  with assms(3) show ?thesis by (auto split: if_splits)
qed (use assms(3) in auto)

lemma step_acked:
  assumes "spec_step quorum s s'"
  shows "sp_acked s' m T = sp_acked s m T \<or> T = sp_term s m \<and> sp_term s' m = T"
  using assms by cases (auto split: if_splits)

lemma inv_future_step:
  assumes "spec_step quorum s s'" "inv_future s"
  shows "inv_future s'"
  using assms by cases (auto simp: inv_future_def)

lemma inv_votes_step:
  assumes "spec_step quorum s s'" "grows s s'" "inv_votes s"
  shows "inv_votes s'"
  unfolding inv_votes_def
proof (intro conjI allI impI)
  fix n T c
  assume "sp_vote s' n T = Some c"
  with step_vote [OF assms(1)] have "sp_vote s n T = Some c \<or> sp_stood s' c T \<noteq> None" by blast
  with assms(3) show "sp_stood s' c T \<noteq> None"
    unfolding inv_votes_def by (metis growsD(5) [OF assms(2)] option.exhaust option.distinct(1))
next
  fix n T x
  assume "sp_ballot s' n T = Some x"
  from step_ballot [OF assms(1) this]
  show "\<exists>c g. sp_vote s' n T = Some c \<and> sp_stood s' c T = Some g \<and> up_to_date g x"
    using assms(3) growsD(4,5) [OF assms(2)] unfolding inv_votes_def by blast
next
  fix n T
  assume "sp_vote s' n T \<noteq> None \<and> sp_llog s' T = None"
  with assms(1,3) show "sp_ballot s' n T \<noteq> None"
    unfolding inv_votes_def by cases (auto split: if_splits)
qed

text \<open>The node's own log: what an action makes of it.\<close>

lemma accept_result:
  assumes "inv_logs s" "sp_llog s T = Some (c, l)" "p \<le> k" "k \<le> length l"
    and "p \<le> length (sp_log s n)" "p = 0 \<or> fst (sp_log s n ! (p - 1)) = fst (l ! (p - 1))"
    and m: "m = merge p (sp_log s n) (drop p (take k l))"
  shows "m = take k l \<or> m = sp_log s n \<and> take k m = take k l \<and> k \<le> length m"
proof -
  let ?x = "sp_log s n"
  have good: "good_log s ?x" "good_log s l"
    using assms(1,2) unfolding inv_logs_def by blast+
  have "take p ?x = take p l"
  proof (cases p)
    case (Suc j)
    with assms(3-6) have "fst (?x ! j) = fst (l ! j)" "j < length ?x" "j < length l" by auto
    with log_matching [OF good] Suc show ?thesis by simp
  qed simp
  note pre = this
  let ?es = "drop p (take k l)"
  have es: "p + length ?es = k" "?es = take (length ?es) (drop p l)"
    using assms(3,4) by (simp_all add: drop_take)
  have "p + length ?es \<le> length l" using es(1) assms(4) by simp
  from merge_result [OF log_matching [OF good] pre assms(5) this es(2)]
  show ?thesis unfolding es(1) m by (metis (no_types))
qed

lemma step_log:
  assumes "spec_step quorum s s'" "inv_logs s" "inv_leaders quorum s"
  shows "sp_log s' n = sp_log s n \<or>
    (\<exists>d. sp_log s' n = sp_log s n @ [(sp_term s n, d)] \<and> sp_llog s' (sp_term s n) = Some (n, sp_log s' n)) \<or>
    (\<exists>c l k. sp_llog s (sp_term s n) = Some (c, l) \<and> sp_log s' n = take k l \<and> sp_llog s' = sp_llog s)"
  using assms(1)
proof cases
  case (accept T m c l p k)
  show ?thesis
  proof (cases "n = m")
    case True
    with accept accept_result [OF assms(2) accept(4-8) refl] show ?thesis by auto
  qed (use accept in simp)
next
  case (cut T m c l p)
  then show ?thesis by (cases "n = m") auto
qed auto

lemma good_log_snoc:
  assumes "good_log s x" "\<forall>e\<in>set x. fst e \<le> T" "sp_llog s T = Some (c, x @ [(T, d)])"
  shows "good_log s (x @ [(T, d)])"
  using assms by (auto simp: good_log_def sorted_append nth_append less_Suc_eq)

lemma inv_logs_step:
  assumes "spec_step quorum s s'" "grows s s'" "inv_logs s" "inv_leaders quorum s"
  shows "inv_logs s'"
proof -
  have old: "good_log s (sp_log s n)" "\<forall>e\<in>set (sp_log s n). fst e \<le> sp_term s n"
    "sp_stood s n T = Some g \<Longrightarrow> good_log s g \<and> (\<forall>e\<in>set g. fst e < T)"
    "sp_ballot s n T = Some x \<Longrightarrow> good_log s x" "sp_llog s T = Some (c, l) \<Longrightarrow> good_log s l"
    for n T g x c l using assms(3) unfolding inv_logs_def by blast+
  note good = good_log_grows [OF assms(2)]
  have logs: "good_log s' (sp_log s' n) \<and> (\<forall>e\<in>set (sp_log s' n). fst e \<le> sp_term s' n)" for n
    using step_log [OF assms(1,3,4), of n]
  proof (elim disjE exE conjE)
    assume "sp_log s' n = sp_log s n"
    with good [OF old(1)] old(2) growsD(2) [OF assms(2)] show ?thesis by (metis order_trans)
  next
    fix d
    assume d: "sp_log s' n = sp_log s n @ [(sp_term s n, d)]"
      "sp_llog s' (sp_term s n) = Some (n, sp_log s' n)"
    with good_log_snoc [OF good [OF old(1)] old(2)] have "good_log s' (sp_log s' n)" by simp
    with d(1) old(2) growsD(2) [OF assms(2), of n] show ?thesis by (auto intro: order_trans)
  next
    fix c l k
    assume k: "sp_llog s (sp_term s n) = Some (c, l)" "sp_log s' n = take k l"
    have "fst e \<le> sp_term s n" if "e \<in> set (take k l)" for e
      using llog_terms [OF assms(3,4) k(1)] that in_set_takeD by metis
    then have "\<forall>e\<in>set (take k l). fst e \<le> sp_term s' n"
      using growsD(2) [OF assms(2), of n] order_trans by blast
    with good [OF good_log_take [OF old(5) [OF k(1)]]] show ?thesis unfolding k(2) by blast
  qed
  have "good_log s' g \<and> (\<forall>e\<in>set g. fst e < T)" if "sp_stood s' n T = Some g" for n T g
    using step_stood [OF assms(1) that] old(1-3) good by (metis less_Suc_eq_le)
  moreover have "good_log s' x" if "sp_ballot s' n T = Some x" for n T x
    using step_ballot [OF assms(1) that] old(1,4) good by blast
  moreover have "good_log s' l" if "sp_llog s' T = Some (c, l)" for T c l
    using assms(1)
  proof cases
    case (propose T' n l' d)
    show ?thesis
    proof (cases "T = T'")
      case True
      with propose that logs [of n] show ?thesis by auto
    qed (use propose that old(5) good in auto)
  next
    case (win T' n Q)
    then show ?thesis using that old(1,5) good by (auto split: if_splits)
  qed (use that old(5) good in auto)
  ultimately show ?thesis using logs unfolding inv_logs_def by blast
qed

lemma inv_leaders_step:
  assumes "spec_step quorum s s'" "grows s s'" "inv_votes s" "inv_leaders quorum s"
  shows "inv_leaders quorum s'"
  unfolding inv_leaders_def
proof (intro conjI allI impI)
  fix T c l
  assume l: "sp_llog s' T = Some (c, l)"
  note lift = growsD(4-6) [OF assms(2)]
  from step_llog [OF assms(1,4) l] have "T \<le> sp_term s c \<and> elected quorum s' T c l"
  proof (elim disjE exE conjE)
    fix l0 x
    assume x: "sp_llog s T = Some (c, l0)" "l = l0 @ x" "\<forall>e\<in>set x. fst e = T"
    with assms(4) have "T \<le> sp_term s c" "elected quorum s T c l0" unfolding inv_leaders_def by blast+
    from this(2) obtain Q g y where "quorum Q"
      "\<forall>v\<in>Q. sp_vote s v T = Some c \<and> sp_ballot s v T \<noteq> None" "sp_stood s c T = Some g" "l0 = g @ y"
      "\<forall>e\<in>set y. fst e = T" unfolding elected_def by blast
    with x lift have "elected quorum s' T c l"
      unfolding elected_def by (intro exI [of _ Q] exI [of _ g] exI [of _ "y @ x"]) auto
    with \<open>T \<le> sp_term s c\<close> show ?thesis by simp
  next
    fix Q
    assume w: "sp_llog s T = None" "sp_stood s c T = Some l" "T = sp_term s c" "quorum Q"
      "\<forall>v\<in>Q. sp_vote s v T = Some c"
    have "\<forall>v\<in>Q. sp_ballot s v T \<noteq> None"
      using w(1,5) assms(3) unfolding inv_votes_def by fastforce
    with w lift have "elected quorum s' T c l"
      unfolding elected_def by (intro exI [of _ Q] exI [of _ l] exI [of _ "[]"]) auto
    with w show ?thesis by simp
  qed
  with growsD(2) [OF assms(2)] show "T \<le> sp_term s' c" "elected quorum s' T c l"
    using order_trans by blast+
next
  fix n
  assume "sp_leads s' n"
  with assms(1) show "sp_llog s' (sp_term s' n) = Some (n, sp_log s' n)"
  proof cases
    case (propose T m l d)
    have "n = m" if "sp_term s n = T"
      using that leads_llog [OF assms(4), of n] leads_llog [OF assms(4), of m] propose \<open>sp_leads s' n\<close>
      by simp
    with propose leads_llog [OF assms(4), of n] \<open>sp_leads s' n\<close> show ?thesis by auto
  next
    case (win T m Q)
    then show ?thesis using leads_llog [OF assms(4), of n] \<open>sp_leads s' n\<close> by (auto split: if_splits)
  qed (use leads_llog [OF assms(4), of n] in \<open>auto split: if_splits\<close>)
qed

lemma kept_own: "sp_llog s T = Some (c, x) \<Longrightarrow> kept s n T x B"
  by (simp add: kept_def)

lemma kept_append:
  assumes "inv_acks s" "kept s n T x B"
  shows "kept s n T (x @ y) B"
  unfolding kept_def
proof (intro allI impI, elim conjE)
  fix c l i
  assume l: "sp_llog s T = Some (c, l)" "0 < i" "i \<le> sp_acked s n T" "fst (l ! (i - 1)) = T"
  from acked_le [OF assms(1) l(2,3)] l(1) have "i \<le> length l" by auto
  then have "take i (x @ y) = take i l" if "take i x = take i l"
    using take_eq_length [OF that] that by simp
  with assms(2) l show "take i (x @ y) = take i l \<or> (\<exists>T'>T. T' < B \<and> differs s T' (take i l))"
    unfolding kept_def by blast
qed

text \<open>Taking over entries of the current leader loses nothing but what that leader lacks.\<close>

lemma kept_accept:
  assumes inv: "inv_future s" "inv_logs s" "inv_acks s"
    and step: "T = sp_term s n" "sp_llog s T = Some (c, l)" "p \<le> k" "k \<le> length l"
      "p \<le> length (sp_log s n)" "p = 0 \<or> fst (sp_log s n ! (p - 1)) = fst (l ! (p - 1))"
    and m: "m = merge p (sp_log s n) (drop p (take k l))"
    and s': "sp_llog s' = sp_llog s" "sp_acked s' n = (sp_acked s n)(T := max (sp_acked s n T) k)"
  shows "kept s' n T0 m (Suc T)"
  unfolding kept_def
proof (intro allI impI, elim conjE)
  fix c0 l0 i
  assume l0: "sp_llog s' T0 = Some (c0, l0)" "0 < i" "i \<le> sp_acked s' n T0" "fst (l0 ! (i - 1)) = T0"
  have keeps: "take i m = take i l" if "take i (sp_log s n) = take i l" "i \<le> length l"
  proof -
    have "drop p l = drop p (take k l) @ drop k l"
      using step(3) by (metis append_take_drop_id drop_drop drop_take le_add_diff_inverse2)
    with merge_keeps [OF that(1) take_eq_length [OF that], of p "drop p (take k l)" "drop k l"] step(3,4) m that
    show ?thesis by simp
  qed
  have prefix: "take k m = take k l" using accept_result [OF inv(2) step(2-6) m] by auto
  show "take i m = take i l0 \<or> (\<exists>T'>T0. T' < Suc T \<and> differs s' T' (take i l0))"
  proof (cases "T0 = T \<and> i \<le> k")
    case True
    with take_eq_take_le [OF prefix] l0(1) s'(1) step(2) show ?thesis by auto
  next
    case False
    with l0(3) s'(2) have i: "i \<le> sp_acked s n T0" by (auto simp: max_def split: if_splits)
    then have "T0 \<le> T" using inv(1) l0(2) step(1) unfolding inv_future_def by (metis bot_nat_0.extremum_unique linorder_not_le not_gr_zero)
    have il: "i \<le> length l0" using acked_le [OF inv(3) l0(2) i] l0(1) s'(1) by auto
    have "kept s n T0 (sp_log s n) (Suc T)" using inv(3) step(1) unfolding inv_acks_def by blast
    with l0 i s'(1) consider "take i (sp_log s n) = take i l0"
      | T' where "T0 < T'" "T' < Suc T" "differs s T' (take i l0)"
      unfolding kept_def by auto
    then show ?thesis
    proof cases
      case 1
      show ?thesis
      proof (cases "take i l = take i l0")
        case True
        with keeps 1 take_eq_length [OF True il] show ?thesis by simp
      next
        case ne: False
        with l0(1) s'(1) step(2) \<open>T0 \<le> T\<close> have "T0 < T" by (auto simp: order_le_less)
        with ne il step(2) s'(1) show ?thesis by (auto simp: differs_take)
      qed
    next
      case 2
      with s'(1) show ?thesis by (auto simp: differs_def)
    qed
  qed
qed

lemma kept_cut:
  assumes inv: "inv_future s" "inv_acks s"
    and step: "T = sp_term s n" "sp_llog s T = Some (c, l)" "p < length (sp_log s n)"
      "fst (sp_log s n ! p) \<noteq> fst (l ! p)"
    and s': "sp_llog s' = sp_llog s" "sp_acked s' = sp_acked s"
  shows "kept s' n T0 (take p (sp_log s n)) (Suc T)"
  unfolding kept_def
proof (intro allI impI, elim conjE)
  fix c0 l0 i
  assume l0: "sp_llog s' T0 = Some (c0, l0)" "0 < i" "i \<le> sp_acked s' n T0" "fst (l0 ! (i - 1)) = T0"
  then have i: "i \<le> sp_acked s n T0" using s'(2) by simp
  then have "T0 \<le> T"
    using inv(1) l0(2) step(1) unfolding inv_future_def by (metis bot_nat_0.extremum_unique linorder_not_le not_gr_zero)
  have il: "i \<le> length l0" using acked_le [OF inv(2) l0(2) i] l0(1) s'(1) by auto
  have "kept s n T0 (sp_log s n) (Suc T)" using inv(2) step(1) unfolding inv_acks_def by blast
  with l0 i s'(1) consider "take i (sp_log s n) = take i l0"
    | T' where "T0 < T'" "T' < Suc T" "differs s T' (take i l0)"
    unfolding kept_def by auto
  then show "take i (take p (sp_log s n)) = take i l0 \<or> (\<exists>T'>T0. T' < Suc T \<and> differs s' T' (take i l0))"
  proof cases
    case 1
    show ?thesis
    proof (cases "i \<le> p")
      case True
      with 1 show ?thesis by (simp add: min_absorb1)
    next
      case False
      with take_eq_nth [OF 1, of p] step(4) have "take i l \<noteq> take i l0" by (metis linorder_not_le nth_take)
      moreover from this l0(1) s'(1) step(2) \<open>T0 \<le> T\<close> have "T0 < T" by (auto simp: order_le_less)
      ultimately show ?thesis using il step(2) s'(1) by (auto simp: differs_take)
    qed
  next
    case 2
    with s'(1) show ?thesis by (auto simp: differs_def)
  qed
qed

lemma acked_llog_step:
  assumes "spec_step quorum s s'" "grows s s'" "inv_future s" "inv_votes s" "inv_logs s"
    "inv_leaders quorum s" "inv_acks s"
    and "0 < sp_acked s' n T"
  shows "\<exists>c l. sp_llog s' T = Some (c, l) \<and> sp_acked s' n T \<le> length l"
proof -
  have old: ?thesis if "sp_acked s' n T = sp_acked s n T"
  proof -
    have "0 < sp_acked s n T" using that \<open>0 < sp_acked s' n T\<close> by simp
    with assms(7) obtain c l where "sp_llog s T = Some (c, l)" "sp_acked s n T \<le> length l"
      unfolding inv_acks_def by blast
    with growsD(1) [OF assms(2)] that show ?thesis by fastforce
  qed
  show ?thesis using assms(1)
  proof cases
    case (accept T' m c l p k)
    have "sp_acked s m T' \<le> length l"
      using assms(7) accept(4) unfolding inv_acks_def by (metis gr_zeroI le0 option.inject prod.inject)
    with accept old show ?thesis by (cases "n = m \<and> T = T'") auto
  qed (use old in \<open>auto split: if_splits\<close>)
qed

lemma kept_log_step:
  assumes "spec_step quorum s s'" "grows s s'" "inv_future s" "inv_votes s" "inv_logs s"
    "inv_leaders quorum s" "inv_acks s"
  shows "kept s' n T (sp_log s' n) (Suc (sp_term s' n))"
proof -
  note lift = kept_grows [OF assms(2,7)]
  have own: "kept s n T (sp_log s n) (Suc (sp_term s n))" for n T
    using assms(7) unfolding inv_acks_def by blast
  show ?thesis
    using assms(1)
  proof cases
    case (propose T' m l d)
    consider "n = m" "T = T'" | "n = m" "T \<noteq> T'" | "n \<noteq> m" by blast
    then show ?thesis
    proof cases
      case 1
      with propose show ?thesis by (auto intro: kept_own)
    next
      case 2
      with propose lift [OF _ kept_append [OF assms(7) own]] show ?thesis by auto
    next
      case 3
      with propose lift [OF _ own] show ?thesis by auto
    qed
  next
    case (win T' m Q)
    then show ?thesis using lift [OF _ own] by (cases "n = m \<and> T = T'") (auto intro: kept_own)
  next
    case (accept T' m c l p k)
    show ?thesis
    proof (cases "n = m")
      case True
      with kept_accept [OF assms(3,5,7) accept(2,4-8) refl, of s' T] accept show ?thesis
        by (auto simp: upd2_def)
    qed (use accept lift [OF _ own] in auto)
  next
    case (cut T' m c l p)
    show ?thesis
    proof (cases "n = m")
      case True
      with kept_cut [OF assms(3,7) cut(2,4,5,7), of s' T] cut show ?thesis by auto
    qed (use cut lift [OF _ own] in auto)
  qed (use lift [OF _ own] in auto)
qed

lemma kept_ballot_step:
  assumes "spec_step quorum s s'" "grows s s'" "inv_future s" "inv_votes s" "inv_logs s"
    "inv_leaders quorum s" "inv_acks s"
    and b: "sp_ballot s' n T' = Some x" and "T < T'"
  shows "kept s' n T x T'"
proof -
  note lift = kept_grows [OF assms(2,7)]
  have own: "kept s n T (sp_log s n) (Suc (sp_term s n))" for n T
    using assms(7) unfolding inv_acks_def by blast
  show ?thesis
    using step_ballot [OF assms(1) b]
  proof (elim disjE conjE)
    assume "sp_ballot s n T' = Some x"
    moreover from this have "T' \<le> sp_term s n"
      using inv_votes_ballot [OF assms(4)] assms(3) unfolding inv_future_def by (metis linorder_not_le option.distinct(1))
    then have "sp_acked s' n T = sp_acked s n T" using step_acked [OF assms(1), of n T] \<open>T < T'\<close> by auto
    ultimately show ?thesis using lift assms(7) \<open>T < T'\<close> unfolding inv_acks_def by blast
  next
    assume x: "x = sp_log s n" "sp_llog s T' = None" "sp_term s n \<le> T'" "T' \<le> sp_term s' n"
    then have "sp_acked s' n T = sp_acked s n T" using step_acked [OF assms(1), of n T] \<open>T < T'\<close> by auto
    moreover have "kept s n T x T'"
    proof -
      have "T'' < T'" if "T'' < Suc (sp_term s n)" "differs s T'' z" for T'' z
        using that x(2,3) by (auto simp: differs_def less_Suc_eq_le order_le_less)
      with own [of n T] x(1) show ?thesis unfolding kept_def by blast
    qed
    ultimately show ?thesis using lift by blast
  qed
qed

lemma inv_acks_step:
  assumes "spec_step quorum s s'" "grows s s'" "inv_future s" "inv_votes s" "inv_logs s"
    "inv_leaders quorum s" "inv_acks s"
  shows "inv_acks s'"
  using acked_llog_step [OF assms] kept_log_step [OF assms] kept_ballot_step [OF assms]
  unfolding inv_acks_def by blast

lemma safe_prefix_take: "safe_prefix quorum s B x \<Longrightarrow> safe_prefix quorum s B (take k x)"
proof (cases "take k x = []")
  case False
  assume "safe_prefix quorum s B x"
  with False obtain T i c l where "T \<le> B" "committed quorum s T i" "length x \<le> i"
    "sp_llog s T = Some (c, l)" "x = take (length x) l"
    by (auto simp: safe_prefix_def)
  moreover from this(5) have "take k x = take (length (take k x)) l"
    by (metis length_take min.commute take_take)
  moreover have "length (take k x) \<le> i" using \<open>length x \<le> i\<close> by simp
  ultimately show ?thesis unfolding safe_prefix_def by blast
qed (simp add: safe_prefix_def)

lemma safe_prefix_committed:
  assumes "committed quorum s T i" "sp_llog s T = Some (c, l)" "T \<le> B"
  shows "safe_prefix quorum s B (take i l)"
proof -
  have "i \<le> length l" using assms(1,2) by (auto simp: committed_def)
  then have "take i l = take (length (take i l)) l" "length (take i l) \<le> i" by (simp_all add: min_absorb2)
  with assms show ?thesis unfolding safe_prefix_def by blast
qed

context quorum_system
begin

lemma committed_kept_by_accept:
  assumes inv: "inv_votes s" "inv_logs s" "inv_leaders quorum s" "inv_acks s" "inv_commit quorum s"
    and step: "T = sp_term s n" "sp_llog s T = Some (c, l)" "p \<le> k" "k \<le> length l"
  shows "take (sp_commit s n) (merge p (sp_log s n) (drop p (take k l))) = take (sp_commit s n) (sp_log s n)"
proof -
  let ?x = "take (sp_commit s n) (sp_log s n)"
  from inv(5) step(1) have x: "sp_commit s n \<le> length (sp_log s n)" "safe_prefix quorum s T ?x"
    unfolding inv_commit_def by blast+
  have "?x = [] \<or> ?x = take (sp_commit s n) l"
  proof (cases "?x = []")
    case False
    with x obtain T0 i c0 l0 where t: "T0 \<le> T" "committed quorum s T0 i" "sp_commit s n \<le> i"
      "sp_llog s T0 = Some (c0, l0)" "?x = take (sp_commit s n) l0"
      unfolding safe_prefix_def by (auto simp: min_absorb2)
    have "take i l = take i l0" by (rule leader_completeness [OF inv(1-4) t(2,4) step(2) t(1)])
    with take_eq_take_le [OF this t(3)] t(5) show ?thesis by simp
  qed simp
  then have "?x = take (sp_commit s n) l" using x(1) by auto
  moreover have "drop p l = drop p (take k l) @ drop k l"
    using step(3) by (metis append_take_drop_id drop_drop drop_take le_add_diff_inverse2)
  ultimately show ?thesis using merge_keeps [of "sp_commit s n" "sp_log s n" l p] x(1) step(3,4) by simp
qed

lemma inv_commitD:
  assumes "inv_commit quorum s"
  shows "sp_commit s n \<le> length (sp_log s n)"
    "safe_prefix quorum s (sp_term s n) (take (sp_commit s n) (sp_log s n))"
    "sp_llog s T = Some (c, l) \<Longrightarrow> sp_announced s T \<le> length l"
    "sp_llog s T = Some (c, l) \<Longrightarrow> safe_prefix quorum s T (take (sp_announced s T) l)"
    "sp_leads s n \<Longrightarrow> sp_commit s n \<le> sp_announced s (sp_term s n)"
  using assms unfolding inv_commit_def by blast+

lemma commit_own_step:
  assumes "spec_step quorum s s'" "grows s s'" "inv_votes s" "inv_logs s" "inv_leaders quorum s"
    "inv_acks s" "inv_commit quorum s"
  shows "sp_commit s' n \<le> length (sp_log s' n) \<and>
    safe_prefix quorum s' (sp_term s' n) (take (sp_commit s' n) (sp_log s' n))"
proof -
  note lift = safe_prefix_grows [OF assms(2)] and old = inv_commitD [OF assms(7)]
  note lift_own = lift [OF _ old(2)]
  show ?thesis
    using assms(1)
  proof cases
    case (propose T m l d)
    with lift_own [of n "sp_term s n"] old(1) [of n] show ?thesis by auto
  next
    case (accept T m c l p k)
    show ?thesis
    proof (cases "n = m")
      case True
      let ?m = "merge p (sp_log s m) (drop p (take k l))"
      have eq: "take (sp_commit s m) ?m = take (sp_commit s m) (sp_log s m)"
        by (rule committed_kept_by_accept [OF assms(3-7) accept(2,4-6)])
      with take_eq_length [OF eq old(1)] lift_own [of m "sp_term s m"] True accept show ?thesis by simp
    qed (use accept lift_own [of n "sp_term s n"] old(1) [of n] in auto)
  next
    case (cut T m c l p)
    then show ?thesis
      using lift_own [of n "sp_term s n"] old(1) [of n] take_eq_take_le [OF cut(8,9)]
      by (cases "n = m") (auto simp: min_absorb1)
  next
    case (commit T m k)
    show ?thesis
    proof (cases "n = m")
      case True
      note llog = leads_llog [OF assms(5) commit(3)]
      have "k \<le> length (sp_log s m)" using commit(4) llog commit(2) by (auto simp: committed_def)
      with lift [OF _ safe_prefix_committed [OF commit(4) llog [folded commit(2)]]] True commit
      show ?thesis by auto
    qed (use commit lift_own [of n "sp_term s n"] old(1) [of n] in auto)
  next
    case (follow T m c l k)
    show ?thesis
    proof (cases "n = m")
      case True
      have "safe_prefix quorum s T (take k l)"
        using safe_prefix_take [OF old(4) [OF follow(3)], of k] follow(4) by (simp add: min_absorb1)
      with lift True follow show ?thesis by auto
    qed (use follow lift_own [of n "sp_term s n"] old(1) [of n] in auto)
  qed (use lift_own [of n] old(1) [of n] in \<open>auto simp: safe_prefix_def\<close>)
qed

lemma commit_announced_step:
  assumes "spec_step quorum s s'" "grows s s'" "inv_votes s" "inv_logs s" "inv_leaders quorum s"
    "inv_acks s" "inv_commit quorum s"
    and that: "sp_llog s' T = Some (c, l)"
  shows "sp_announced s' T \<le> length l \<and> safe_prefix quorum s' T (take (sp_announced s' T) l)"
proof -
  note lift = safe_prefix_grows [OF assms(2)] and old = inv_commitD [OF assms(7)]
  note lift_own = lift [OF _ old(2)]
  show ?thesis
    using assms(1)
  proof cases
    case (win T' n Q)
    then show ?thesis
      using that lift [OF order_refl old(4)] old(3) lift_own [of n T'] old(1) [of n]
      by (auto split: if_splits)
  next
    case (propose T' n l' d)
    then show ?thesis
      using that lift [OF order_refl old(4) [OF leads_llog [OF assms(5) propose(3)]]]
        old(3) [OF leads_llog [OF assms(5) propose(3)]] lift [OF order_refl old(4)] old(3)
      by (auto split: if_splits)
  next
    case (commit T' n k)
    have "k \<le> length l \<and> safe_prefix quorum s' T (take k l)" if "T = T'"
      using lift [OF order_refl safe_prefix_committed [OF commit(4)]] commit that
        \<open>sp_llog s' T = Some (c, l)\<close> by (auto simp: committed_def)
    then show ?thesis
      using commit that lift [OF order_refl old(4)] old(3) by (auto simp: max_def)
  qed (use that lift [OF order_refl old(4)] old(3) in auto)
qed

lemma inv_commit_step:
  assumes "spec_step quorum s s'" "grows s s'" "inv_votes s" "inv_logs s" "inv_leaders quorum s"
    "inv_acks s" "inv_commit quorum s"
  shows "inv_commit quorum s'"
proof -
  note old = inv_commitD [OF assms(7)]
  have "sp_commit s' n \<le> sp_announced s' (sp_term s' n)" if "sp_leads s' n" for n
    using assms(1)
  proof cases
    case (win T m Q)
    then show ?thesis
      using that leads_llog [OF assms(5), of n] old(5) [of n] by (auto split: if_splits)
  qed (use that old(5) [of n] in \<open>auto split: if_splits intro: order_trans\<close>)
  with commit_own_step [OF assms] commit_announced_step [OF assms] show ?thesis unfolding inv_commit_def by blast
qed

lemma spec_inv_step:
  assumes "spec_step quorum s s'" "spec_inv quorum s"
  shows "spec_inv quorum s'" "grows s s'"
proof -
  from assms(2) have inv: "inv_future s" "inv_votes s" "inv_logs s" "inv_leaders quorum s"
    "inv_acks s" "inv_commit quorum s" by (simp_all add: spec_inv_def)
  show g: "grows s s'" by (rule step_grows [OF assms(1) inv(1,2,4,5)])
  show "spec_inv quorum s'"
    using inv_future_step [OF assms(1) inv(1)] inv_votes_step [OF assms(1) g inv(2)]
      inv_logs_step [OF assms(1) g inv(3,4)] inv_leaders_step [OF assms(1) g inv(2,4)]
      inv_acks_step [OF assms(1) g inv(1-5)] inv_commit_step [OF assms(1) g inv(2-6)]
    by (simp add: spec_inv_def)
qed

lemma spec_inv_init: "spec_inv quorum spec_init"
  by (simp add: spec_inv_def spec_init_def inv_future_def inv_votes_def inv_logs_def inv_leaders_def
      inv_acks_def inv_commit_def good_log_def kept_def safe_prefix_def)

lemma spec_reachable_inv: "spec_reachable quorum s \<Longrightarrow> spec_inv quorum s"
  by (induction rule: spec_reachable.induct) (auto intro: spec_inv_init spec_inv_step)

text \<open>The promises: one leader per term, and committed prefixes that agree between all nodes.\<close>

lemma one_leader:
  "spec_inv quorum s \<Longrightarrow> sp_leads s n \<Longrightarrow> sp_leads s m \<Longrightarrow> sp_term s n = sp_term s m \<Longrightarrow> n = m"
  unfolding spec_inv_def by (metis leads_llog option.inject prod.inject)

lemma commits_agree:
  assumes "spec_inv quorum s" "k \<le> sp_commit s n" "k \<le> sp_commit s m"
  shows "take k (sp_log s n) = take k (sp_log s m)"
proof -
  from assms(1) have inv: "inv_votes s" "inv_logs s" "inv_leaders quorum s" "inv_acks s"
    "inv_commit quorum s" by (simp_all add: spec_inv_def)
  let ?x = "take (sp_commit s n) (sp_log s n)"
  let ?y = "take (sp_commit s m) (sp_log s m)"
  have "take (length ?y) ?x = take (length ?x) ?y"
    using safe_prefixes_agree [OF inv(1-4)] inv(5) unfolding inv_commit_def by blast
  moreover have "length ?x = sp_commit s n" "length ?y = sp_commit s m"
    using inv(5) unfolding inv_commit_def by (simp_all add: min_absorb2)
  ultimately have "take (min (sp_commit s n) (sp_commit s m)) (sp_log s n) =
      take (min (sp_commit s n) (sp_commit s m)) (sp_log s m)"
    by (metis min.commute take_take)
  then show ?thesis by (rule take_eq_take_le) (use assms(2,3) in simp)
qed

end

end
