(* ===== verification/Raft_Log.thy ===== *)
theory Raft_Log
  imports Raft Raft_Spec
begin

section \<open>The log of a node\<close>

text \<open>
  The vector \<^verbatim>\<open>log_\<close> with its sentinel, read as a list of terms and data: what the accessors
  return, and that the loop of \<^verbatim>\<open>HandleAppendEntries\<close> is \<open>merge\<close>.
\<close>

definition log_ok :: "LogEntry list \<Rightarrow> bool" where
  "log_ok l \<longleftrightarrow> l \<noteq> [] \<and> hd l = sentinel \<and> length l < 2 ^ 64 \<and>
     (\<forall>i<length l. le_index (l ! i) = of_nat i)"

definition abs_entry :: "LogEntry \<Rightarrow> nat \<times> bytes" where
  "abs_entry e = (unat (le_term e), le_data e)"

definition abs_log :: "LogEntry list \<Rightarrow> bytes plog" where
  "abs_log l = map abs_entry (tl l)"

lemma length_abs_log: "length (abs_log l) = length l - 1"
  by (simp add: abs_log_def)

lemma abs_log_nth: "i < length l - 1 \<Longrightarrow> abs_log l ! i = abs_entry (l ! Suc i)"
  by (simp add: abs_log_def nth_tl)

lemma abs_log_append: "l \<noteq> [] \<Longrightarrow> abs_log (l @ es) = abs_log l @ map abs_entry es"
  by (simp add: abs_log_def)

lemma abs_log_take: "0 < n \<Longrightarrow> abs_log (take n l) = take (n - 1) (abs_log l)"
  by (cases l; cases n) (simp_all add: abs_log_def take_map)

lemma log_ok_length: "log_ok l \<Longrightarrow> 0 < length l" "log_ok l \<Longrightarrow> length l < 2 ^ 64"
  by (simp_all add: log_ok_def)

lemma log_ok_sentinel: "log_ok l \<Longrightarrow> l ! 0 = sentinel"
  by (auto simp: log_ok_def hd_conv_nth)

lemma unat_LastIndex:
  assumes "log_ok (log r)"
  shows "unat (LastIndex r) = length (log r) - 1"
proof -
  have "LastIndex r = of_nat (length (log r) - 1)"
    using assms by (cases "log r") (simp_all add: LastIndex_def log_ok_def)
  moreover have "length (log r) - 1 < 2 ^ 64" using log_ok_length(2) [OF assms] by linarith
  ultimately show ?thesis by (simp add: unat_of_nat_u64)
qed

lemma index_less:
  assumes "log_ok (log r)" "i \<le> LastIndex r"
  shows "unat i < length (log r)"
  using assms(2) unat_LastIndex [OF assms(1)] log_ok_length(1) [OF assms(1)]
  unfolding word_le_nat_alt by linarith

lemma unat_TermAt:
  assumes "log_ok (log r)" "unat i \<le> length (abs_log (log r))"
  shows "unat (TermAt r i) = (if unat i = 0 then 0 else fst (abs_log (log r) ! (unat i - 1)))"
proof -
  have "\<not> LastIndex r < i"
    using assms by (simp add: word_less_nat_alt unat_LastIndex length_abs_log)
  then have "TermAt r i = le_term (log r ! unat i)" by (simp add: TermAt_def)
  then show ?thesis
    using assms log_ok_length [OF assms(1)] log_ok_sentinel [OF assms(1)]
    by (auto simp: abs_log_nth abs_entry_def length_abs_log sentinel_def)
qed

lemma unat_LastTerm:
  assumes "log_ok (log r)"
  shows "unat (LastTerm r) = last_term (abs_log (log r))"
proof (cases "tl (log r) = []")
  case True
  with assms have "log r = [sentinel]" by (cases "log r") (auto simp: log_ok_def)
  then show ?thesis by (simp add: LastTerm_def last_term_def abs_log_def sentinel_def)
next
  case False
  then have "last (log r) = last (tl (log r))" by (simp add: last_tl)
  with False show ?thesis by (simp add: LastTerm_def last_term_def abs_log_def last_map abs_entry_def)
qed

lemma log_ok_new [simp]: "log_ok [sentinel]"
  by (simp add: log_ok_def sentinel_def)

lemma log_ok_take: "log_ok l \<Longrightarrow> 0 < n \<Longrightarrow> log_ok (take n l)"
  by (auto simp: log_ok_def hd_take)

lemma log_ok_snoc:
  "log_ok l \<Longrightarrow> Suc (length l) < 2 ^ 64 \<Longrightarrow> le_index e = of_nat (length l) \<Longrightarrow> log_ok (l @ [e])"
  by (auto simp: log_ok_def nth_append less_Suc_eq)


subsection \<open>The append loop\<close>

text \<open>Entries with consecutive indices behind index \<open>p\<close>.\<close>

definition consecutive :: "nat \<Rightarrow> LogEntry list \<Rightarrow> bool" where
  "consecutive p es \<longleftrightarrow> (\<forall>j<length es. le_index (es ! j) = of_nat (Suc (p + j)))"

lemma consecutive_Cons:
  "consecutive p (e # es) \<longleftrightarrow> le_index e = of_nat (Suc p) \<and> consecutive (Suc p) es"
  by (auto simp: consecutive_def less_Suc_eq_0_disj)

lemma append_entry_frame:
  "append_entry r e = r\<lparr>log := log (append_entry r e), stable_index := stable_index (append_entry r e)\<rparr>"
  by (simp add: append_entry_def)

lemma append_entries_frame:
  "\<exists>l st. foldl append_entry r es = r\<lparr>log := l, stable_index := st\<rparr>"
proof (induction es arbitrary: r)
  case Nil
  then show ?case by (intro exI [of _ "log r"] exI [of _ "stable_index r"]) simp
next
  case (Cons e es)
  from Cons.IH [of "append_entry r e"] obtain l st where
    "foldl append_entry (append_entry r e) es = (append_entry r e)\<lparr>log := l, stable_index := st\<rparr>" by blast
  then have "foldl append_entry r (e # es) = r\<lparr>log := l, stable_index := st\<rparr>"
    by (subst (asm) append_entry_frame) simp
  then show ?case by blast
qed

text \<open>Once the log has been cut or run past, the rest of the entries is appended.\<close>

lemma append_entries_push:
  assumes "log_ok (log r)" "consecutive (length (abs_log (log r))) es" "length (log r) + length es < 2 ^ 64"
  shows "log (foldl append_entry r es) = log r @ es \<and> log_ok (log r @ es) \<and>
    stable_index (foldl append_entry r es) = stable_index r"
  using assms
proof (induction es arbitrary: r)
  case Nil
  then show ?case by simp
next
  case (Cons e es)
  have l: "Suc (length (abs_log (log r))) = length (log r)"
    using log_ok_length(1) [OF Cons.prems(1)] by (simp add: length_abs_log)
  with Cons.prems(2) have e: "le_index e = of_nat (length (log r))" "consecutive (length (log r)) es"
    by (simp_all add: consecutive_Cons)
  have "unat (le_index e) = length (log r)" using Cons.prems(3) by (simp add: e unat_of_nat_u64)
  with l have "\<not> le_index e \<le> LastIndex r"
    by (simp add: word_le_nat_alt unat_LastIndex [OF Cons.prems(1)])
  then have step: "append_entry r e = r\<lparr>log := log r @ [e]\<rparr>" by (simp add: append_entry_def)
  have "log_ok (log r @ [e])" using Cons.prems(1,3) e by (intro log_ok_snoc) auto
  with Cons.IH [of "r\<lparr>log := log r @ [e]\<rparr>"] e(2) Cons.prems(3) show ?case
    by (simp add: step length_abs_log)
qed

lemma append_entries_merge:
  assumes "log_ok (log r)" "consecutive p es" "p \<le> length (abs_log (log r))" "Suc (p + length es) < 2 ^ 64"
  shows "abs_log (log (foldl append_entry r es)) = merge p (abs_log (log r)) (map abs_entry es) \<and>
    log_ok (log (foldl append_entry r es))"
  using assms
proof (induction es arbitrary: p r)
  case Nil
  then show ?case by simp
next
  case (Cons e es)
  let ?A = "abs_log (log r)"
  have e: "le_index e = of_nat (Suc p)" "consecutive (Suc p) es" "unat (le_index e) = Suc p"
    using Cons.prems(2,4) by (simp_all add: consecutive_Cons unat_of_nat_u64 del: of_nat_Suc)
  note li = unat_LastIndex [OF Cons.prems(1)]
  show ?case
  proof (cases "p < length ?A")
    case False
    with Cons.prems(3) have p: "p = length ?A" by simp
    have "length (log r) + length (e # es) < 2 ^ 64"
      using Cons.prems(4) p log_ok_length(1) [OF Cons.prems(1)] by (simp add: length_abs_log)
    from append_entries_push [OF Cons.prems(1) Cons.prems(2) [unfolded p] this] p Cons.prems(1)
    show ?thesis by (simp add: abs_log_append log_ok_def)
  next
    case True
    then have le: "le_index e \<le> LastIndex r"
      using e(3) by (simp add: word_le_nat_alt li length_abs_log)
    have tm: "unat (TermAt r (le_index e)) = fst (?A ! p)"
      using unat_TermAt [OF Cons.prems(1), of "le_index e"] True e(3) by simp
    show ?thesis
    proof (cases "fst (?A ! p) = fst (abs_entry e)")
      case eq: True
      then have "TermAt r (le_index e) = le_term e"
        using tm by (simp add: abs_entry_def word_unat_eq_iff)
      then have "append_entry r e = r" using le by (simp add: append_entry_def)
      with Cons.IH [OF Cons.prems(1) e(2)] True eq Cons.prems(4) show ?thesis by simp
    next
      case ne: False
      then have "TermAt r (le_index e) \<noteq> le_term e" using tm by (auto simp: abs_entry_def)
      then obtain st where step: "append_entry r e = r\<lparr>log := take (Suc p) (log r) @ [e], stable_index := st\<rparr>"
        using le e(3) by (auto simp: append_entry_def)
      let ?r = "r\<lparr>log := take (Suc p) (log r) @ [e], stable_index := st\<rparr>"
      have len: "length (take (Suc p) (log r)) = Suc p"
        using True by (simp add: length_abs_log)
      have ok: "log_ok (log ?r)"
        using log_ok_take [OF Cons.prems(1), of "Suc p"] len Cons.prems(4) e(1)
        by (auto intro!: log_ok_snoc)
      have "consecutive (length (abs_log (log ?r))) es" "length (log ?r) + length es < 2 ^ 64"
        using e(2) len Cons.prems(4) by (simp_all add: length_abs_log)
      from append_entries_push [OF ok this] ne log_ok_take [OF Cons.prems(1), of "Suc p"]
      show ?thesis
        by (simp add: step abs_log_append abs_log_take log_ok_def)
    qed
  qed
qed

lemma consecutive_take: "consecutive p es \<Longrightarrow> consecutive p (take i es)"
  by (simp add: consecutive_def)

text \<open>
  What of an append can be on disk when it is interrupted, where everything before was: the log
  up to any point behind the watermark. It is the log after an initial part of the entries, or
  the log cut right before the first entry that conflicts.
\<close>

lemma append_entries_push_take:
  assumes "log_ok (log r)" "consecutive (length (abs_log (log r))) es" "length (log r) + length es < 2 ^ 64"
  shows "log (foldl append_entry r (take i es)) = log r @ take i es"
  using append_entries_push [OF assms(1) consecutive_take [OF assms(2)], of i] assms(3) by simp

text \<open>The first entry conflicts: behind it everything is pushed.\<close>

lemma append_entries_conflict:
  assumes "log_ok (log r)" "consecutive p (e # es)" "p < length (abs_log (log r))" "Suc (p + length (e # es)) < 2 ^ 64"
    and "stable_index r = LastIndex r" "fst (abs_log (log r) ! p) \<noteq> fst (abs_entry e)"
    and "unat (stable_index (foldl append_entry r (e # es))) < k"
  shows "(\<exists>j. take k (log (foldl append_entry r (e # es))) = log (foldl append_entry r (take j (e # es)))) \<or>
    take k (log (foldl append_entry r (e # es))) = take (Suc p) (log r)"
proof -
  have e: "le_index e = of_nat (Suc p)" "consecutive (Suc p) es" "unat (le_index e) = Suc p"
    using assms(2,4) by (simp_all add: consecutive_Cons unat_of_nat_u64 del: of_nat_Suc)
  have le: "le_index e \<le> LastIndex r"
    using e(3) assms(3) by (simp add: word_le_nat_alt unat_LastIndex [OF assms(1)] length_abs_log)
  have "TermAt r (le_index e) \<noteq> le_term e"
    using unat_TermAt [OF assms(1), of "le_index e"] assms(3,6) e(3) by (auto simp: abs_entry_def)
  moreover have "le_index e - 1 = of_nat p" using e(1) by simp
  ultimately have step: "append_entry r e = r\<lparr>log := take (Suc p) (log r) @ [e], stable_index := of_nat p\<rparr>"
    using le e(3) assms(5) by (simp add: append_entry_def)
  let ?r = "r\<lparr>log := take (Suc p) (log r) @ [e], stable_index := of_nat p\<rparr>"
  have len: "length (take (Suc p) (log r)) = Suc p" using assms(3) by (simp add: length_abs_log)
  have ok: "log_ok (log ?r)"
    using log_ok_take [OF assms(1), of "Suc p"] len assms(4) e(1) by (auto intro!: log_ok_snoc)
  have con: "consecutive (length (abs_log (log ?r))) es" "length (log ?r) + length es < 2 ^ 64"
    using e(2) len assms(4) by (simp_all add: length_abs_log)
  note push = append_entries_push [OF ok con]
  have "unat (of_nat p :: u64) = p" using assms(4) by (simp add: unat_of_nat_u64)
  then have k: "p < k" using assms(7) push step by simp
  show ?thesis
  proof (cases "k = Suc p")
    case True
    with push len show ?thesis by (simp add: step)
  next
    case False
    let ?i = "k - Suc (Suc p)"
    have "take (Suc ?i) (e # es) = e # take ?i es" "k - Suc p = Suc ?i" using k False by auto
    with append_entries_push_take [OF ok con, of ?i] push len k show ?thesis
      by (intro disjI1 exI [of _ "Suc ?i"]) (simp add: step)
  qed
qed

lemma append_entries_partial:
  assumes "log_ok (log r)" "consecutive p es" "p \<le> length (abs_log (log r))" "Suc (p + length es) < 2 ^ 64"
    and "stable_index r = LastIndex r" "unat (stable_index (foldl append_entry r es)) < k"
  shows "(\<exists>j. take k (log (foldl append_entry r es)) = log (foldl append_entry r (take j es))) \<or>
    (\<exists>q. take k (log (foldl append_entry r es)) = take (Suc q) (log r) \<and> p \<le> q \<and> q < length (abs_log (log r)) \<and>
       q - p < length es \<and> fst (abs_log (log r) ! q) \<noteq> fst (abs_entry (es ! (q - p))) \<and>
       (q = p \<or> fst (abs_log (log r) ! (q - 1)) = fst (abs_entry (es ! (q - 1 - p)))))"
  using assms(2-4,6)
proof (induction es arbitrary: p)
  case Nil
  have "take k (log r) = log r"
    using Nil.prems(4) assms(5) unat_LastIndex [OF assms(1)] by simp
  then show ?case by simp
next
  case (Cons e es)
  let ?A = "abs_log (log r)"
  have e: "le_index e = of_nat (Suc p)" "consecutive (Suc p) es" "unat (le_index e) = Suc p"
    using Cons.prems(1,3) by (simp_all add: consecutive_Cons unat_of_nat_u64 del: of_nat_Suc)
  note li = unat_LastIndex [OF assms(1)]
  show ?case
  proof (cases "p < length ?A")
    case False
    with Cons.prems(2) have p: "p = length ?A" by simp
    have len: "length (log r) + length (e # es) < 2 ^ 64"
      using Cons.prems(3) p log_ok_length(1) [OF assms(1)] by (simp add: length_abs_log)
    note push = append_entries_push [OF assms(1) Cons.prems(1) [unfolded p] len]
    have "length (log r) \<le> k" using push Cons.prems(4) assms(5) li by simp
    with push append_entries_push_take [OF assms(1) Cons.prems(1) [unfolded p] len, of "k - length (log r)"]
    show ?thesis by (intro disjI1 exI [of _ "k - length (log r)"]) simp
  next
    case True
    then have le: "le_index e \<le> LastIndex r"
      using e(3) by (simp add: word_le_nat_alt li length_abs_log)
    have tm: "unat (TermAt r (le_index e)) = fst (?A ! p)"
      using unat_TermAt [OF assms(1), of "le_index e"] True e(3) by simp
    show ?thesis
    proof (cases "fst (?A ! p) = fst (abs_entry e)")
      case eq: True
      then have "TermAt r (le_index e) = le_term e"
        using tm by (simp add: abs_entry_def word_unat_eq_iff)
      then have skip: "append_entry r e = r" using le by (simp add: append_entry_def)
      have "Suc p \<le> length ?A" "Suc (Suc p + length es) < 2 ^ 64"
        "unat (stable_index (foldl append_entry r es)) < k" using True Cons.prems(3,4) skip by simp_all
      from Cons.IH [OF e(2) this] show ?thesis
      proof (rule disjE; elim exE)
        fix j assume "take k (log (foldl append_entry r es)) = log (foldl append_entry r (take j es))"
        then show ?thesis by (intro disjI1 exI [of _ "Suc j"]) (simp add: skip)
      next
        fix q assume "take k (log (foldl append_entry r es)) = take (Suc q) (log r) \<and> Suc p \<le> q \<and>
          q < length ?A \<and> q - Suc p < length es \<and> fst (?A ! q) \<noteq> fst (abs_entry (es ! (q - Suc p))) \<and>
          (q = Suc p \<or> fst (?A ! (q - 1)) = fst (abs_entry (es ! (q - 1 - Suc p))))"
        with eq show ?thesis by (intro disjI2 exI [of _ q]) (auto simp: skip nth_Cons')
      qed
    next
      case False
      from append_entries_conflict [OF assms(1) Cons.prems(1) \<open>p < length ?A\<close> Cons.prems(3) assms(5) False Cons.prems(4)]
      show ?thesis by (elim disjE) (blast, intro disjI2 exI [of _ p], use \<open>p < length ?A\<close> False in simp)
    qed
  qed
qed
text \<open>The loop over the peers of \<^verbatim>\<open>BecomeLeader\<close>.\<close>

lemma set_peers_foldl:
  "foldl (\<lambda>r peer. r\<lparr>next_index := (next_index r)(peer := LastIndex r + 1),
       match_index := (match_index r)(peer := 0)\<rparr>) r ps =
   r\<lparr>next_index := (\<lambda>p. if p \<in> set ps then LastIndex r + 1 else next_index r p),
     match_index := (\<lambda>p. if p \<in> set ps then 0 else match_index r p)\<rparr>"
  by (induction ps arbitrary: r) (auto simp: LastIndex_def fun_eq_iff intro!: Raft.equality)

end
