(* ===== verification/Raft_Node.thy ===== *)
theory Raft_Node
  imports Raft_Log
begin

section \<open>One node at a time\<close>

text \<open>
  What the layers around the Raft core rely on, call by call: the hard state only moves forward
  and is marked dirty when it moves, the watermark \<^verbatim>\<open>stable_index_\<close> never covers an entry that
  was replaced, the commit rule, and the hand-over of committed entries.
\<close>

subsection \<open>What a role change leaves alone\<close>

lemma Broadcast_frame: "\<exists>ms. BroadcastAppendEntries r = r\<lparr>out_msgs := ms\<rparr>"
proof -
  have "\<exists>ms. foldl SendAppendEntries r ps = r\<lparr>out_msgs := ms\<rparr>" for ps
  proof (induction ps rule: rev_induct)
    case Nil
    show ?case by (intro exI [of _ "out_msgs r"]) simp
  next
    case (snoc p ps)
    then show ?case by (auto simp: SendAppendEntries_def Send_def)
  qed
  then show ?thesis by (simp add: BroadcastAppendEntries_def)
qed

lemma BecomeLeader_frame:
  "\<exists>ni mi ms. BecomeLeader r = r\<lparr>role := kLeader, leader := raft_id r, heartbeat_elapsed := 0,
     next_index := ni, match_index := mi, out_msgs := ms\<rparr>"
proof -
  obtain ni mi where f: "BecomeLeader r = BroadcastAppendEntries
      (r\<lparr>role := kLeader, leader := raft_id r, heartbeat_elapsed := 0, next_index := ni, match_index := mi\<rparr>)"
    unfolding BecomeLeader_def Let_def set_peers_foldl by simp
  obtain ms where "BroadcastAppendEntries (r\<lparr>role := kLeader, leader := raft_id r, heartbeat_elapsed := 0,
      next_index := ni, match_index := mi\<rparr>) = r\<lparr>role := kLeader, leader := raft_id r, heartbeat_elapsed := 0,
      next_index := ni, match_index := mi, out_msgs := ms\<rparr>" using Broadcast_frame by blast
  then show ?thesis unfolding f by blast
qed

lemma BecomeCandidate_frame:
  "\<exists>ro ld hb ni mi ms. BecomeCandidate r = r\<lparr>current_term := current_term r + 1, voted_for := raft_id r,
     hard_state_dirty := True, role := ro, leader := ld, election_elapsed := 0, votes_granted := [raft_id r],
     heartbeat_elapsed := hb, next_index := ni, match_index := mi, out_msgs := ms\<rparr>"
proof -
  let ?r = "r\<lparr>current_term := current_term r + 1, voted_for := raft_id r, hard_state_dirty := True,
    role := kCandidate, leader := 0, election_elapsed := 0, votes_granted := [raft_id r]\<rparr>"
  have "\<exists>ms. foldl (\<lambda>r peer. Send r (RequestVote_for r peer)) ?r ps = ?r\<lparr>out_msgs := ms\<rparr>" for ps
  proof (induction ps rule: rev_induct)
    case Nil
    show ?case by (intro exI [of _ "out_msgs r"]) simp
  next
    case (snoc p ps)
    then show ?case by (auto simp: Send_def)
  qed
  then obtain ms where ms: "foldl (\<lambda>r peer. Send r (RequestVote_for r peer)) ?r (other_peers ?r) = ?r\<lparr>out_msgs := ms\<rparr>" by blast
  obtain ni mi ms' where "BecomeLeader ?r = ?r\<lparr>role := kLeader, leader := raft_id ?r, heartbeat_elapsed := 0,
     next_index := ni, match_index := mi, out_msgs := ms'\<rparr>" using BecomeLeader_frame by blast
  show ?thesis
  proof (cases "QuorumSize ?r \<le> length (votes_granted ?r)")
    case True
    then show ?thesis unfolding BecomeCandidate_def Let_def if_P [OF True] \<open>BecomeLeader ?r = _\<close>
      by (intro exI Raft.equality) simp_all
  next
    case False
    then show ?thesis unfolding BecomeCandidate_def Let_def if_not_P [OF False] ms
      by (intro exI Raft.equality) simp_all
  qed
qed


subsection \<open>The hard state\<close>

definition hard_state_kept :: "Raft \<Rightarrow> Raft \<Rightarrow> bool" where
  "hard_state_kept r r' \<longleftrightarrow> current_term r' = current_term r \<and> voted_for r' = voted_for r \<and>
     hard_state_dirty r' = hard_state_dirty r"

definition hard_state_advances :: "Raft \<Rightarrow> Raft \<Rightarrow> bool" where
  "hard_state_advances r r' \<longleftrightarrow>
     current_term r \<le> current_term r' \<and>
     (current_term r' = current_term r \<and> voted_for r \<noteq> 0 \<longrightarrow> voted_for r' = voted_for r) \<and>
     (hard_state_dirty r \<or> (current_term r', voted_for r') \<noteq> (current_term r, voted_for r) \<longrightarrow>
        hard_state_dirty r')"

text \<open>All the storage relies on: a hard state that is new, or not stored yet, is marked dirty.\<close>

definition hard_state_noted :: "Raft \<Rightarrow> Raft \<Rightarrow> bool" where
  "hard_state_noted r r' \<longleftrightarrow>
     (hard_state_dirty r \<or> (current_term r', voted_for r') \<noteq> (current_term r, voted_for r) \<longrightarrow> hard_state_dirty r')"

lemma hard_state_advances_noted: "hard_state_advances r r' \<Longrightarrow> hard_state_noted r r'"
  by (simp add: hard_state_advances_def hard_state_noted_def)

lemma hard_state_kept_trans: "hard_state_kept r r1 \<Longrightarrow> hard_state_kept r1 r2 \<Longrightarrow> hard_state_kept r r2"
  by (simp add: hard_state_kept_def)

lemma hard_state_advances_kept:
  "hard_state_advances r r1 \<Longrightarrow> hard_state_kept r1 r2 \<Longrightarrow> hard_state_advances r r2"
  by (simp add: hard_state_advances_def hard_state_kept_def)

lemma hard_state_kept_advances: "hard_state_kept r r' \<Longrightarrow> hard_state_advances r r'"
  by (simp add: hard_state_advances_def hard_state_kept_def)

lemma hard_state_kept_foldl:
  "(\<And>r x. hard_state_kept r (f r x)) \<Longrightarrow> hard_state_kept r (foldl f r xs)"
  by (induction xs arbitrary: r) (auto simp: hard_state_kept_def)

lemma Send_kept: "hard_state_kept r (Send r m)"
  by (simp add: hard_state_kept_def Send_def)

lemma Broadcast_kept: "hard_state_kept r (BroadcastAppendEntries r)"
  using Broadcast_frame [of r] by (auto simp: hard_state_kept_def)

lemma BecomeLeader_kept: "hard_state_kept r (BecomeLeader r)"
  using BecomeLeader_frame [of r] by (auto simp: hard_state_kept_def)

lemma MaybeCommit_loop_result: "\<exists>c. MaybeCommit_loop r n = r\<lparr>commit_index := c\<rparr>"
proof (induction r n rule: MaybeCommit_loop.induct)
  case (1 r n)
  have "\<exists>c. r = r\<lparr>commit_index := c\<rparr>" by (rule exI [of _ "commit_index r"]) simp
  with 1 show ?case by (subst MaybeCommit_loop.simps) auto
qed

lemma MaybeCommit_kept: "hard_state_kept r (MaybeCommit r)"
  using MaybeCommit_loop_result [of r "LastIndex r"] by (auto simp: MaybeCommit_def hard_state_kept_def)

lemma HandleAppendEntriesResp_kept: "hard_state_kept r (HandleAppendEntriesResp r m)"
  by (auto simp: HandleAppendEntriesResp_def Let_def hard_state_kept_def
      intro!: hard_state_kept_trans [OF _ MaybeCommit_kept, unfolded hard_state_kept_def])

lemma HandleAppendEntries_kept: "hard_state_kept r (HandleAppendEntries r m)"
proof -
  obtain l st where "foldl append_entry (r\<lparr>leader := msg_from m, election_elapsed := 0\<rparr>) (entries m) =
      r\<lparr>leader := msg_from m, election_elapsed := 0, log := l, stable_index := st\<rparr>"
    using append_entries_frame [of "r\<lparr>leader := msg_from m, election_elapsed := 0\<rparr>" "entries m"] by auto
  then show ?thesis by (simp add: HandleAppendEntries_def Let_def hard_state_kept_def Send_def)
qed

lemma HandleRequestVote_advances: "hard_state_advances r (HandleRequestVote r m)"
  by (auto simp: HandleRequestVote_def Let_def hard_state_advances_def Send_def new_Message_def)

lemma BecomeFollower_advances: "current_term r \<le> t \<Longrightarrow> hard_state_advances r (BecomeFollower r t lead)"
  by (auto simp: BecomeFollower_def Let_def hard_state_advances_def)

lemma StepRole_advances: "current_term r \<le> msg_term m \<Longrightarrow> hard_state_advances r (StepRole r m)"
proof -
  assume "current_term r \<le> msg_term m"
  note follower = hard_state_advances_kept [OF BecomeFollower_advances [OF this] HandleAppendEntries_kept]
  have vote: "hard_state_kept r (if msg_from m \<in> set (votes_granted r) then r
      else r\<lparr>votes_granted := votes_granted r @ [msg_from m]\<rparr>)"
    by (simp add: hard_state_kept_def)
  show ?thesis
    using follower HandleRequestVote_advances [of r m] vote hard_state_kept_trans [OF vote BecomeLeader_kept]
      HandleAppendEntries_kept [of r m] HandleAppendEntriesResp_kept [of r m]
    by (auto simp: StepRole_def StepFollower_def StepCandidate_def StepLeader_def Let_def
        hard_state_kept_advances hard_state_kept_def [of r r] split: Role.splits MessageType.splits)
qed

lemma Step_advances: "hard_state_advances r (Step r m)"
proof -
  consider "msg_term m > current_term r" | "msg_term m < current_term r" | "msg_term m = current_term r"
    using linorder_less_linear by blast
  then show ?thesis
  proof cases
    case 1
    let ?f = "BecomeFollower r (msg_term m) (if msg_type m = kAppendEntries then msg_from m else 0)"
    have f: "current_term ?f = msg_term m" "hard_state_dirty ?f"
      using 1 by (simp_all add: BecomeFollower_def Let_def)
    have "hard_state_advances ?f (StepRole ?f m)" by (rule StepRole_advances) (simp add: f)
    with 1 f show ?thesis by (auto simp: Step_def hard_state_advances_def)
  next
    case 2
    then show ?thesis
      by (auto simp: Step_def Let_def Send_def hard_state_advances_def)
  next
    case 3
    with StepRole_advances [of r m] show ?thesis by (simp add: Step_def)
  qed
qed


lemma Tick_advances:
  assumes "current_term r \<noteq> - 1"
  shows "hard_state_advances r (Tick r)"
proof -
  have "hard_state_kept r (BroadcastAppendEntries (r\<lparr>heartbeat_elapsed := 0\<rparr>))"
    by (rule hard_state_kept_trans [OF _ Broadcast_kept]) (simp add: hard_state_kept_def)
  moreover have "hard_state_advances r (BecomeCandidate (r\<lparr>election_elapsed := e\<rparr>))" for e
    using BecomeCandidate_frame [of "r\<lparr>election_elapsed := e\<rparr>"] u64_less_succ [OF assms]
    by (auto simp: hard_state_advances_def)
  ultimately show ?thesis
    by (auto simp: Tick_def Let_def intro: hard_state_kept_advances simp: hard_state_kept_def)
qed

lemma Tick_noted: "hard_state_noted r (Tick r)"
proof -
  have "hard_state_dirty (BecomeCandidate v)" for v using BecomeCandidate_frame [of v] by auto
  moreover have "hard_state_kept (r\<lparr>heartbeat_elapsed := 0\<rparr>) (BroadcastAppendEntries (r\<lparr>heartbeat_elapsed := 0\<rparr>))"
    by (rule Broadcast_kept)
  ultimately show ?thesis by (auto simp: Tick_def Let_def hard_state_noted_def hard_state_kept_def)
qed

lemma TakeCommitted_advances: "hard_state_advances r (snd (TakeCommitted r))"
  by (simp add: TakeCommitted_def hard_state_advances_def)

lemma Propose_advances: "hard_state_advances r (snd (Propose r d))"
  by (auto simp: Propose_def intro!: hard_state_kept_advances hard_state_kept_trans [OF _ MaybeCommit_kept])
     (simp_all add: hard_state_kept_def)


subsection \<open>The watermark\<close>

text \<open>
  Everything up to \<^verbatim>\<open>stable_index_\<close> is as it was before the call, so a caller that stored the
  log before has to store only what lies behind the watermark.
\<close>

definition stable_within :: "Raft \<Rightarrow> bool" where
  "stable_within r \<longleftrightarrow> log_ok (log r) \<and> stable_index r \<le> LastIndex r"

definition stable_kept :: "Raft \<Rightarrow> Raft \<Rightarrow> bool" where
  "stable_kept r r' \<longleftrightarrow> stable_within r' \<and> stable_index r' \<le> stable_index r \<and>
     take (Suc (unat (stable_index r'))) (log r') = take (Suc (unat (stable_index r'))) (log r)"

lemma stable_kept_refl: "stable_within r \<Longrightarrow> stable_kept r r"
  by (simp add: stable_kept_def)

lemma stable_kept_same:
  "stable_within r \<Longrightarrow> log r' = log r \<Longrightarrow> stable_index r' = stable_index r \<Longrightarrow> stable_kept r r'"
  by (simp add: stable_kept_def stable_within_def LastIndex_def)

lemma stable_kept_trans:
  assumes "stable_kept r r1" "stable_kept r1 r2"
  shows "stable_kept r r2"
proof -
  have "unat (stable_index r2) \<le> unat (stable_index r1)"
    using assms(2) by (simp add: stable_kept_def word_le_nat_alt)
  then have "take (Suc (unat (stable_index r2))) (log r1) = take (Suc (unat (stable_index r2))) (log r)"
    using assms(1) take_eq_take_le unfolding stable_kept_def by (metis Suc_le_mono)
  with assms show ?thesis by (auto simp: stable_kept_def intro: order_trans)
qed

text \<open>A message whose entries carry consecutive indices behind \<^verbatim>\<open>prev_log_index\<close>, within 64 bits.\<close>

definition wf_append :: "Message \<Rightarrow> bool" where
  "wf_append m \<longleftrightarrow> consecutive (unat (prev_log_index m)) (entries m) \<and>
     Suc (unat (prev_log_index m) + length (entries m)) < 2 ^ 64"

lemma append_entry_stable:
  assumes "stable_within r" "le_index e = of_nat (Suc p)" "Suc (Suc p) < 2 ^ 64" "Suc p \<le> length (log r)"
  shows "stable_kept r (append_entry r e) \<and> Suc p < length (log (append_entry r e))"
proof -
  have ok: "log_ok (log r)" and st: "unat (stable_index r) \<le> length (log r) - 1"
    using assms(1) unat_LastIndex [of r] by (auto simp: stable_within_def word_le_nat_alt)
  have e: "unat (le_index e) = Suc p" using assms(2,3) by (simp add: unat_of_nat_u64 del: of_nat_Suc)
  note len = log_ok_length [OF ok]
  show ?thesis
  proof (cases "le_index e \<le> LastIndex r")
    case False
    then have p: "Suc p = length (log r)"
      using e assms(4) unat_LastIndex [OF ok] len by (simp add: word_le_nat_alt)
    have eq: "append_entry r e = r\<lparr>log := log r @ [e]\<rparr>" using False by (simp add: append_entry_def)
    have "log_ok (log r @ [e])" using ok assms(2,3) p by (intro log_ok_snoc) simp_all
    moreover from this have "unat (LastIndex (r\<lparr>log := log r @ [e]\<rparr>)) = length (log r)"
      using unat_LastIndex [of "r\<lparr>log := log r @ [e]\<rparr>"] by simp
    ultimately show ?thesis
      using st len p by (auto simp: eq stable_kept_def stable_within_def word_le_nat_alt)
  next
    case True
    then have p: "Suc p < length (log r)"
      using e unat_LastIndex [OF ok] len by (simp add: word_le_nat_alt)
    show ?thesis
    proof (cases "TermAt r (le_index e) = le_term e")
      case eq: True
      with True assms(1) p show ?thesis by (simp add: append_entry_def stable_kept_refl)
    next
      case ne: False
      let ?st = "if stable_index r \<ge> le_index e then le_index e - 1 else stable_index r"
      let ?l = "take (Suc p) (log r) @ [e]"
      have eq: "append_entry r e = r\<lparr>log := ?l, stable_index := ?st\<rparr>"
        using True ne e by (simp add: append_entry_def)
      have "le_index e \<noteq> 0" using e by auto
      then have "unat (le_index e - 1) = p" using e by (simp add: unat_minus_one)
      then have st': "unat ?st \<le> p" "unat ?st \<le> unat (stable_index r)"
        using e by (auto simp: word_le_nat_alt)
      have ok': "log_ok ?l" using log_ok_take [OF ok, of "Suc p"] p assms(2,3) by (intro log_ok_snoc) (simp_all add: min_absorb2)
      have "unat (LastIndex (r\<lparr>log := ?l, stable_index := ?st\<rparr>)) = Suc p"
        using unat_LastIndex [of "r\<lparr>log := ?l, stable_index := ?st\<rparr>"] ok' p by (simp add: min_absorb2)
      with ok' st' p show ?thesis
        by (simp add: eq stable_kept_def stable_within_def word_le_nat_alt min_absorb1 min_absorb2)
    qed
  qed
qed

lemma append_entries_stable:
  assumes "stable_within r" "consecutive p es" "Suc (p + length es) < 2 ^ 64" "p < length (log r)"
  shows "stable_kept r (foldl append_entry r es)"
  using assms
proof (induction es arbitrary: p r)
  case Nil
  then show ?case by (simp add: stable_kept_refl)
next
  case (Cons e es)
  have e: "le_index e = of_nat (Suc p)" "consecutive (Suc p) es"
    using Cons.prems(2) by (simp_all add: consecutive_Cons)
  have a: "stable_kept r (append_entry r e)" "Suc p < length (log (append_entry r e))"
    using append_entry_stable [OF Cons.prems(1) e(1)] Cons.prems(3,4) by auto
  then have "stable_within (append_entry r e)" by (simp add: stable_kept_def)
  from Cons.IH [OF this e(2) _ a(2)] Cons.prems(3) stable_kept_trans [OF a(1)] show ?case by simp
qed

lemma HandleAppendEntries_stable:
  assumes "stable_within r" "wf_append m"
  shows "stable_kept r (HandleAppendEntries r m)"
proof -
  let ?r = "r\<lparr>leader := msg_from m, election_elapsed := 0\<rparr>"
  have r: "stable_within ?r" using assms(1) by (simp add: stable_within_def LastIndex_def)
  show ?thesis
  proof (cases "prev_log_index m > LastIndex ?r \<or> TermAt ?r (prev_log_index m) \<noteq> prev_log_term m")
    case True
    then show ?thesis
      unfolding HandleAppendEntries_def Let_def if_P [OF True]
      by (intro stable_kept_same [OF assms(1)]) (simp_all add: Send_def)
  next
    case False
    have ok: "log_ok (log ?r)" using r by (simp add: stable_within_def)
    have "unat (prev_log_index m) < length (log ?r)"
      using False by (intro index_less [OF ok]) (simp add: not_less)
    then have "stable_kept ?r (foldl append_entry ?r (entries m))"
      using append_entries_stable [OF r] assms(2) unfolding wf_append_def by blast
    then have k: "stable_kept r (foldl append_entry ?r (entries m))"
      using stable_kept_trans [OF stable_kept_same [OF assms(1)], of ?r] by simp
    then have w: "stable_within (foldl append_entry ?r (entries m))" by (simp add: stable_kept_def)
    show ?thesis
      unfolding HandleAppendEntries_def Let_def if_not_P [OF False]
      by (rule stable_kept_trans [OF k stable_kept_same [OF w]]) (simp_all add: Send_def)
  qed
qed

lemma Broadcast_log: "log (BroadcastAppendEntries r) = log r" "stable_index (BroadcastAppendEntries r) = stable_index r"
  using Broadcast_frame [of r] by auto

lemma BecomeLeader_log: "log (BecomeLeader r) = log r" "stable_index (BecomeLeader r) = stable_index r"
  using BecomeLeader_frame [of r] by auto

lemma BecomeCandidate_log: "log (BecomeCandidate r) = log r" "stable_index (BecomeCandidate r) = stable_index r"
  using BecomeCandidate_frame [of r] by auto

lemma MaybeCommit_log: "log (MaybeCommit r) = log r" "stable_index (MaybeCommit r) = stable_index r"
  using MaybeCommit_loop_result [of r "LastIndex r"] by (auto simp: MaybeCommit_def)

lemma StepRole_stable:
  assumes "stable_within r" "msg_type m = kAppendEntries \<Longrightarrow> wf_append m"
  shows "stable_kept r (StepRole r m)"
proof -
  note same = stable_kept_same [OF assms(1)]
  let ?f = "BecomeFollower r (msg_term m) (msg_from m)"
  have f: "log ?f = log r" "stable_index ?f = stable_index r" by (simp_all add: BecomeFollower_def Let_def)
  have "stable_kept r (HandleAppendEntries ?f m)" if "msg_type m = kAppendEntries"
    using stable_kept_trans [OF same [OF f] HandleAppendEntries_stable [OF _ assms(2) [OF that]]] assms(1) f
    by (simp add: stable_within_def LastIndex_def)
  moreover have "log (HandleRequestVote r m) = log r" "stable_index (HandleRequestVote r m) = stable_index r"
    by (simp_all add: HandleRequestVote_def Let_def Send_def)
  moreover have "log (HandleAppendEntriesResp r m) = log r"
    "stable_index (HandleAppendEntriesResp r m) = stable_index r"
    by (simp_all add: HandleAppendEntriesResp_def Let_def MaybeCommit_log)
  ultimately show ?thesis
    using assms(2) HandleAppendEntries_stable [OF assms(1)]
    by (auto simp: StepRole_def StepFollower_def StepCandidate_def StepLeader_def Let_def BecomeLeader_log
        split: Role.splits MessageType.splits intro: same)
qed

lemma Step_stable:
  assumes "stable_within r" "msg_type m = kAppendEntries \<Longrightarrow> wf_append m"
  shows "stable_kept r (Step r m)"
proof -
  note same = stable_kept_same [OF assms(1)]
  let ?f = "BecomeFollower r (msg_term m) (if msg_type m = kAppendEntries then msg_from m else 0)"
  have f: "log ?f = log r" "stable_index ?f = stable_index r" by (simp_all add: BecomeFollower_def Let_def)
  have "stable_kept r (StepRole ?f m)"
    using stable_kept_trans [OF same [OF f] StepRole_stable [OF _ assms(2)]] assms(1) f
    by (simp add: stable_within_def LastIndex_def)
  then show ?thesis
    using StepRole_stable [OF assms] by (auto simp: Step_def Let_def Send_def intro: same)
qed

lemma Tick_log: "log (Tick r) = log r" "stable_index (Tick r) = stable_index r"
  by (simp_all add: Tick_def Let_def Broadcast_log BecomeCandidate_log)

lemma StepRole_log:
  assumes "msg_type m \<noteq> kAppendEntries"
  shows "log (StepRole r m) = log r \<and> stable_index (StepRole r m) = stable_index r"
proof -
  have "log (HandleRequestVote r m) = log r \<and> stable_index (HandleRequestVote r m) = stable_index r"
    by (simp add: HandleRequestVote_def Send_def Let_def)
  moreover have "log (HandleAppendEntriesResp r m) = log r \<and> stable_index (HandleAppendEntriesResp r m) = stable_index r"
    by (simp add: HandleAppendEntriesResp_def MaybeCommit_log Let_def)
  ultimately show ?thesis
    using assms
    by (cases "role r"; cases "msg_type m")
       (simp_all add: StepRole_def StepFollower_def StepCandidate_def StepLeader_def BecomeLeader_log Let_def)
qed

lemma Step_log:
  assumes "msg_type m \<noteq> kAppendEntries"
  shows "log (Step r m) = log r \<and> stable_index (Step r m) = stable_index r"
  using assms StepRole_log [OF assms]
  by (simp add: Step_def Send_def BecomeFollower_def Let_def)

lemma Propose_log:
  "log (snd (Propose r d)) = log r \<or> (\<exists>e. log (snd (Propose r d)) = log r @ [e])"
  "stable_index (snd (Propose r d)) = stable_index r" "current_term (snd (Propose r d)) = current_term r"
  "voted_for (snd (Propose r d)) = voted_for r"
  by (simp_all add: Propose_def MaybeCommit_log MaybeCommit_kept [unfolded hard_state_kept_def])

lemma Tick_stable: "stable_within r \<Longrightarrow> stable_kept r (Tick r)"
  by (rule stable_kept_same) (simp_all add: Tick_log)

lemma Propose_stable:
  assumes "stable_within r" "Suc (length (log r)) < 2 ^ 64"
  shows "stable_kept r (snd (Propose r d))"
proof (cases "role r = kLeader")
  case False
  with assms(1) show ?thesis by (simp add: Propose_def stable_kept_refl)
next
  case True
  let ?e = "\<lparr>le_term = current_term r, le_index = LastIndex r + 1, le_data = d\<rparr>"
  let ?r = "r\<lparr>log := log r @ [?e]\<rparr>"
  have ok: "log_ok (log r)" and st: "unat (stable_index r) \<le> length (log r) - 1"
    using assms(1) unat_LastIndex [of r] by (auto simp: stable_within_def word_le_nat_alt)
  have ok': "log_ok (log ?r)"
    using log_ok_snoc [OF ok assms(2), of ?e] by (simp add: LastIndex_def)
  have "unat (LastIndex ?r) = length (log r)" using unat_LastIndex [OF ok'] by simp
  moreover have "unat (stable_index r) < length (log r)" using st log_ok_length(1) [OF ok] by linarith
  ultimately have k: "stable_kept r ?r"
    using ok' by (auto simp: stable_kept_def stable_within_def word_le_nat_alt)
  then have "stable_within ?r" by (simp add: stable_kept_def)
  from stable_kept_trans [OF k stable_kept_same [OF this]] True show ?thesis
    by (simp add: Propose_def MaybeCommit_log)
qed


subsection \<open>Commit and hand-over\<close>

definition commit_rule :: "Raft \<Rightarrow> u64 \<Rightarrow> bool" where
  "commit_rule r k \<longleftrightarrow> commit_index r < k \<and> k \<le> LastIndex r \<and> TermAt r k = current_term r \<and>
     QuorumSize r \<le> replicas r k"

lemma MaybeCommit_loop_max:
  assumes "n \<le> LastIndex r"
  shows "(commit_index (MaybeCommit_loop r n) = commit_index r \<or> commit_rule r (commit_index (MaybeCommit_loop r n))) \<and>
    (\<forall>k\<le>n. commit_rule r k \<longrightarrow> k \<le> commit_index (MaybeCommit_loop r n))"
  using assms
proof (induction r n rule: MaybeCommit_loop.induct)
  case (1 r n)
  consider "\<not> commit_index r < n" | "commit_index r < n" "TermAt r n = current_term r \<and> QuorumSize r \<le> replicas r n"
    | "commit_index r < n" "\<not> (TermAt r n = current_term r \<and> QuorumSize r \<le> replicas r n)" by blast
  then show ?case
  proof cases
    case 1
    then show ?thesis by (subst (1 2 3) MaybeCommit_loop.simps) (auto simp: commit_rule_def)
  next
    case 2
    with "1.prems" show ?thesis by (subst (1 2 3) MaybeCommit_loop.simps) (auto simp: commit_rule_def)
  next
    case 3
    then have eq: "MaybeCommit_loop r n = MaybeCommit_loop r (n - 1)" by (subst MaybeCommit_loop.simps) auto
    have "n - 1 \<le> LastIndex r"
      using u64_pred_less [OF 3(1)] "1.prems" by (simp add: word_le_nat_alt)
    note IH = "1.IH" [OF 3 this]
    have "k \<le> n - 1" if "k \<le> n" "commit_rule r k" for k
      using that 3(2) u64_le_pred [of k n] by (cases "k = n") (auto simp: commit_rule_def)
    with IH show ?thesis unfolding eq by blast
  qed
qed

lemma TakeCommitted_entries:
  assumes "log_ok (log r)" "last_applied r \<le> commit_index r" "commit_index r \<le> LastIndex r"
  shows "fst (TakeCommitted r) = drop (Suc (unat (last_applied r))) (take (Suc (unat (commit_index r))) (log r))"
proof -
  have c: "unat (commit_index r) < length (log r)" "unat (last_applied r) \<le> unat (commit_index r)"
    using index_less [OF assms(1,3)] assms(2) by (auto simp: word_le_nat_alt)
  have "unat (last_applied r + 1) = Suc (unat (last_applied r))"
    using c log_ok_length(2) [OF assms(1)] by (intro unat_Suc_u64) linarith
  then show ?thesis
    using c by (intro nth_equalityI) (auto simp: TakeCommitted_def simp del: upt_Suc)
qed


subsection \<open>The commit index does not fall\<close>

text \<open>
  A message of a leader announces no more than it brings up to: its commit index lies within
  the log that its entries extend.
\<close>

definition wf_commit :: "Message \<Rightarrow> bool" where
  "wf_commit m \<longleftrightarrow> unat (leader_commit m) \<le> unat (prev_log_index m) + length (entries m)"

lemma append_entries_length:
  assumes "stable_within r" "consecutive p es" "Suc (p + length es) < 2 ^ 64" "p < length (log r)"
  shows "p + length es < length (log (foldl append_entry r es))"
  using assms
proof (induction es arbitrary: p r)
  case (Cons e es)
  have e: "le_index e = of_nat (Suc p)" "consecutive (Suc p) es"
    using Cons.prems(2) by (simp_all add: consecutive_Cons)
  have a: "stable_kept r (append_entry r e)" "Suc p < length (log (append_entry r e))"
    using append_entry_stable [OF Cons.prems(1) e(1)] Cons.prems(3,4) by auto
  then have "stable_within (append_entry r e)" by (simp add: stable_kept_def)
  from Cons.IH [OF this e(2) _ a(2)] Cons.prems(3) show ?case by simp
qed simp

lemma HandleAppendEntries_commit:
  assumes "stable_within r" "wf_append m" "wf_commit m"
  shows "commit_index r \<le> commit_index (HandleAppendEntries r m)"
proof -
  let ?r = "r\<lparr>leader := msg_from m, election_elapsed := 0\<rparr>" and ?k = "unat (prev_log_index m) + length (entries m)"
  have r: "stable_within ?r" using assms(1) by (simp add: stable_within_def LastIndex_def)
  have ok: "log_ok (log ?r)" using r by (simp add: stable_within_def)
  obtain l st where f: "foldl append_entry ?r (entries m) = ?r\<lparr>log := l, stable_index := st\<rparr>"
    using append_entries_frame [of ?r "entries m"] by blast
  show ?thesis
  proof (cases "prev_log_index m > LastIndex ?r \<or> TermAt ?r (prev_log_index m) \<noteq> prev_log_term m")
    case True
    then show ?thesis unfolding HandleAppendEntries_def Let_def if_P [OF True] by (simp add: Send_def)
  next
    case False
    have p: "unat (prev_log_index m) < length (log ?r)"
      using False by (intro index_less [OF ok]) (simp add: not_less)
    have "?k < length l" using append_entries_length [OF r _ _ p, of "entries m"] assms(2) f by (simp add: wf_append_def)
    moreover have "log_ok l"
      using append_entries_stable [OF r _ _ p, of "entries m"] assms(2) f
      by (auto simp: wf_append_def stable_kept_def stable_within_def)
    ultimately have "leader_commit m \<le> LastIndex (?r\<lparr>log := l, stable_index := st\<rparr>)"
      using assms(3) unat_LastIndex [of "?r\<lparr>log := l, stable_index := st\<rparr>"] by (simp add: wf_commit_def word_le_nat_alt)
    then show ?thesis unfolding HandleAppendEntries_def Let_def if_not_P [OF False] f
      by (auto simp: Send_def min_absorb1)
  qed
qed

lemma MaybeCommit_commit: "commit_index r \<le> commit_index (MaybeCommit r)"
  using MaybeCommit_loop_max [of "LastIndex r" r] by (auto simp: MaybeCommit_def commit_rule_def)

lemma StepRole_commit:
  assumes "stable_within r" "msg_type m = kAppendEntries \<Longrightarrow> wf_append m \<and> wf_commit m"
  shows "commit_index r \<le> commit_index (StepRole r m)"
proof -
  let ?f = "BecomeFollower r (msg_term m) (msg_from m)"
  have "stable_within ?f" "commit_index ?f = commit_index r"
    using assms(1) by (simp_all add: BecomeFollower_def Let_def stable_within_def LastIndex_def)
  then have "commit_index r \<le> commit_index (HandleAppendEntries ?f m)" if "msg_type m = kAppendEntries"
    using HandleAppendEntries_commit [of ?f m] assms(2) [OF that] by simp
  moreover have "commit_index (BecomeLeader v) = commit_index v" for v using BecomeLeader_frame [of v] by auto
  moreover have "commit_index (HandleRequestVote r m) = commit_index r"
    by (simp add: HandleRequestVote_def Let_def Send_def)
  moreover have "commit_index r \<le> commit_index (HandleAppendEntriesResp r m)"
    by (auto simp: HandleAppendEntriesResp_def Let_def intro!: order_trans [OF _ MaybeCommit_commit])
  ultimately show ?thesis
    using HandleAppendEntries_commit [OF assms(1)] assms(2)
    by (cases "msg_type m") (auto simp: StepRole_def StepFollower_def StepCandidate_def StepLeader_def Let_def
        split: Role.splits)
qed

lemma Step_commit:
  assumes "stable_within r" "msg_type m = kAppendEntries \<Longrightarrow> wf_append m \<and> wf_commit m"
  shows "commit_index r \<le> commit_index (Step r m)"
proof -
  let ?f = "BecomeFollower r (msg_term m) (if msg_type m = kAppendEntries then msg_from m else 0)"
  have "stable_within ?f" "commit_index ?f = commit_index r"
    using assms(1) by (simp_all add: BecomeFollower_def Let_def stable_within_def LastIndex_def)
  then have "commit_index r \<le> commit_index (StepRole ?f m)" using StepRole_commit [of ?f m] assms(2) by simp
  then show ?thesis using StepRole_commit [OF assms] by (simp add: Step_def Let_def Send_def)
qed

lemma Tick_commit: "commit_index (Tick r) = commit_index r"
proof -
  have "commit_index (BroadcastAppendEntries v) = commit_index v" "commit_index (BecomeCandidate v) = commit_index v" for v
    using Broadcast_frame [of v] BecomeCandidate_frame [of v] by auto
  then show ?thesis by (simp add: Tick_def Let_def)
qed

lemma Propose_commit: "commit_index r \<le> commit_index (snd (Propose r d))"
  using MaybeCommit_commit [of "r\<lparr>log := log r @ [\<lparr>le_term = current_term r, le_index = LastIndex r + 1, le_data = d\<rparr>]\<rparr>"]
  by (simp add: Propose_def)


subsection \<open>Properties\<close>

text \<open>
  \<^bold>\<open>C23\<close> The hard state moves only forward. Whatever message arrives, the term does not
  decrease, a vote that was cast is not changed within its term, and a change of term or vote
  leaves the dirty flag set, so that the storage layer writes it. A tick does the same, unless
  the term has reached its last value.
\<close>

theorem Raft_hard_state:
  "hard_state_advances r (Step r m) \<and> (current_term r \<noteq> - 1 \<longrightarrow> hard_state_advances r (Tick r))"
  using Step_advances Tick_advances by blast

theorem Raft_hard_state_witness:
  "\<exists>cfg m. hard_state_advances (Raft_new cfg) (Step (Raft_new cfg) m) \<and>
     hard_state_advances (Raft_new cfg) (Tick (Raft_new cfg))"
proof -
  let ?r = "Raft_new \<lparr>cfg_id = 1, peers = [1, 2, 3], election_timeout = 1, heartbeat_timeout = 1\<rparr>"
  have "current_term ?r \<noteq> - 1" by (simp add: Raft_new_def)
  with Raft_hard_state [of ?r "new_Message kRequestVote"] show ?thesis by blast
qed

text \<open>
  \<^bold>\<open>C24\<close> The watermark is sound. At a node with a well-formed log, a watermark within it and
  room for another entry, after any tick, proposal, or message, of which an AppendEntries must have
  entries numbered consecutively from behind its \<^verbatim>\<open>prev_log_index\<close> on, the log is well formed, \<^verbatim>\<open>stable_index_\<close> lies within it
  and has not grown, and every entry up to it is the entry that was there before the call: a
  caller that had stored the log needs to store only what lies behind the watermark.
\<close>

theorem Raft_watermark:
  assumes "stable_within r" "msg_type m = kAppendEntries \<longrightarrow> wf_append m" "Suc (length (log r)) < 2 ^ 64"
  shows "stable_kept r (Step r m) \<and> stable_kept r (Tick r) \<and> stable_kept r (snd (Propose r d))"
  using Step_stable [OF assms(1)] assms(2) Tick_stable [OF assms(1)] Propose_stable [OF assms(1,3)] by blast

theorem Raft_watermark_witness:
  "\<exists>r m d. entries m \<noteq> [] \<and> stable_kept r (Step r m) \<and> stable_kept r (Tick r) \<and> stable_kept r (snd (Propose r d))"
proof -
  let ?r = "Raft_new \<lparr>cfg_id = 1, peers = [1, 2, 3], election_timeout = 1, heartbeat_timeout = 1\<rparr>"
  let ?m = "(new_Message kAppendEntries)\<lparr>msg_from := 2, msg_to := 1, msg_term := 1,
    entries := [\<lparr>le_term = 1, le_index = 1, le_data = [7]\<rparr>]\<rparr>"
  have "stable_within ?r" "wf_append ?m" "Suc (length (log ?r)) < 2 ^ 64"
    by (simp_all add: stable_within_def Raft_new_def wf_append_def consecutive_def new_Message_def)
  with Raft_watermark [of ?r ?m] show ?thesis by (intro exI [of _ ?r] exI [of _ ?m]) simp
qed

text \<open>
  \<^bold>\<open>C26\<close> The commit rule. \<^verbatim>\<open>MaybeCommit\<close> changes nothing but the commit index, which it
  raises to the highest index of the log that holds an entry of the current term and that the
  leader's books show on a majority, and leaves alone if there is none.
\<close>

theorem MaybeCommit_takes_highest:
  "\<exists>c. MaybeCommit r = r\<lparr>commit_index := c\<rparr> \<and> (c = commit_index r \<or> commit_rule r c) \<and>
     {k. commit_rule r k} \<subseteq> {..c}"
proof -
  obtain c where c: "MaybeCommit r = r\<lparr>commit_index := c\<rparr>"
    using MaybeCommit_loop_result [of r "LastIndex r"] by (auto simp: MaybeCommit_def)
  then have "commit_index (MaybeCommit_loop r (LastIndex r)) = c" by (simp add: MaybeCommit_def)
  with MaybeCommit_loop_max [of "LastIndex r" r] have "c = commit_index r \<or> commit_rule r c"
    "\<forall>k. commit_rule r k \<longrightarrow> k \<le> c" by (auto simp: commit_rule_def)
  with c show ?thesis by blast
qed

text \<open>
  \<^bold>\<open>C27\<close> Hand-over. Two calls of \<^verbatim>\<open>TakeCommitted\<close>, with any growth of the log and the commit
  index in between, hand out consecutive ranges of the log: together exactly the entries behind
  the first apply cursor up to the last commit index, each once and in order.
\<close>

theorem TakeCommitted_once_in_order:
  assumes "log_ok (log r)" "last_applied r \<le> commit_index r" "commit_index r \<le> LastIndex r"
    and "TakeCommitted r = (first, r1)"
    and "log_ok (log r2)" "last_applied r2 = last_applied r1" "commit_index r1 \<le> commit_index r2"
    and "commit_index r2 \<le> LastIndex r2"
    and "take (Suc (unat (commit_index r))) (log r2) = take (Suc (unat (commit_index r))) (log r)"
    and "TakeCommitted r2 = (second, r3)"
  shows "first @ second = drop (Suc (unat (last_applied r))) (take (Suc (unat (commit_index r2))) (log r2))"
proof -
  let ?a = "Suc (unat (last_applied r))" and ?c = "Suc (unat (commit_index r))" and ?d = "Suc (unat (commit_index r2))"
  have r1: "last_applied r1 = commit_index r" "commit_index r1 = commit_index r"
    using assms(4) by (auto simp: TakeCommitted_def)
  have first: "first = drop ?a (take ?c (log r2))"
    using TakeCommitted_entries [OF assms(1-3)] assms(4,9) by simp
  have second: "second = drop ?c (take ?d (log r2))"
    using TakeCommitted_entries [OF assms(5) _ assms(8)] assms(6,7,10) r1 by simp
  have "?a \<le> ?c" "?c \<le> ?d" using assms(2,7) r1 by (simp_all add: word_le_nat_alt)
  then have "take ?c (log r2) = take ?c (take ?d (log r2))" by (simp add: min_absorb1)
  with first second \<open>?a \<le> ?c\<close> show ?thesis
    by (metis append_take_drop_id drop_drop drop_take le_add_diff_inverse2)
qed

theorem TakeCommitted_once_in_order_witness:
  "\<exists>r r1 r2 r3 first second. TakeCommitted r = (first, r1) \<and> TakeCommitted r2 = (second, r3) \<and>
     commit_index r2 = 1 \<and>
     first @ second = drop (Suc (unat (last_applied r))) (take (Suc (unat (commit_index r2))) (log r2))"
proof -
  let ?r = "Raft_new \<lparr>cfg_id = 1, peers = [1], election_timeout = 1, heartbeat_timeout = 1\<rparr>"
  let ?r2 = "?r\<lparr>log := [sentinel, \<lparr>le_term = 1, le_index = 1, le_data = [7]\<rparr>], commit_index := 1\<rparr>"
  obtain a r1 b r3 where t: "TakeCommitted ?r = (a, r1)" "TakeCommitted ?r2 = (b, r3)" by fastforce
  then have "last_applied r1 = 0" "commit_index r1 = 0" by (auto simp: TakeCommitted_def Raft_new_def)
  then have "a @ b = drop (Suc (unat (last_applied ?r))) (take (Suc (unat (commit_index ?r2))) (log ?r2))"
    by (intro TakeCommitted_once_in_order [OF _ _ _ t(1) _ _ _ _ _ t(2)])
       (simp_all add: Raft_new_def log_ok_def sentinel_def LastIndex_def less_Suc_eq)
  with t show ?thesis by (intro exI [of _ ?r] exI [of _ r1] exI [of _ ?r2] exI) (auto simp: Raft_new_def)
qed

end
