(* ===== verification/Cluster.thy ===== *)
theory Cluster
  imports Raft_Node
begin

section \<open>Clusters of Raft nodes\<close>

text \<open>
  Nodes that run the code of raft.cc and a network that may lose, delay, reorder and duplicate
  messages: it is the set of all messages ever sent, and any of them can arrive at any time, or
  never. As storage.h asks of the caller, what a call changed is durable before its messages go
  out; so a node that restarts comes back, by \<^verbatim>\<open>Restore\<close>, with the term, the vote and the
  log it had; one that loses power while a turn is being stored comes back with a part of it and
  has sent nothing (\<open>interrupted\<close>). That this is what RaftStorage provides is shown for the nodes with storage of the
  theory of durable clusters, which refine the ones here; \<open>saved\<close> is the note of the storage to
  the core that it has stored everything.

  Terms and log lengths must stay below the limit of their 64 bits, which guards the steps that
  increase them.
\<close>

record cluster =
  node :: "NodeId \<Rightarrow> Raft"
  net :: "Message set"

definition emit :: "cluster \<Rightarrow> NodeId \<Rightarrow> Raft \<Rightarrow> cluster" where
  "emit C n r =
     (case TakeMessages r of (msgs, r') \<Rightarrow> C\<lparr>node := (node C)(n := r'), net := net C \<union> set msgs\<rparr>)"

definition reboot :: "Config \<Rightarrow> Raft \<Rightarrow> Raft" where
  "reboot cfg r = Restore (Raft_new cfg) (current_term r) (voted_for r) (tl (log r))"

definition cluster_init :: "(NodeId \<Rightarrow> Config) \<Rightarrow> cluster" where
  "cluster_init cfg = \<lparr>node = (\<lambda>n. Raft_new (cfg n)), net = {}\<rparr>"

text \<open>What a node can be given to do: time, a message of the network, a command, the applied index.\<close>

inductive turn :: "Message set \<Rightarrow> NodeId \<Rightarrow> Raft \<Rightarrow> Raft \<Rightarrow> bool" for net n r where
  tick: "Suc (unat (current_term r)) < 2 ^ 64 \<Longrightarrow> turn net n r (Tick r)"
| deliver: "msg \<in> net \<Longrightarrow> msg_to msg = n \<Longrightarrow> turn net n r (Step r msg)"
| propose: "Suc (length (log r)) < 2 ^ 64 \<Longrightarrow> turn net n r (snd (Propose r d))"
| take_committed: "turn net n r (snd (TakeCommitted r))"

text \<open>
  A node can also lose power while the outcome of its turn is being stored. Its messages are then
  not sent. If the new term and vote had been stored by then, the log comes back as it was before
  the turn, or as the new log up to any point behind the watermark; where nothing had been stored,
  it is a plain restart.
\<close>

definition halfway :: "Raft \<Rightarrow> Raft \<Rightarrow> LogEntry list \<Rightarrow> bool" where
  "halfway r r' l \<longleftrightarrow> l = log r \<or> (\<exists>k. unat (stable_index r') < k \<and> l = take k (log r'))"

inductive cluster_step :: "(NodeId \<Rightarrow> Config) \<Rightarrow> NodeId set \<Rightarrow> cluster \<Rightarrow> cluster \<Rightarrow> bool"
  for cfg M where
  work: "n \<in> M \<Longrightarrow> turn (net C) n (node C n) r \<Longrightarrow> cluster_step cfg M C (emit C n r)"
| interrupted: "n \<in> M \<Longrightarrow> turn (net C) n (node C n) r \<Longrightarrow> stable_index (node C n) = LastIndex (node C n) \<Longrightarrow>
    halfway (node C n) r l \<Longrightarrow>
    cluster_step cfg M C (emit C n (Restore (Raft_new (cfg n)) (current_term r) (voted_for r) (tl l)))"
| saved: "n \<in> M \<Longrightarrow> cluster_step cfg M C (emit C n (set_stable_index (clear_hard_state_dirty (node C n)) i))"
| restart: "n \<in> M \<Longrightarrow> cluster_step cfg M C (emit C n (reboot (cfg n) (node C n)))"

inductive cluster_reachable :: "(NodeId \<Rightarrow> Config) \<Rightarrow> NodeId set \<Rightarrow> cluster \<Rightarrow> bool" for cfg M where
  start: "cluster_reachable cfg M (cluster_init cfg)"
| step: "cluster_reachable cfg M C \<Longrightarrow> cluster_step cfg M C C' \<Longrightarrow> cluster_reachable cfg M C'"

text \<open>Every node knows its own identifier, which is not 0, and the full membership.\<close>

definition membership :: "(NodeId \<Rightarrow> Config) \<Rightarrow> NodeId set \<Rightarrow> bool" where
  "membership cfg M \<longleftrightarrow> 0 \<notin> M \<and>
     (\<forall>n\<in>M. cfg_id (cfg n) = n \<and> distinct (peers (cfg n)) \<and> set (peers (cfg n)) = M)"


subsection \<open>The simulation relation\<close>

definition candidate_rel :: "NodeId set \<Rightarrow> (NodeId, bytes) spec \<Rightarrow> NodeId \<Rightarrow> Raft \<Rightarrow> bool" where
  "candidate_rel M s n r \<longleftrightarrow>
     sp_stood s n (sp_term s n) = Some (sp_log s n) \<and> (\<forall>l. sp_llog s (sp_term s n) \<noteq> Some (n, l)) \<and>
     distinct (votes_granted r) \<and> set (votes_granted r) \<subseteq> M \<and>
     (\<forall>v\<in>set (votes_granted r). sp_vote s v (sp_term s n) = Some n)"

definition leader_rel :: "NodeId set \<Rightarrow> (NodeId, bytes) spec \<Rightarrow> NodeId \<Rightarrow> Raft \<Rightarrow> bool" where
  "leader_rel M s n r \<longleftrightarrow> length (sp_log s n) \<le> sp_acked s n (sp_term s n) \<and>
     (\<forall>p\<in>M - {n}. unat (match_index r p) \<le> sp_acked s p (sp_term s n) \<and>
        0 < unat (next_index r p) \<and> unat (next_index r p) \<le> length (log r))"

definition node_rel :: "(NodeId \<Rightarrow> Config) \<Rightarrow> NodeId set \<Rightarrow> (NodeId, bytes) spec \<Rightarrow> NodeId \<Rightarrow> Raft \<Rightarrow> bool" where
  "node_rel cfg M s n r \<longleftrightarrow>
     config r = cfg n \<and> log_ok (log r) \<and> abs_log (log r) = sp_log s n \<and>
     unat (current_term r) = sp_term s n \<and>
     sp_vote s n (sp_term s n) = (if voted_for r = 0 then None else Some (voted_for r)) \<and>
     (role r = kLeader \<longleftrightarrow> sp_leads s n) \<and>
     unat (commit_index r) = sp_commit s n \<and> last_applied r \<le> commit_index r \<and>
     (role r = kCandidate \<longrightarrow> candidate_rel M s n r) \<and>
     (role r = kLeader \<longrightarrow> leader_rel M s n r)"

definition request_ok :: "(NodeId, bytes) spec \<Rightarrow> Message \<Rightarrow> bool" where
  "request_ok s m \<longleftrightarrow>
     (\<exists>g. sp_stood s (msg_from m) (unat (msg_term m)) = Some g \<and>
        unat (last_log_index m) = length g \<and> unat (last_log_term m) = last_term g)"

definition append_ok :: "(NodeId, bytes) spec \<Rightarrow> Message \<Rightarrow> bool" where
  "append_ok s m \<longleftrightarrow>
     (\<exists>l. let p = unat (prev_log_index m); k = p + length (entries m) in
        sp_llog s (unat (msg_term m)) = Some (msg_from m, l) \<and> k \<le> length l \<and> Suc k < 2 ^ 64 \<and>
        map abs_entry (entries m) = drop p (take k l) \<and> consecutive p (entries m) \<and>
        unat (prev_log_term m) = (if p = 0 then 0 else fst (l ! (p - 1))) \<and>
        unat (leader_commit m) \<le> sp_announced s (unat (msg_term m)) \<and> unat (leader_commit m) \<le> k)"

definition msg_ok :: "NodeId set \<Rightarrow> (NodeId, bytes) spec \<Rightarrow> Message \<Rightarrow> bool" where
  "msg_ok M s m \<longleftrightarrow> msg_from m \<in> M \<and>
     (case msg_type m of
        kRequestVote \<Rightarrow> request_ok s m
      | kRequestVoteResp \<Rightarrow>
          vote_granted m \<longrightarrow> sp_vote s (msg_from m) (unat (msg_term m)) = Some (msg_to m)
      | kAppendEntries \<Rightarrow> append_ok s m
      | kAppendEntriesResp \<Rightarrow>
          success m \<longrightarrow> unat (msg_match_index m) \<le> sp_acked s (msg_from m) (unat (msg_term m)))"

definition node_state ::
  "(NodeId \<Rightarrow> Config) \<Rightarrow> NodeId set \<Rightarrow> (NodeId, bytes) spec \<Rightarrow> NodeId \<Rightarrow> Raft \<Rightarrow> bool" where
  "node_state cfg M s n r \<longleftrightarrow>
     n \<in> M \<and> spec_inv (majority M) s \<and> node_rel cfg M s n r \<and> (\<forall>m\<in>set (out_msgs r). msg_ok M s m)"

text \<open>What steps of node \<open>n\<close> leave alone at node \<open>m\<close>.\<close>

definition frame :: "'n \<Rightarrow> ('n, 'd) spec \<Rightarrow> ('n, 'd) spec \<Rightarrow> bool" where
  "frame m s s' \<longleftrightarrow>
     sp_term s' m = sp_term s m \<and> sp_log s' m = sp_log s m \<and> sp_leads s' m = sp_leads s m \<and>
     sp_commit s' m = sp_commit s m \<and> sp_vote s' m = sp_vote s m \<and>
     (\<forall>T l. sp_llog s' T = Some (m, l) \<longrightarrow> (\<exists>l0. sp_llog s T = Some (m, l0)))"

definition moves :: "'n set \<Rightarrow> 'n \<Rightarrow> ('n, 'd) spec \<Rightarrow> ('n, 'd) spec \<Rightarrow> bool" where
  "moves M n s s' \<longleftrightarrow> (spec_step (majority M))\<^sup>*\<^sup>* s s' \<and> grows s s' \<and> (\<forall>m. m \<noteq> n \<longrightarrow> frame m s s')"

lemma moves_refl [simp]: "moves M n s s"
  by (simp add: moves_def frame_def)

lemma moves_trans: "moves M n s s1 \<Longrightarrow> moves M n s1 s2 \<Longrightarrow> moves M n s s2"
  unfolding moves_def frame_def by (intro conjI allI impI) (auto intro: rtranclp_trans grows_trans)

lemma moves_step:
  assumes "spec_inv (majority M) s" "spec_step (majority M) s s'" "\<And>m. m \<noteq> n \<Longrightarrow> frame m s s'"
  shows "moves M n s s' \<and> spec_inv (majority M) s'"
  using assms majority.spec_inv_step [OF assms(2,1)] by (auto simp: moves_def)

definition reaches ::
  "(NodeId \<Rightarrow> Config) \<Rightarrow> NodeId set \<Rightarrow> (NodeId, bytes) spec \<Rightarrow> NodeId \<Rightarrow> Raft \<Rightarrow> bool" where
  "reaches cfg M s n r \<longleftrightarrow> (\<exists>s'. moves M n s s' \<and> node_state cfg M s' n r)"

lemma reaches_refl: "node_state cfg M s n r \<Longrightarrow> reaches cfg M s n r"
  unfolding reaches_def by (intro exI [of _ s]) simp

lemma reaches_trans:
  assumes "moves M n s s'" "reaches cfg M s' n r"
  shows "reaches cfg M s n r"
proof -
  from assms(2) obtain s'' where "moves M n s' s''" "node_state cfg M s'' n r"
    unfolding reaches_def by (elim exE conjE)
  with moves_trans [OF assms(1)] show ?thesis unfolding reaches_def by (intro exI conjI)
qed

lemma reaches_step:
  assumes "spec_inv (majority M) s" "spec_step (majority M) s s'" "\<And>m. m \<noteq> n \<Longrightarrow> frame m s s'"
    and "spec_inv (majority M) s' \<Longrightarrow> grows s s' \<Longrightarrow> reaches cfg M s' n r"
  shows "reaches cfg M s n r"
proof -
  from moves_step [OF assms(1-3)] have mv: "moves M n s s'" "spec_inv (majority M) s'" by simp_all
  then have "grows s s'" by (simp add: moves_def)
  from reaches_trans [OF mv(1) assms(4) [OF mv(2) this]] show ?thesis .
qed

lemma append_ok_grows:
  assumes "grows s s'" "append_ok s m"
  shows "append_ok s' m"
proof -
  let ?T = "unat (msg_term m)" and ?p = "unat (prev_log_index m)"
  let ?k = "?p + length (entries m)"
  from assms(2) obtain l where l: "sp_llog s ?T = Some (msg_from m, l)" "?k \<le> length l" "Suc ?k < 2 ^ 64"
    "map abs_entry (entries m) = drop ?p (take ?k l)" "consecutive ?p (entries m)"
    "unat (prev_log_term m) = (if ?p = 0 then 0 else fst (l ! (?p - 1)))"
    "unat (leader_commit m) \<le> sp_announced s ?T" "unat (leader_commit m) \<le> ?k"
    unfolding append_ok_def Let_def by blast
  from growsD(1) [OF assms(1) l(1)] obtain x where x: "sp_llog s' ?T = Some (msg_from m, l @ x)" by blast
  have "sp_announced s ?T \<le> sp_announced s' ?T" by (rule growsD(7) [OF assms(1) l(1)])
  with l x show ?thesis
    unfolding append_ok_def Let_def by (intro exI [of _ "l @ x"]) (auto simp: nth_append)
qed

lemma msg_ok_grows: "grows s s' \<Longrightarrow> msg_ok M s m \<Longrightarrow> msg_ok M s' m"
  unfolding msg_ok_def request_ok_def
  by (auto split: MessageType.splits dest: growsD(4,5) intro: append_ok_grows order_trans [OF _ growsD(3)])

lemma node_rel_frame:
  assumes "grows s s'" "frame n s s'" "node_rel cfg M s n r"
  shows "node_rel cfg M s' n r"
proof -
  have "candidate_rel M s' n r" if "candidate_rel M s n r"
    using that assms(2) growsD(4,5) [OF assms(1)] unfolding candidate_rel_def frame_def by metis
  moreover have "leader_rel M s' n r" if "leader_rel M s n r"
    using that assms(2) growsD(3) [OF assms(1)] unfolding leader_rel_def frame_def by (auto intro: order_trans)
  ultimately show ?thesis using assms(2,3) unfolding node_rel_def frame_def by auto
qed


subsection \<open>The code takes steps of the protocol\<close>

lemmas rel_defs = node_rel_def candidate_rel_def leader_rel_def

lemma node_rel_frame_fields [simp]:
  "node_rel cfg M s n (r\<lparr>leader := a\<rparr>) = node_rel cfg M s n r"
  "node_rel cfg M s n (r\<lparr>election_elapsed := b\<rparr>) = node_rel cfg M s n r"
  "node_rel cfg M s n (r\<lparr>heartbeat_elapsed := b\<rparr>) = node_rel cfg M s n r"
  "node_rel cfg M s n (r\<lparr>hard_state_dirty := c\<rparr>) = node_rel cfg M s n r"
  "node_rel cfg M s n (r\<lparr>stable_index := d\<rparr>) = node_rel cfg M s n r"
  "node_rel cfg M s n (r\<lparr>out_msgs := e\<rparr>) = node_rel cfg M s n r"
  by (simp_all add: rel_defs)

lemma node_state_frame_fields [simp]:
  "node_state cfg M s n (r\<lparr>leader := a\<rparr>) = node_state cfg M s n r"
  "node_state cfg M s n (r\<lparr>election_elapsed := b\<rparr>) = node_state cfg M s n r"
  "node_state cfg M s n (r\<lparr>heartbeat_elapsed := b\<rparr>) = node_state cfg M s n r"
  "node_state cfg M s n (r\<lparr>hard_state_dirty := c\<rparr>) = node_state cfg M s n r"
  "node_state cfg M s n (r\<lparr>stable_index := d\<rparr>) = node_state cfg M s n r"
  by (simp_all add: node_state_def)

lemma node_stateD:
  assumes "node_state cfg M s n r"
  shows "n \<in> M" "spec_inv (majority M) s" "config r = cfg n" "log_ok (log r)"
    "abs_log (log r) = sp_log s n" "unat (current_term r) = sp_term s n"
    "sp_vote s n (sp_term s n) = (if voted_for r = 0 then None else Some (voted_for r))"
    "role r = kLeader \<longleftrightarrow> sp_leads s n" "unat (commit_index r) = sp_commit s n"
    "last_applied r \<le> commit_index r" "role r = kCandidate \<Longrightarrow> candidate_rel M s n r"
    "role r = kLeader \<Longrightarrow> leader_rel M s n r" "m \<in> set (out_msgs r) \<Longrightarrow> msg_ok M s m"
  using assms by (auto simp: node_state_def node_rel_def)

lemma node_log_length:
  assumes "node_state cfg M s n r"
  shows "length (log r) = Suc (length (sp_log s n))"
  using node_stateD(4,5) [OF assms] length_abs_log [of "log r"] by (auto simp: log_ok_def)

lemma node_state_Send:
  "node_state cfg M s n r \<Longrightarrow> msg_ok M s m \<Longrightarrow> node_state cfg M s n (Send r m)"
  by (simp add: node_state_def Send_def ball_Un)

text \<open>A step of the protocol that leaves the messages of the node valid.\<close>

lemma node_state_step:
  assumes "node_state cfg M s n r" "spec_inv (majority M) s'" "grows s s'"
    and "node_rel cfg M s' n r'" "out_msgs r' = out_msgs r"
  shows "node_state cfg M s' n r'"
  using assms msg_ok_grows [OF assms(3)] by (simp add: node_state_def)

lemma member_facts:
  assumes "membership cfg M" "n \<in> M" "config r = cfg n"
  shows "raft_id r = n" "set (other_peers r) = M - {n}" "distinct (other_peers r)"
    "QuorumSize r = card M div 2 + 1" "finite M" "n \<noteq> 0"
proof -
  have p: "cfg_id (cfg n) = n" "distinct (peers (cfg n))" "set (peers (cfg n)) = M"
    using assms by (auto simp: membership_def)
  show "raft_id r = n" using p assms(3) by (simp add: raft_id_def)
  then show "set (other_peers r) = M - {n}" "distinct (other_peers r)"
    using p assms(3) by (auto simp: other_peers_def)
  show "QuorumSize r = card M div 2 + 1"
    using distinct_card [OF p(2)] p(3) assms(3) by (simp add: QuorumSize_def)
  show "finite M" using p(3) by auto
  show "n \<noteq> 0" using assms by (auto simp: membership_def)
qed

lemma majority_card:
  assumes "finite M" "card M div 2 + 1 \<le> card Q" "Q \<subseteq> M"
  shows "majority M Q"
  using assms unfolding majority_def by linarith

lemma unat_Suc_LastIndex:
  assumes "log_ok (log r)"
  shows "unat (LastIndex r + 1) = length (log r)"
  using log_ok_length(2) [OF assms] by (simp add: LastIndex_def unat_of_nat_u64)

lemma AppendEntries_for_ok:
  assumes mem: "membership cfg M" and st: "node_state cfg M s n r" and "role r = kLeader" "p \<in> M - {n}"
  shows "msg_ok M s (AppendEntries_for r p)"
proof -
  note d = node_stateD [OF st]
  let ?next = "next_index r p" and ?A = "abs_log (log r)"
  from d(12) [OF assms(3)] assms(4) have nx: "0 < unat ?next" "unat ?next \<le> length (log r)"
    unfolding leader_rel_def by blast+
  have "?next \<noteq> 0" using nx(1) by auto
  then have prev: "unat (?next - 1) = unat ?next - 1" by (rule unat_minus_one)
  have last: "Suc (unat (LastIndex r)) = length (log r)"
    using unat_LastIndex [OF d(4)] log_ok_length [OF d(4)] by simp
  have entries: "map (\<lambda>i. log r ! i) [unat ?next..<length (log r)] = drop (unat ?next) (log r)"
    by (rule nth_equalityI) auto
  from d(2) have inv: "inv_leaders (majority M) s" "inv_commit (majority M) s" by (simp_all add: spec_inv_def)
  have llog: "sp_llog s (sp_term s n) = Some (n, ?A)"
    using leads_llog [OF inv(1)] assms(3) d(5,8) by simp
  have "unat (commit_index r) \<le> length ?A" "unat (commit_index r) \<le> sp_announced s (sp_term s n)"
    using inv(2) assms(3) d(5,8,9) unfolding inv_commit_def by auto
  moreover have "unat (TermAt r (?next - 1)) =
      (if unat ?next - 1 = 0 then 0 else fst (?A ! (unat ?next - 1 - 1)))"
    using unat_TermAt [OF d(4), of "?next - 1"] prev nx by (simp add: length_abs_log)
  moreover have "consecutive (unat ?next - 1) (drop (unat ?next) (log r))"
    using d(4) nx by (auto simp: consecutive_def log_ok_def)
  moreover have "map abs_entry (drop (unat ?next) (log r)) = drop (unat ?next - 1) ?A"
    using nx(1) by (simp add: abs_log_def drop_map drop_tl [symmetric] drop_Suc [symmetric])
  moreover have "unat ?next - 1 + (length (log r) - unat ?next) = length ?A" "Suc (length ?A) < 2 ^ 64"
    using nx log_ok_length [OF d(4)] by (simp_all add: length_abs_log)
  ultimately have "append_ok s (AppendEntries_for r p)"
    unfolding append_ok_def AppendEntries_for_def Let_def last entries
    using llog prev d(6) member_facts(1) [OF mem d(1,3)]
    by (intro exI [of _ ?A]) (simp add: new_Message_def)
  then show ?thesis
    using d(1) member_facts(1) [OF mem d(1,3)]
    by (simp add: msg_ok_def AppendEntries_for_def new_Message_def Let_def)
qed

lemma Broadcast_reaches:
  assumes mem: "membership cfg M" and st: "node_state cfg M s n r" and "role r = kLeader"
  shows "node_state cfg M s n (BroadcastAppendEntries r) \<and> role (BroadcastAppendEntries r) = kLeader"
proof -
  have "node_state cfg M s n (foldl SendAppendEntries r' ps) \<and> role (foldl SendAppendEntries r' ps) = kLeader"
    if "node_state cfg M s n r'" "role r' = kLeader" "set ps \<subseteq> M - {n}" for r' ps
    using that
  proof (induction ps arbitrary: r')
    case (Cons p ps)
    from node_state_Send [OF Cons.prems(1) AppendEntries_for_ok [OF mem Cons.prems(1,2), of p]] Cons.prems(3)
    have "node_state cfg M s n (SendAppendEntries r' p)" by (simp add: SendAppendEntries_def)
    moreover have "role (SendAppendEntries r' p) = kLeader"
      using Cons.prems(2) by (simp add: SendAppendEntries_def Send_def)
    ultimately show ?case using Cons.IH Cons.prems(3) by simp
  qed simp
  then show ?thesis
    using st assms(3) member_facts(2) [OF mem node_stateD(1,3) [OF st]]
    unfolding BroadcastAppendEntries_def by blast
qed

lemma BecomeFollower_reaches:
  assumes st: "node_state cfg M s n r"
    and t: "current_term r < t \<or> current_term r = t \<and> role r \<noteq> kLeader"
  shows "reaches cfg M s n (BecomeFollower r t lead)"
proof -
  note d = node_stateD [OF st]
  show ?thesis
  proof (cases "current_term r < t")
    case True
    let ?s = "s\<lparr>sp_term := (sp_term s)(n := unat t), sp_leads := (sp_leads s)(n := False)\<rparr>"
    have lt: "sp_term s n < unat t" using True d(6) by (simp add: word_less_nat_alt)
    have "sp_vote s n (unat t) = None" using d(2) lt by (simp add: spec_inv_def inv_future_def)
    then have rel: "node_rel cfg M ?s n (BecomeFollower r t lead)"
      using d True by (simp add: rel_defs BecomeFollower_def Let_def)
    show ?thesis
    proof (rule reaches_step [OF d(2) spec_step.new_term [OF lt]])
      fix m assume "m \<noteq> n"
      then show "frame m s ?s" by (simp add: frame_def)
    next
      assume "spec_inv (majority M) ?s" "grows s ?s"
      from node_state_step [OF st this rel] True show "reaches cfg M ?s n (BecomeFollower r t lead)"
        by (intro reaches_refl) (simp add: BecomeFollower_def Let_def)
    qed
  next
    case False
    with t st show ?thesis
      by (intro reaches_refl) (auto simp: node_state_def rel_defs BecomeFollower_def Let_def)
  qed
qed

lemma candidate_wins:
  assumes "spec_inv (majority M) s" "candidate_rel M s n r" "majority M (set (votes_granted r))"
  shows "sp_llog s (sp_term s n) = None"
proof (rule ccontr)
  let ?T = "sp_term s n"
  assume "sp_llog s ?T \<noteq> None"
  then obtain c l where l: "sp_llog s ?T = Some (c, l)" by auto
  with assms(1) have "elected (majority M) s ?T c l" by (simp add: spec_inv_def inv_leaders_def)
  then obtain Q where Q: "majority M Q" "\<forall>v\<in>Q. sp_vote s v ?T = Some c" by (auto simp: elected_def)
  from majority.quorums_meet [OF assms(3) Q(1)] obtain v where "v \<in> set (votes_granted r)" "v \<in> Q" by blast
  with Q(2) assms(2) have "c = n" unfolding candidate_rel_def by fastforce
  with l assms(2) show False by (simp add: candidate_rel_def)
qed

lemma BecomeLeader_reaches:
  assumes mem: "membership cfg M" and st: "node_state cfg M s n r" and "role r = kCandidate"
    and votes: "QuorumSize r \<le> length (votes_granted r)"
  shows "reaches cfg M s n (BecomeLeader r)"
proof -
  note d = node_stateD [OF st]
  note mf = member_facts [OF mem d(1,3)]
  let ?T = "sp_term s n"
  note cand = d(11) [OF assms(3)]
  have maj: "majority M (set (votes_granted r))"
    using cand votes mf(4,5) by (intro majority_card) (auto simp: candidate_rel_def distinct_card)
  note llog = candidate_wins [OF d(2) cand maj]
  let ?s = "s\<lparr>sp_leads := (sp_leads s)(n := True), sp_llog := (sp_llog s)(?T := Some (n, sp_log s n)),
    sp_acked := upd2 (sp_acked s) n ?T (length (sp_log s n)),
    sp_announced := (sp_announced s)(?T := sp_commit s n)\<rparr>"
  have step: "spec_step (majority M) s ?s"
    using spec_step.win [where T = ?T and s = s and n = n and quorum = "majority M"
        and Q = "set (votes_granted r)", OF refl _ llog maj]
      cand by (simp add: candidate_rel_def)
  let ?r = "r\<lparr>role := kLeader, leader := n, heartbeat_elapsed := 0,
    next_index := (\<lambda>p. if p \<in> M - {n} then LastIndex r + 1 else 0), match_index := (\<lambda>p. 0)\<rparr>"
  have eq: "BecomeLeader r = BroadcastAppendEntries ?r"
  proof -
    have "other_peers (r\<lparr>role := kLeader, leader := n, heartbeat_elapsed := 0,
        next_index := (\<lambda>_. 0), match_index := (\<lambda>_. 0)\<rparr>) = other_peers r"
      by (simp add: other_peers_def raft_id_def)
    then show ?thesis
      unfolding BecomeLeader_def Let_def set_peers_foldl mf(1)
      by (intro arg_cong [of _ _ BroadcastAppendEntries] Raft.equality)
         (use mf(2) in \<open>simp_all add: LastIndex_def fun_eq_iff\<close>)
  qed
  have "0 < length (log r)" by (rule log_ok_length(1) [OF d(4)])
  then have rel: "node_rel cfg M ?s n ?r"
    using d unat_Suc_LastIndex [OF d(4)] by (simp add: rel_defs)
  show ?thesis
  proof (rule reaches_step [OF d(2) step])
    fix m assume "m \<noteq> n"
    then show "frame m s ?s" by (auto simp: frame_def)
  next
    assume "spec_inv (majority M) ?s" "grows s ?s"
    from node_state_step [OF st this rel] have "node_state cfg M ?s n ?r" by simp
    from Broadcast_reaches [OF mem this] show "reaches cfg M ?s n (BecomeLeader r)"
      unfolding eq by (intro reaches_refl) simp
  qed
qed

lemma RequestVotes_ok:
  assumes mem: "membership cfg M" and st: "node_state cfg M s n r" and "role r = kCandidate"
  shows "node_state cfg M s n (foldl (\<lambda>r peer. Send r (RequestVote_for r peer)) r ps)"
  using st assms(3)
proof (induction ps arbitrary: r)
  case (Cons p ps)
  note d = node_stateD [OF Cons.prems(1)]
  from d(11) [OF Cons.prems(2)] have "sp_stood s n (sp_term s n) = Some (abs_log (log r))"
    by (simp add: candidate_rel_def d(5))
  moreover have "unat (LastIndex r) = length (abs_log (log r))"
    using unat_LastIndex [OF d(4)] by (simp add: length_abs_log)
  ultimately have "msg_ok M s (RequestVote_for r p)"
    using d(1,6) unat_LastTerm [OF d(4)] member_facts(1) [OF mem d(1,3)]
    by (simp add: msg_ok_def request_ok_def RequestVote_for_def new_Message_def)
  from node_state_Send [OF Cons.prems(1) this] Cons.IH [of "Send r (RequestVote_for r p)"] Cons.prems(2)
  show ?case by (simp add: Send_def)
qed simp

lemma BecomeCandidate_reaches:
  assumes mem: "membership cfg M" and st: "node_state cfg M s n r"
    and "Suc (unat (current_term r)) < 2 ^ 64"
  shows "reaches cfg M s n (BecomeCandidate r)"
proof -
  note d = node_stateD [OF st]
  note mf = member_facts [OF mem d(1,3)]
  let ?T = "Suc (sp_term s n)"
  let ?s = "s\<lparr>sp_term := (sp_term s)(n := ?T), sp_leads := (sp_leads s)(n := False),
      sp_vote := upd2 (sp_vote s) n ?T (Some n), sp_stood := upd2 (sp_stood s) n ?T (Some (sp_log s n)),
      sp_ballot := upd2 (sp_ballot s) n ?T (if sp_llog s ?T = None then Some (sp_log s n) else None)\<rparr>"
  let ?r = "r\<lparr>current_term := current_term r + 1, voted_for := n, hard_state_dirty := True,
    role := kCandidate, leader := 0, election_elapsed := 0, votes_granted := [n]\<rparr>"
  have T: "unat (current_term r + 1) = ?T"
    using unat_Suc_u64 [OF assms(3)] d(6) by simp
  have "sp_llog s ?T \<noteq> Some (n, l)" for l
    using d(2) unfolding spec_inv_def inv_leaders_def by (metis Suc_n_not_le_n)
  with d T mf have rel: "node_rel cfg M ?s n ?r" by (simp add: rel_defs)
  show ?thesis
  proof (rule reaches_step [OF d(2) spec_step.stand [OF refl]])
    fix m assume "m \<noteq> n"
    then show "frame m s ?s" by (auto simp: frame_def)
  next
    assume "spec_inv (majority M) ?s" "grows s ?s"
    from node_state_step [OF st this rel] have st': "node_state cfg M ?s n ?r" by simp
    have eq: "BecomeCandidate r = (if QuorumSize ?r \<le> length (votes_granted ?r) then BecomeLeader ?r
        else foldl (\<lambda>r peer. Send r (RequestVote_for r peer)) ?r (other_peers ?r))"
      by (simp add: BecomeCandidate_def mf(1) Let_def)
    show "reaches cfg M ?s n (BecomeCandidate r)"
    proof (cases "QuorumSize ?r \<le> length (votes_granted ?r)")
      case True
      with BecomeLeader_reaches [OF mem st'] eq show ?thesis by simp
    next
      case False
      with RequestVotes_ok [OF mem st'] eq show ?thesis by (simp add: reaches_refl)
    qed
  qed
qed

text \<open>The check of \<^verbatim>\<open>HandleRequestVote\<close> is the comparison of logs.\<close>

lemma up_to_date_code:
  assumes "log_ok (log r)" "unat (last_log_index m) = length g" "unat (last_log_term m) = last_term g"
  shows "(last_log_term m > LastTerm r \<or> last_log_term m = LastTerm r \<and> last_log_index m \<ge> LastIndex r) \<longleftrightarrow>
    up_to_date g (abs_log (log r))"
  using unat_LastIndex [OF assms(1)] unat_LastTerm [OF assms(1)] assms(2,3)
  by (auto simp: up_to_date_def word_less_nat_alt word_le_nat_alt word_unat_eq_iff length_abs_log)

lemma HandleRequestVote_reaches:
  assumes mem: "membership cfg M" and st: "node_state cfg M s n r"
    and msg: "msg_ok M s m" "msg_type m = kRequestVote" "msg_term m = current_term r"
  shows "reaches cfg M s n (HandleRequestVote r m)"
proof -
  note d = node_stateD [OF st]
  let ?T = "sp_term s n" and ?c = "msg_from m"
  from msg d(6) obtain g where g: "sp_stood s ?c ?T = Some g"
    "unat (last_log_index m) = length g" "unat (last_log_term m) = last_term g"
    by (auto simp: msg_ok_def request_ok_def)
  have c: "?c \<noteq> 0" using msg(1) mem by (auto simp: msg_ok_def membership_def)
  let ?can = "voted_for r = 0 \<or> voted_for r = ?c"
  let ?utd = "up_to_date g (abs_log (log r))"
  let ?resp = "\<lambda>b. (new_Message kRequestVoteResp)\<lparr>msg_from := raft_id r, msg_to := ?c,
    msg_term := current_term r, vote_granted := b\<rparr>"
  let ?r = "r\<lparr>voted_for := ?c, hard_state_dirty := True, election_elapsed := 0\<rparr>"
  have eq: "HandleRequestVote r m = (if ?can \<and> ?utd then Send ?r (?resp True) else Send r (?resp False))"
    unfolding HandleRequestVote_def Let_def up_to_date_code [OF d(4) g(2,3)] by simp
  note id = member_facts(1) [OF mem d(1,3)]
  consider "\<not> (?can \<and> ?utd)" | "voted_for r = ?c" ?utd | "voted_for r = 0" ?utd by blast
  then show ?thesis
  proof cases
    case 1
    then have "HandleRequestVote r m = Send r (?resp False)" unfolding eq by (rule if_not_P)
    moreover have "msg_ok M s (?resp False)" using d(1) id by (simp add: msg_ok_def new_Message_def)
    ultimately show ?thesis using node_state_Send [OF st] by (simp add: reaches_refl)
  next
    case 2
    then have eq2: "HandleRequestVote r m = Send ?r (?resp True)" unfolding eq by simp
    have "msg_ok M s (?resp True)" using d(1,6,7) id 2 c by (simp add: msg_ok_def new_Message_def)
    moreover have "node_state cfg M s n ?r"
    proof -
      have "?r = r\<lparr>hard_state_dirty := True, election_elapsed := 0\<rparr>" using 2 by simp
      then show ?thesis using st by simp
    qed
    ultimately show ?thesis using node_state_Send unfolding eq2 by (intro reaches_refl) blast
  next
    case 3
    then have eq3: "HandleRequestVote r m = Send ?r (?resp True)" unfolding eq by simp
    let ?s = "s\<lparr>sp_vote := upd2 (sp_vote s) n ?T (Some ?c),
      sp_ballot := upd2 (sp_ballot s) n ?T (if sp_llog s ?T = None then Some (sp_log s n) else None)\<rparr>"
    have none: "sp_vote s n ?T = None" using d(7) 3 by simp
    have "up_to_date g (sp_log s n)" using 3 d(5) by simp
    note step = spec_step.grant [where quorum = "majority M", OF refl g(1) none this]
    show ?thesis
    proof (rule reaches_step [OF d(2) step])
      fix m' assume "m' \<noteq> n"
      then show "frame m' s ?s" by (auto simp: frame_def fun_eq_iff)
    next
      assume *: "spec_inv (majority M) ?s" "grows s ?s"
      have "candidate_rel M ?s n r" if "candidate_rel M s n r"
        using that none by (auto simp: candidate_rel_def)
      with d c have "node_rel cfg M ?s n ?r" by (auto simp: rel_defs)
      from node_state_step [OF st * this] have "node_state cfg M ?s n ?r" by simp
      moreover have "msg_ok M ?s (?resp True)"
        using d(1,6) id by (simp add: msg_ok_def new_Message_def)
      ultimately show "reaches cfg M ?s n (HandleRequestVote r m)"
        using node_state_Send unfolding eq3 by (intro reaches_refl) blast
    qed
  qed
qed

text \<open>
  An accepted \<^verbatim>\<open>AppendEntries\<close>: the entries are taken over and then, where the leader has
  committed more, the commit index follows. The leader sends everything behind
  \<^verbatim>\<open>prev_log_index\<close>, so its commit index never exceeds what the follower then shares with it.
\<close>

lemma AppendEntries_accepted:
  assumes st: "node_state cfg M s n r" and role: "role r = kFollower"
    and msg: "append_ok s m" "msg_term m = current_term r"
    and prev: "\<not> (prev_log_index m > LastIndex r \<or> TermAt r (prev_log_index m) \<noteq> prev_log_term m)"
    and r1: "r1 = foldl append_entry r (entries m)"
    and r2: "r2 = (if leader_commit m > commit_index r1
                   then r1\<lparr>commit_index := min (leader_commit m) (LastIndex r1)\<rparr> else r1)"
  shows "\<exists>s'. moves M n s s' \<and> node_state cfg M s' n r2 \<and>
    unat (prev_log_index m + of_nat (length (entries m))) \<le> sp_acked s' n (unat (current_term r))"
proof -
  note d = node_stateD [OF st]
  let ?T = "sp_term s n" and ?p = "unat (prev_log_index m)"
  let ?k = "?p + length (entries m)"
  from msg(1) obtain l where l: "sp_llog s ?T = Some (msg_from m, l)" "?k \<le> length l" "Suc ?k < 2 ^ 64"
    "map abs_entry (entries m) = drop ?p (take ?k l)" "consecutive ?p (entries m)"
    "unat (prev_log_term m) = (if ?p = 0 then 0 else fst (l ! (?p - 1)))"
    "unat (leader_commit m) \<le> sp_announced s ?T" "unat (leader_commit m) \<le> ?k"
    unfolding append_ok_def Let_def msg(2) d(6) by blast
  have p: "?p \<le> length (abs_log (log r))"
    using prev unat_LastIndex [OF d(4)] by (simp add: length_abs_log word_less_nat_alt)
  then have pt: "?p = 0 \<or> fst (sp_log s n ! (?p - 1)) = fst (l ! (?p - 1))"
    using unat_TermAt [OF d(4), of "prev_log_index m"] prev l(6) d(5) by (auto split: if_splits)
  let ?x = "merge ?p (sp_log s n) (drop ?p (take ?k l))"
  let ?s = "s\<lparr>sp_log := (sp_log s)(n := ?x), sp_acked := upd2 (sp_acked s) n ?T (max (sp_acked s n ?T) ?k)\<rparr>"
  have lead: "\<not> sp_leads s n" using role d(8) by simp
  have step: "spec_step (majority M) s ?s"
    using spec_step.accept [where quorum = "majority M", OF refl lead l(1) _ l(2) _ pt] p d(5) by simp
  obtain lg st1 where fr: "r1 = r\<lparr>log := lg, stable_index := st1\<rparr>"
    unfolding r1 using append_entries_frame by blast
  have lg: "abs_log lg = ?x" "log_ok lg"
    using append_entries_merge [OF d(4) l(5) p l(3)] fr r1 l(4) d(5) by simp_all
  have inv: "inv_logs s" using d(2) by (simp add: spec_inv_def)
  have x: "take ?k ?x = take ?k l"
    using accept_result [OF inv l(1) _ l(2) _ pt refl] p d(5) by auto
  then have kx: "?k \<le> length ?x" using take_eq_length l(2) by blast
  from moves_step [OF d(2) step, of n] have mv: "moves M n s ?s" "spec_inv (majority M) ?s"
    by (auto simp: frame_def)
  from mv(2) have "sp_commit ?s n \<le> length (sp_log ?s n)" unfolding spec_inv_def inv_commit_def by blast
  then have cx: "sp_commit s n \<le> length ?x" by simp
  have "node_rel cfg M ?s n r1" using role d lg by (simp add: fr rel_defs)
  from node_state_step [OF st mv(2) _ this] mv(1) fr have st1: "node_state cfg M ?s n r1"
    by (simp add: moves_def)
  have acked: "unat (prev_log_index m + of_nat (length (entries m))) = ?k"
    using l(3) by (simp add: unat_word_ariths unat_of_nat_u64)
  show ?thesis
  proof (cases "leader_commit m > commit_index r1")
    case False
    with mv(1) st1 acked d(6) r2 show ?thesis by (intro exI [of _ ?s]) simp
  next
    case True
    have "unat (LastIndex r1) = length ?x"
      using unat_LastIndex [of r1] lg length_abs_log [of lg] fr by simp
    then have "min (leader_commit m) (LastIndex r1) = leader_commit m"
      using l(8) kx by (simp add: min_def word_le_nat_alt)
    with True r2 have r2: "r2 = r1\<lparr>commit_index := leader_commit m\<rparr>" by simp
    let ?lc = "unat (leader_commit m)"
    let ?s2 = "?s\<lparr>sp_commit := (sp_commit ?s)(n := ?lc)\<rparr>"
    have llog: "sp_llog ?s (sp_term ?s n) = Some (msg_from m, l)" using l(1) by simp
    have pre: "?lc \<le> sp_announced ?s (sp_term ?s n)" "sp_commit ?s n \<le> ?lc"
      "?lc \<le> length (sp_log ?s n)" "take ?lc (sp_log ?s n) = take ?lc l"
      using l(7,8) True kx take_eq_take_le [OF x l(8)] d(9) fr by (simp_all add: word_less_nat_alt)
    have step2: "spec_step (majority M) ?s ?s2"
      by (rule spec_step.follow [where quorum = "majority M", OF refl llog pre])
    have "\<And>m. m \<noteq> n \<Longrightarrow> frame m ?s ?s2" by (auto simp: frame_def)
    from moves_step [OF mv(2) step2 this] have mv2: "moves M n ?s ?s2" "spec_inv (majority M) ?s2"
      by simp_all
    have "node_rel cfg M ?s2 n r2"
      using node_stateD [OF st1] role fr True by (auto simp: r2 rel_defs intro: order_trans)
    from node_state_step [OF st1 mv2(2) _ this] mv2(1) r2 have "node_state cfg M ?s2 n r2"
      by (simp add: moves_def)
    moreover note moves_trans [OF mv(1) mv2(1)]
    ultimately show ?thesis using acked d(6) by (intro exI [of _ ?s2]) simp
  qed
qed

lemma HandleAppendEntries_reaches:
  assumes mem: "membership cfg M" and st: "node_state cfg M s n r" and role: "role r = kFollower"
    and msg: "append_ok s m" "msg_term m = current_term r"
  shows "reaches cfg M s n (HandleAppendEntries r m)"
proof -
  let ?r = "r\<lparr>leader := msg_from m, election_elapsed := 0\<rparr>"
  let ?resp = "(new_Message kAppendEntriesResp)
    \<lparr>msg_from := raft_id ?r, msg_to := msg_from m, msg_term := current_term ?r\<rparr>"
  have st': "node_state cfg M s n ?r" using st by simp
  note d = node_stateD [OF st']
  note id = member_facts(1) [OF mem d(1,3)]
  show ?thesis
  proof (cases "prev_log_index m > LastIndex ?r \<or> TermAt ?r (prev_log_index m) \<noteq> prev_log_term m")
    case True
    then have "HandleAppendEntries r m = Send ?r (?resp\<lparr>success := False\<rparr>)"
      unfolding HandleAppendEntries_def Let_def by (rule if_P)
    moreover have "msg_ok M s (?resp\<lparr>success := False\<rparr>)" using d(1) id by (simp add: msg_ok_def new_Message_def)
    ultimately show ?thesis using node_state_Send [OF st'] by (simp add: reaches_refl)
  next
    case False
    define r1 where "r1 = foldl append_entry ?r (entries m)"
    define r2 where "r2 = (if leader_commit m > commit_index r1
      then r1\<lparr>commit_index := min (leader_commit m) (LastIndex r1)\<rparr> else r1)"
    let ?ok = "?resp\<lparr>success := True, msg_match_index := prev_log_index m + of_nat (length (entries m))\<rparr>"
    have eq: "HandleAppendEntries r m = Send r2 ?ok"
      unfolding HandleAppendEntries_def Let_def r2_def r1_def by (rule if_not_P) (rule False)
    from AppendEntries_accepted [OF st' _ msg(1) _ False r1_def r2_def] role msg(2) obtain s' where
      s': "moves M n s s'" "node_state cfg M s' n r2"
      "unat (prev_log_index m + of_nat (length (entries m))) \<le> sp_acked s' n (unat (current_term r))" by auto
    have "msg_ok M s' ?ok" using s'(3) d(1) id by (simp add: msg_ok_def new_Message_def)
    from reaches_trans [OF s'(1) reaches_refl [OF node_state_Send [OF s'(2) this]]] show ?thesis
      unfolding eq .
  qed
qed

text \<open>An entry of the current term that a majority has, by the leader's books, is committed.\<close>

lemma replicas_committed:
  assumes mem: "membership cfg M" and st: "node_state cfg M s n r" and role: "role r = kLeader"
    and k: "0 < unat k" "unat k \<le> length (log r) - 1"
    and "TermAt r k = current_term r" "QuorumSize r \<le> replicas r k"
  shows "committed (majority M) s (sp_term s n) (unat k)"
proof -
  note d = node_stateD [OF st]
  note mf = member_facts [OF mem d(1,3)]
  note ld = d(12) [OF role]
  let ?A = "abs_log (log r)" and ?T = "sp_term s n"
  let ?Q = "insert n {p \<in> M - {n}. match_index r p \<ge> k}"
  from d(2) have inv: "inv_leaders (majority M) s" by (simp add: spec_inv_def)
  have llog: "sp_llog s ?T = Some (n, ?A)" using leads_llog [OF inv] role d(5,8) by simp
  have "set (filter (\<lambda>p. k \<le> match_index r p) (other_peers r)) = {p \<in> M - {n}. match_index r p \<ge> k}"
    using mf(2) by auto
  then have "length (filter (\<lambda>p. k \<le> match_index r p) (other_peers r)) = card {p \<in> M - {n}. match_index r p \<ge> k}"
    using distinct_card [OF distinct_filter [OF mf(3)]] by metis
  moreover have "card ?Q = Suc (card {p \<in> M - {n}. match_index r p \<ge> k})"
    using mf(5) by (subst card_insert_disjoint) auto
  ultimately have "majority M ?Q"
    using assms(7) mf(4,5) d(1) by (intro majority_card) (auto simp: replicas_def)
  moreover have "unat k \<le> sp_acked s v ?T" if "v \<in> ?Q" for v
  proof (cases "v = n")
    case True
    with ld k(2) d(5) show ?thesis unfolding leader_rel_def by (metis length_abs_log order_trans)
  next
    case False
    with that ld have "unat (match_index r v) \<le> sp_acked s v ?T" "k \<le> match_index r v"
      unfolding leader_rel_def by auto
    then show ?thesis by (simp add: word_le_nat_alt)
  qed
  moreover have "fst (?A ! (unat k - 1)) = ?T"
    using unat_TermAt [OF d(4), of k] k assms(6) d(6) by (simp add: length_abs_log)
  ultimately show ?thesis
    unfolding committed_def using llog k by (intro exI [of _ n] exI [of _ ?A] exI [of _ ?Q]) (simp add: length_abs_log)
qed

lemma MaybeCommit_loop_reaches:
  assumes mem: "membership cfg M"
  shows "node_state cfg M s n r \<Longrightarrow> role r = kLeader \<Longrightarrow> unat k \<le> length (log r) - 1 \<Longrightarrow>
    reaches cfg M s n (MaybeCommit_loop r k)"
proof (induction r k rule: MaybeCommit_loop.induct)
  case (1 r k)
  note d = node_stateD [OF "1.prems"(1)]
  consider "\<not> commit_index r < k" | "commit_index r < k" "TermAt r k = current_term r \<and> QuorumSize r \<le> replicas r k"
    | "commit_index r < k" "\<not> (TermAt r k = current_term r \<and> QuorumSize r \<le> replicas r k)" by blast
  then show ?case
  proof cases
    case 1
    then have "MaybeCommit_loop r k = r" by (simp add: MaybeCommit_loop.simps [of r k])
    with "1.prems"(1) show ?thesis by (simp add: reaches_refl)
  next
    case 2
    then have eq: "MaybeCommit_loop r k = r\<lparr>commit_index := k\<rparr>" by (simp add: MaybeCommit_loop.simps [of r k])
    have k: "sp_commit s n < unat k" using 2(1) d(9) by (simp add: word_less_nat_alt)
    have com: "committed (majority M) s (sp_term s n) (unat k)"
      using replicas_committed [OF mem "1.prems"(1,2) _ "1.prems"(3)] k 2(2) by simp
    let ?s = "s\<lparr>sp_commit := (sp_commit s)(n := unat k),
      sp_announced := (sp_announced s)(sp_term s n := max (unat k) (sp_announced s (sp_term s n)))\<rparr>"
    have "sp_leads s n" using d(8) "1.prems"(2) by simp
    from spec_step.commit [where quorum = "majority M", OF refl this com] k
    have step: "spec_step (majority M) s ?s" by simp
    show ?thesis
    proof (rule reaches_step [OF d(2) step])
      fix m assume "m \<noteq> n"
      then show "frame m s ?s" by (auto simp: frame_def)
    next
      assume *: "spec_inv (majority M) ?s" "grows s ?s"
      have "node_rel cfg M ?s n (MaybeCommit_loop r k)"
        using d 2(1) "1.prems"(2) by (auto simp: eq rel_defs intro: order_trans)
      from node_state_step [OF "1.prems"(1) * this] eq show "reaches cfg M ?s n (MaybeCommit_loop r k)"
        by (intro reaches_refl) simp
    qed
  next
    case 3
    then have eq: "MaybeCommit_loop r k = MaybeCommit_loop r (k - 1)" by (subst MaybeCommit_loop.simps) auto
    have "unat (k - 1) \<le> length (log r) - 1" using u64_pred_less [OF 3(1)] "1.prems"(3) by simp
    from "1.IH" [OF 3 "1.prems"(1,2) this] eq show ?thesis by simp
  qed
qed

lemma MaybeCommit_reaches:
  assumes "membership cfg M" "node_state cfg M s n r" "role r = kLeader"
  shows "reaches cfg M s n (MaybeCommit r)"
  using MaybeCommit_loop_reaches [OF assms, of "LastIndex r"] unat_LastIndex [OF node_stateD(4) [OF assms(2)]]
  by (simp add: MaybeCommit_def)

lemma HandleAppendEntriesResp_reaches:
  assumes mem: "membership cfg M" and st: "node_state cfg M s n r" and role: "role r = kLeader"
    and msg: "msg_ok M s m" "msg_type m = kAppendEntriesResp" "msg_term m = current_term r"
  shows "reaches cfg M s n (HandleAppendEntriesResp r m)"
proof -
  note d = node_stateD [OF st]
  note ld = d(12) [OF role]
  let ?A = "abs_log (log r)" and ?T = "sp_term s n" and ?i = "msg_match_index m"
  show ?thesis
  proof (cases "success m")
    case True
    with msg d(6) have ack: "unat ?i \<le> sp_acked s (msg_from m) ?T" by (simp add: msg_ok_def)
    from d(2) have inv: "inv_leaders (majority M) s" "inv_acks s" by (simp_all add: spec_inv_def)
    have "sp_llog s ?T = Some (n, ?A)" using leads_llog [OF inv(1)] role d(5,8) by simp
    with inv(2) have "sp_acked s (msg_from m) ?T \<le> length ?A"
      unfolding inv_acks_def by (metis bot_nat_0.extremum neq0_conv option.inject prod.inject)
    with ack have i: "unat ?i \<le> length ?A" by simp
    then have "Suc (unat ?i) \<le> length (log r)"
      using log_ok_length(1) [OF d(4)] by (simp only: length_abs_log)
    moreover from this have "Suc (unat ?i) < 2 ^ 64" using log_ok_length(2) [OF d(4)] by linarith
    ultimately have "Suc (unat ?i) < 2 ^ 64" "Suc (unat ?i) \<le> length (log r)" by simp_all
    then have i1: "unat (?i + 1) = Suc (unat ?i)" "Suc (unat ?i) \<le> length (log r)"
      by (simp_all add: unat_Suc_u64)
    let ?r = "r\<lparr>match_index := (match_index r)(msg_from m := ?i), next_index := (next_index r)(msg_from m := ?i + 1)\<rparr>"
    have "node_state cfg M s n ?r"
      using st ack i1 role by (auto simp: node_state_def rel_defs)
    from MaybeCommit_reaches [OF mem this] role True show ?thesis by (simp add: HandleAppendEntriesResp_def)
  next
    case False
    let ?next = "next_index r (msg_from m)"
    have "node_state cfg M s n (r\<lparr>next_index := (next_index r)(msg_from m := ?next - 1)\<rparr>)" if "1 < ?next"
    proof -
      have "?next \<noteq> 0" "1 < unat ?next" using that by (auto simp: word_less_nat_alt)
      moreover from this(1) have "unat (?next - 1) = unat ?next - 1" by (rule unat_minus_one)
      ultimately have "0 < unat (?next - 1)" "unat (?next - 1) \<le> unat ?next" by linarith+
      then show ?thesis using st role by (auto simp: node_state_def rel_defs intro: order_trans)
    qed
    with False st show ?thesis by (auto simp: HandleAppendEntriesResp_def Let_def intro: reaches_refl)
  qed
qed

lemma reaches_then:
  assumes "reaches cfg M s n r" "\<And>s'. moves M n s s' \<Longrightarrow> node_state cfg M s' n r \<Longrightarrow> reaches cfg M s' n (f r)"
  shows "reaches cfg M s n (f r)"
proof -
  from assms(1) obtain s' where s': "moves M n s s'" "node_state cfg M s' n r"
    unfolding reaches_def by (elim exE conjE)
  from reaches_trans [OF s'(1) assms(2) [OF s']] show ?thesis .
qed

lemma moves_grows: "moves M n s s' \<Longrightarrow> grows s s'"
  by (simp add: moves_def)

lemma StepCandidate_vote_reaches:
  assumes mem: "membership cfg M" and st: "node_state cfg M s n r" and role: "role r = kCandidate"
    and msg: "msg_ok M s m" "msg_type m = kRequestVoteResp" "msg_term m = current_term r" "msg_to m = n"
  shows "reaches cfg M s n (StepCandidate r m)"
proof (cases "vote_granted m")
  case False
  with msg(2) st show ?thesis by (simp add: StepCandidate_def reaches_refl)
next
  case True
  note d = node_stateD [OF st]
  let ?r = "if msg_from m \<in> set (votes_granted r) then r else r\<lparr>votes_granted := votes_granted r @ [msg_from m]\<rparr>"
  have vote: "sp_vote s (msg_from m) (sp_term s n) = Some n" "msg_from m \<in> M"
    using msg d(6) True by (simp_all add: msg_ok_def)
  have st': "node_state cfg M s n ?r"
    using st role vote by (auto simp: node_state_def rel_defs)
  have eq: "StepCandidate r m = (if QuorumSize ?r \<le> length (votes_granted ?r) then BecomeLeader ?r else ?r)"
    using True msg(2) by (simp add: StepCandidate_def Let_def)
  show ?thesis
  proof (cases "QuorumSize ?r \<le> length (votes_granted ?r)")
    case quorum: True
    have "role ?r = kCandidate" using role by simp
    from BecomeLeader_reaches [OF mem st' this quorum] show ?thesis unfolding eq if_P [OF quorum] .
  next
    case quorum: False
    from reaches_refl [OF st'] show ?thesis unfolding eq if_not_P [OF quorum] .
  qed
qed

lemma StepRole_reaches:
  assumes mem: "membership cfg M" and st: "node_state cfg M s n r"
    and msg: "msg_ok M s m" "msg_term m = current_term r" "msg_to m = n"
  shows "reaches cfg M s n (StepRole r m)"
proof (cases "role r")
  case kFollower
  have "append_ok s m" if "msg_type m = kAppendEntries" using msg(1) that by (simp add: msg_ok_def)
  with kFollower HandleRequestVote_reaches [OF mem st msg(1) _ msg(2)] HandleAppendEntries_reaches [OF mem st]
    msg(2) reaches_refl [OF st]
  show ?thesis by (auto simp: StepRole_def StepFollower_def split: MessageType.splits)
next
  case kCandidate
  show ?thesis
  proof (cases "msg_type m = kAppendEntries")
    case True
    have "append_ok s m" using msg(1) True by (simp add: msg_ok_def)
    have "reaches cfg M s n (HandleAppendEntries (BecomeFollower r (msg_term m) (msg_from m)) m)"
    proof (rule reaches_then [where f = "\<lambda>r. HandleAppendEntries r m", OF BecomeFollower_reaches [OF st]])
      show "current_term r < msg_term m \<or> current_term r = msg_term m \<and> role r \<noteq> kLeader"
        using msg(2) kCandidate by simp
    next
      fix s' assume s': "moves M n s s'" "node_state cfg M s' n (BecomeFollower r (msg_term m) (msg_from m))"
      from append_ok_grows [OF moves_grows [OF s'(1)] \<open>append_ok s m\<close>]
      show "reaches cfg M s' n (HandleAppendEntries (BecomeFollower r (msg_term m) (msg_from m)) m)"
        using msg(2) by (intro HandleAppendEntries_reaches [OF mem s'(2)]) (auto simp: BecomeFollower_def Let_def)
    qed
    with kCandidate True show ?thesis by (simp add: StepRole_def StepCandidate_def)
  next
    case False
    with kCandidate HandleRequestVote_reaches [OF mem st msg(1) _ msg(2)] reaches_refl [OF st]
      StepCandidate_vote_reaches [OF mem st kCandidate msg(1) _ msg(2,3)]
    show ?thesis by (auto simp: StepRole_def StepCandidate_def split: MessageType.splits)
  qed
next
  case kLeader
  with HandleRequestVote_reaches [OF mem st msg(1) _ msg(2)] reaches_refl [OF st]
    HandleAppendEntriesResp_reaches [OF mem st kLeader msg(1) _ msg(2)]
  show ?thesis by (auto simp: StepRole_def StepLeader_def split: MessageType.splits)
qed

lemma Step_reaches:
  assumes mem: "membership cfg M" and st: "node_state cfg M s n r"
    and msg: "msg_ok M s m" "msg_to m = n"
  shows "reaches cfg M s n (Step r m)"
proof -
  note d = node_stateD [OF st]
  consider "msg_term m > current_term r" | "msg_term m < current_term r" | "msg_term m = current_term r"
    using linorder_less_linear by blast
  then show ?thesis
  proof cases
    case 1
    let ?lead = "if msg_type m = kAppendEntries then msg_from m else 0"
    have "reaches cfg M s n (StepRole (BecomeFollower r (msg_term m) ?lead) m)"
    proof (rule reaches_then [where f = "\<lambda>r. StepRole r m", OF BecomeFollower_reaches [OF st]])
      show "current_term r < msg_term m \<or> current_term r = msg_term m \<and> role r \<noteq> kLeader" using 1 by simp
    next
      fix s' assume s': "moves M n s s'" "node_state cfg M s' n (BecomeFollower r (msg_term m) ?lead)"
      from msg_ok_grows [OF moves_grows [OF s'(1)] msg(1)]
      show "reaches cfg M s' n (StepRole (BecomeFollower r (msg_term m) ?lead) m)"
        using 1 by (intro StepRole_reaches [OF mem s'(2) _ _ msg(2)]) (simp_all add: BecomeFollower_def Let_def)
    qed
    with 1 show ?thesis by (simp add: Step_def)
  next
    case 2
    note id = member_facts(1) [OF mem d(1,3)]
    have *: "node_state cfg M s n (Send r ((new_Message t)\<lparr>msg_from := raft_id r, msg_to := msg_from m,
        msg_term := current_term r, vote_granted := False, success := False\<rparr>))"
      if "t = kRequestVoteResp \<or> t = kAppendEntriesResp" for t
      using that d(1) id by (intro node_state_Send [OF st]) (auto simp: msg_ok_def new_Message_def)
    from * [of kRequestVoteResp] * [of kAppendEntriesResp] 2 st show ?thesis
      by (auto simp: Step_def Let_def new_Message_def intro: reaches_refl)
  next
    case 3
    with StepRole_reaches [OF mem st msg(1) 3 msg(2)] show ?thesis by (simp add: Step_def)
  qed
qed

lemma Tick_reaches:
  assumes mem: "membership cfg M" and st: "node_state cfg M s n r"
    and "Suc (unat (current_term r)) < 2 ^ 64"
  shows "reaches cfg M s n (Tick r)"
proof (cases "role r = kLeader")
  case True
  have "node_state cfg M s n (r\<lparr>heartbeat_elapsed := 0\<rparr>)" using st by simp
  from Broadcast_reaches [OF mem this] True st show ?thesis
    by (auto simp: Tick_def Let_def intro!: reaches_refl)
next
  case False
  have "node_state cfg M s n (r\<lparr>election_elapsed := election_elapsed r + 1\<rparr>)" using st by simp
  from BecomeCandidate_reaches [OF mem this] False reaches_refl [OF this] assms(3) show ?thesis
    by (simp add: Tick_def Let_def)
qed

lemma Propose_reaches:
  assumes mem: "membership cfg M" and st: "node_state cfg M s n r"
    and len: "Suc (length (log r)) < 2 ^ 64"
  shows "reaches cfg M s n (snd (Propose r data))"
proof (cases "role r = kLeader")
  case False
  with st show ?thesis by (simp add: Propose_def reaches_refl)
next
  case True
  note d = node_stateD [OF st]
  let ?e = "\<lparr>le_term = current_term r, le_index = LastIndex r + 1, le_data = data\<rparr>"
  let ?r = "r\<lparr>log := log r @ [?e]\<rparr>" and ?T = "sp_term s n"
  let ?l = "sp_log s n @ [(?T, data)]"
  let ?s = "s\<lparr>sp_log := (sp_log s)(n := ?l), sp_llog := (sp_llog s)(?T := Some (n, ?l)),
    sp_acked := upd2 (sp_acked s) n ?T (length ?l)\<rparr>"
  have e: "log_ok (log r @ [?e])"
    using len by (intro log_ok_snoc [OF d(4)]) (simp_all add: LastIndex_def)
  have "log r \<noteq> []" using d(4) by (simp add: log_ok_def)
  then have abs: "abs_log (log r @ [?e]) = ?l" using d(5,6) by (simp add: abs_log_append abs_entry_def)
  have "sp_leads s n" using True d(8) by simp
  note step = spec_step.propose [where quorum = "majority M", OF refl this refl, of data]
  show ?thesis
  proof (rule reaches_step [OF d(2) step])
    fix m assume "m \<noteq> n"
    then show "frame m s ?s" by (auto simp: frame_def)
  next
    assume *: "spec_inv (majority M) ?s" "grows s ?s"
    have "node_rel cfg M ?s n ?r" using d True e abs by (auto simp: rel_defs intro: le_SucI)
    from node_state_step [OF st * this] have "node_state cfg M ?s n ?r" by simp
    from MaybeCommit_reaches [OF mem this] True show "reaches cfg M ?s n (snd (Propose r data))"
      by (simp add: Propose_def)
  qed
qed

lemma TakeCommitted_reaches:
  assumes "node_state cfg M s n r"
  shows "reaches cfg M s n (snd (TakeCommitted r))"
  using assms by (intro reaches_refl) (auto simp: TakeCommitted_def node_state_def rel_defs)

lemma saved_reaches:
  assumes "node_state cfg M s n r"
  shows "reaches cfg M s n (set_stable_index (clear_hard_state_dirty r) i)"
  using assms by (intro reaches_refl)
    (auto simp: set_stable_index_def clear_hard_state_dirty_def node_state_def rel_defs)

lemma reboot_reaches:
  assumes st: "node_state cfg M s n r"
  shows "reaches cfg M s n (reboot (cfg n) r)"
proof -
  note d = node_stateD [OF st]
  let ?s = "s\<lparr>sp_leads := (sp_leads s)(n := False), sp_commit := (sp_commit s)(n := 0)\<rparr>"
  have "[sentinel] @ tl (log r) = log r" using d(4) by (cases "log r") (auto simp: log_ok_def)
  then have "node_rel cfg M ?s n (reboot (cfg n) r)"
    using d by (auto simp: rel_defs reboot_def Restore_def Raft_new_def Let_def)
  moreover have "out_msgs (reboot (cfg n) r) = []" by (simp add: reboot_def Restore_def Raft_new_def Let_def)
  ultimately have rel: "spec_inv (majority M) ?s \<Longrightarrow> node_state cfg M ?s n (reboot (cfg n) r)"
    using d(1) by (simp add: node_state_def)
  show ?thesis
    by (rule reaches_step [OF d(2) spec_step.restart]) (auto simp: frame_def intro: reaches_refl rel)
qed

text \<open>Any turn, whole.\<close>

lemma turn_reaches:
  assumes "membership cfg M" "node_state cfg M s n r" "\<forall>m\<in>N. msg_ok M s m" "turn N n r r'"
  shows "reaches cfg M s n r'"
  using assms(4)
proof cases
  case tick
  then show ?thesis using Tick_reaches [OF assms(1,2)] by simp
next
  case (deliver m)
  then show ?thesis using Step_reaches [OF assms(1,2)] assms(3) by simp
next
  case (propose d)
  then show ?thesis using Propose_reaches [OF assms(1,2)] by simp
next
  case take_committed
  then show ?thesis using TakeCommitted_reaches [OF assms(2)] by simp
qed

text \<open>
  An \<^verbatim>\<open>AppendEntries\<close>, interrupted. The part of it that was stored is what a message with fewer
  entries and no commit index would have done, and such a message is as good as the real one;
  or it is the truncation alone.
\<close>

definition reduced :: "Message \<Rightarrow> LogEntry list \<Rightarrow> u64 \<Rightarrow> Message" where
  "reduced m es c = m\<lparr>entries := es, leader_commit := c\<rparr>"

lemma reduced_ok:
  assumes "msg_ok M s m" "msg_type m = kAppendEntries"
  shows "msg_ok M s (reduced m (take j (entries m)) 0)"
proof -
  from assms obtain l where l: "let p = unat (prev_log_index m); k = p + length (entries m) in
      sp_llog s (unat (msg_term m)) = Some (msg_from m, l) \<and> k \<le> length l \<and> Suc k < 2 ^ 64 \<and>
      map abs_entry (entries m) = drop p (take k l) \<and> consecutive p (entries m) \<and>
      unat (prev_log_term m) = (if p = 0 then 0 else fst (l ! (p - 1)))"
    unfolding msg_ok_def append_ok_def Let_def by auto
  let ?p = "unat (prev_log_index m)" and ?n = "length (entries m)"
  have "map abs_entry (take j (entries m)) = take j (drop ?p (take (?p + ?n) l))"
    using l by (simp add: Let_def take_map [symmetric])
  also have "\<dots> = drop ?p (take (?p + min j ?n) l)"
    by (simp add: drop_take min.commute)
  finally show ?thesis
    using assms l consecutive_take [of ?p "entries m" j]
    unfolding msg_ok_def append_ok_def reduced_def Let_def
    by (auto intro!: exI [of _ l] simp: min.commute)
qed

text \<open>What the entries of such a message decide, and what they do not.\<close>

lemma HandleAppendEntries_reduced:
  fixes r m es c
  defines "r' \<equiv> HandleAppendEntries r (reduced m es c)" and "r1 \<equiv> r\<lparr>leader := msg_from m, election_elapsed := 0\<rparr>"
  shows "current_term r' = current_term r" "voted_for r' = voted_for r"
    "prev_log_index m > LastIndex r \<or> TermAt r (prev_log_index m) \<noteq> prev_log_term m \<Longrightarrow>
       log r' = log r \<and> stable_index r' = stable_index r"
    "\<not> (prev_log_index m > LastIndex r \<or> TermAt r (prev_log_index m) \<noteq> prev_log_term m) \<Longrightarrow>
       log r' = log (foldl append_entry r1 es) \<and> stable_index r' = stable_index (foldl append_entry r1 es)"
proof -
  obtain l st where f: "foldl append_entry r1 es = r1\<lparr>log := l, stable_index := st\<rparr>"
    using append_entries_frame by blast
  have i: "LastIndex r1 = LastIndex r" "TermAt r1 i = TermAt r i" for i
    by (simp_all add: r1_def LastIndex_def TermAt_def)
  show "current_term r' = current_term r" "voted_for r' = voted_for r"
    by (simp_all add: r'_def HandleAppendEntries_def reduced_def Let_def r1_def [symmetric] f Send_def)
       (simp_all add: r1_def)
  show "prev_log_index m > LastIndex r \<or> TermAt r (prev_log_index m) \<noteq> prev_log_term m \<Longrightarrow>
       log r' = log r \<and> stable_index r' = stable_index r"
    by (simp add: r'_def HandleAppendEntries_def reduced_def Let_def r1_def [symmetric] i Send_def)
       (simp add: r1_def)
  show "\<not> (prev_log_index m > LastIndex r \<or> TermAt r (prev_log_index m) \<noteq> prev_log_term m) \<Longrightarrow>
       log r' = log (foldl append_entry r1 es) \<and> stable_index r' = stable_index (foldl append_entry r1 es)"
    by (simp add: r'_def HandleAppendEntries_def reduced_def Let_def r1_def [symmetric] i f Send_def)
qed

lemma Step_AppendEntries:
  assumes "msg_type m = kAppendEntries"
  shows "(\<forall>es c. Step r (reduced m es c) = Step r m \<and> log (Step r m) = log r \<and> stable_index (Step r m) = stable_index r) \<or>
    (\<exists>r0. log r0 = log r \<and> stable_index r0 = stable_index r \<and> current_term r0 = msg_term m \<and>
       (\<forall>es c. Step r (reduced m es c) = HandleAppendEntries r0 (reduced m es c)))"
proof -
  have f: "log (BecomeFollower r t ld) = log r" "stable_index (BecomeFollower r t ld) = stable_index r"
    "role (BecomeFollower r t ld) = kFollower"
    "current_term r \<le> t \<Longrightarrow> current_term (BecomeFollower r t ld) = t" for t ld
    by (auto simp: BecomeFollower_def Let_def)
  have red: "msg_type (reduced m es c) = kAppendEntries" "msg_term (reduced m es c) = msg_term m"
    "msg_from (reduced m es c) = msg_from m" for es c
    using assms by (simp_all add: reduced_def)
  let ?f = "BecomeFollower r (msg_term m) (msg_from m)"
  consider "msg_term m > current_term r" | "msg_term m < current_term r" | "msg_term m = current_term r"
    using linorder_less_linear by blast
  then show ?thesis
  proof cases
    case 1
    then have "Step r (reduced m es c) = HandleAppendEntries ?f (reduced m es c)" for es c
      by (simp add: Step_def red StepRole_def f(3) StepFollower_def)
    with 1 f show ?thesis by (intro disjI2 exI [of _ ?f]) simp
  next
    case 2
    then have "\<not> current_term r < msg_term m" by simp
    with 2 show ?thesis by (intro disjI1) (simp add: Step_def red assms Send_def)
  next
    case 3
    show ?thesis
    proof (cases "role r")
      case kLeader
      with 3 show ?thesis by (intro disjI1) (simp add: Step_def red assms StepRole_def StepLeader_def)
    next
      case kFollower
      with 3 show ?thesis by (intro disjI2 exI [of _ r]) (simp add: Step_def red StepRole_def StepFollower_def)
    next
      case kCandidate
      with 3 f show ?thesis by (intro disjI2 exI [of _ ?f]) (simp add: Step_def red StepRole_def StepCandidate_def)
    qed
  qed
qed

text \<open>The whole of a turn was stored, but not sent.\<close>

lemma stored_turn_reaches:
  assumes "membership cfg M" "node_state cfg M s n r" "\<forall>m\<in>N. msg_ok M s m" "turn N n r r'"
  shows "reaches cfg M s n (reboot (cfg n) r')"
  by (rule reaches_then [OF turn_reaches [OF assms]]) (rule reboot_reaches)

text \<open>The truncation was stored, and nothing behind it.\<close>

lemma cut_reaches:
  assumes st: "node_state cfg M s n r" and role: "role r = kFollower" "commit_index r = 0"
    and msg: "append_ok s m" "msg_term m = current_term r"
    and prev: "\<not> (prev_log_index m > LastIndex r \<or> TermAt r (prev_log_index m) \<noteq> prev_log_term m)"
    and q: "unat (prev_log_index m) \<le> q" "q < length (abs_log (log r))" "q - unat (prev_log_index m) < length (entries m)"
      "fst (abs_log (log r) ! q) \<noteq> fst (abs_entry (entries m ! (q - unat (prev_log_index m))))"
      "q = unat (prev_log_index m) \<or>
       fst (abs_log (log r) ! (q - 1)) = fst (abs_entry (entries m ! (q - 1 - unat (prev_log_index m))))"
  shows "reaches cfg M s n (r\<lparr>log := take (Suc q) (log r), stable_index := i\<rparr>)"
proof -
  note d = node_stateD [OF st]
  let ?T = "sp_term s n" and ?p = "unat (prev_log_index m)" and ?A = "sp_log s n"
  let ?k = "?p + length (entries m)"
  from msg(1) obtain l where l: "sp_llog s ?T = Some (msg_from m, l)" "?k \<le> length l"
    "map abs_entry (entries m) = drop ?p (take ?k l)"
    "unat (prev_log_term m) = (if ?p = 0 then 0 else fst (l ! (?p - 1)))"
    unfolding append_ok_def Let_def msg(2) d(6) by blast
  have es: "abs_entry (entries m ! i) = l ! (?p + i)" if "i < length (entries m)" for i
    using l(2,3) that nth_map [of i "entries m" abs_entry] by (simp add: nth_drop)
  have p: "?p \<le> length ?A"
    using prev unat_LastIndex [OF d(4)] d(5) length_abs_log [of "log r"] by (simp add: word_less_nat_alt)
  have good: "good_log s ?A" "good_log s l" using d(2) l(1) unfolding spec_inv_def inv_logs_def by blast+
  have clash: "fst (?A ! q) \<noteq> fst (l ! q)" "q < length ?A" "q < length l"
    using q es [of "q - ?p"] d(5) l(2) by auto
  have same: "take q ?A = take q l"
  proof (cases "q = ?p")
    case True
    have "?p = 0 \<or> fst (?A ! (?p - 1)) = fst (l ! (?p - 1))"
      using unat_TermAt [OF d(4), of "prev_log_index m"] prev l(4) d(5) p by (auto split: if_splits)
    with log_matching [OF good, of "?p - 1"] p clash True show ?thesis by (cases ?p) auto
  next
    case False
    then have "fst (?A ! (q - 1)) = fst (l ! (q - 1))" using q es [of "q - 1 - ?p"] d(5) by auto
    with log_matching [OF good, of "q - 1"] clash False q(1) show ?thesis by (cases q) auto
  qed
  let ?s = "s\<lparr>sp_log := (sp_log s)(n := take q ?A)\<rparr>" and ?r = "r\<lparr>log := take (Suc q) (log r), stable_index := i\<rparr>"
  have c: "\<not> sp_leads s n" "sp_commit s n \<le> q" using role d(8,9) by auto
  have step: "spec_step (majority M) s ?s"
    using spec_step.cut [where quorum = "majority M", OF refl c(1) l(1) clash(2,3,1) same c(2)] .
  show ?thesis
  proof (rule reaches_step [OF d(2) step])
    fix m assume "m \<noteq> n"
    then show "frame m s ?s" by (auto simp: frame_def)
  next
    assume *: "spec_inv (majority M) ?s" "grows s ?s"
    have "node_rel cfg M ?s n ?r"
      using d role log_ok_take [OF d(4), of "Suc q"] by (simp add: rel_defs abs_log_take)
    from node_state_step [OF st * this] show "reaches cfg M ?s n ?r" by (simp add: reaches_refl)
  qed
qed

lemma halfway_same:
  assumes "log_ok (log r)" "log r' = log r" "stable_index r' = stable_index r" "stable_index r = LastIndex r" "halfway r r' l"
  shows "l = log r'"
  using assms unat_LastIndex [OF assms(1)] log_ok_length(1) [OF assms(1)] by (auto simp: halfway_def)

lemma halfway_snoc:
  assumes "log_ok (log r)" "log r' = log r @ [e]" "stable_index r' = LastIndex r" "halfway r r' l"
  shows "l = log r \<or> l = log r'"
proof -
  have "take k (log r') = log r \<or> take k (log r') = log r'" if "unat (stable_index r') < k" for k
  proof -
    have "length (log r) \<le> k" using that assms(3) unat_LastIndex [OF assms(1)] by simp
    then show ?thesis by (cases "k = length (log r)") (simp_all add: assms(2))
  qed
  then show ?thesis using assms(4) unfolding halfway_def by blast
qed

lemma reboot_Restore: "Restore (Raft_new cfg) (current_term r) (voted_for r) (tl (log r)) = reboot cfg r"
  by (simp add: reboot_def)

text \<open>The case of a message with entries that is being taken over.\<close>

lemma interrupted_append_reaches:
  assumes mem: "membership cfg M" and st: "node_state cfg M s n r" "stable_index r = LastIndex r"
    and m: "msg_ok M s m" "msg_to m = n" "msg_type m = kAppendEntries" and half: "halfway r (Step r m) l"
    and r0: "log r0 = log r" "stable_index r0 = stable_index r" "current_term r0 = msg_term m"
      "\<And>es c. Step r (reduced m es c) = HandleAppendEntries r0 (reduced m es c)"
    and prev: "\<not> (prev_log_index m > LastIndex r0 \<or> TermAt r0 (prev_log_index m) \<noteq> prev_log_term m)"
  shows "reaches cfg M s n (Restore (Raft_new (cfg n)) (current_term r0) (voted_for r0) (tl l))"
proof -
  note d = node_stateD [OF st(1)]
  let ?r1 = "r0\<lparr>leader := msg_from m, election_elapsed := 0\<rparr>" and ?es = "entries m" and ?p = "unat (prev_log_index m)"
  note hr = HandleAppendEntries_reduced [where r = r0 and m = m]
  have self: "Step r m = HandleAppendEntries r0 (reduced m ?es (leader_commit m))"
    using r0(4) [of ?es "leader_commit m"] by (simp add: reduced_def)
  have ok: "append_ok s m" using m(1,3) by (simp add: msg_ok_def)
  have short: "reaches cfg M s n (Restore (Raft_new (cfg n)) (current_term r0) (voted_for r0)
      (tl (log (foldl append_entry ?r1 (take j ?es)))))" for j
  proof -
    let ?m = "reduced m (take j ?es) 0"
    have "msg_to ?m = n" using m(2) by (simp add: reduced_def)
    then have "turn {?m} n r (Step r ?m)" by (intro turn.deliver) simp_all
    from stored_turn_reaches [OF mem st(1) _ this] reduced_ok [OF m(1,3)] show ?thesis
      using hr(1,2,4) [of "take j ?es" 0] prev
      by (simp add: r0(4) reboot_Restore [symmetric])
  qed
  from half consider "l = log r" | k where "unat (stable_index (Step r m)) < k" "l = take k (log (Step r m))"
    unfolding halfway_def by blast
  then show ?thesis
  proof cases
    case 1
    then show ?thesis using short [of 0] r0(1) by simp
  next
    case (2 k)
    have lg: "log (Step r m) = log (foldl append_entry ?r1 ?es)"
      "stable_index (Step r m) = stable_index (foldl append_entry ?r1 ?es)"
      using hr(4) [OF prev, of ?es "leader_commit m"] self by simp_all
    have L: "LastIndex ?r1 = LastIndex r" "TermAt ?r1 i = TermAt r0 i" "LastIndex r0 = LastIndex r" for i
      using r0(1) by (simp_all add: LastIndex_def TermAt_def)
    from ok have es: "consecutive ?p ?es" "Suc (?p + length ?es) < 2 ^ 64" by (auto simp: append_ok_def Let_def)
    have p: "?p \<le> length (abs_log (log r))"
      using prev L(3) unat_LastIndex [OF d(4)] by (simp add: length_abs_log word_less_nat_alt)
    have "log_ok (log ?r1)" "?p \<le> length (abs_log (log ?r1))" "stable_index ?r1 = LastIndex ?r1"
      using d(4) r0 p st(2) L by simp_all
    from append_entries_partial [OF this(1) es(1) this(2) es(2) this(3) 2(1) [unfolded lg(2)]]
    show ?thesis
    proof (rule disjE; elim exE conjE)
      fix j assume "take k (log (foldl append_entry ?r1 ?es)) = log (foldl append_entry ?r1 (take j ?es))"
      with short [of j] 2(2) lg(1) show ?thesis by simp
    next
      fix q
      assume q: "take k (log (foldl append_entry ?r1 ?es)) = take (Suc q) (log ?r1)" "?p \<le> q"
        "q < length (abs_log (log ?r1))" "q - ?p < length ?es"
        "fst (abs_log (log ?r1) ! q) \<noteq> fst (abs_entry (?es ! (q - ?p)))"
        "q = ?p \<or> fst (abs_log (log ?r1) ! (q - 1)) = fst (abs_entry (?es ! (q - 1 - ?p)))"
      let ?rb = "Restore (Raft_new (cfg n)) (current_term r0) (voted_for r0) (tl (log r))"
      let ?rc = "Restore (Raft_new (cfg n)) (current_term r0) (voted_for r0) (tl l)"
      have "[sentinel] @ tl (log r) = log r" using d(4) by (cases "log r") (auto simp: log_ok_def)
      then have rb: "log ?rb = log r" "role ?rb = kFollower" "commit_index ?rb = 0" "current_term ?rb = msg_term m"
        "LastIndex ?rb = LastIndex r0" "TermAt ?rb i = TermAt r0 i" for i
        using r0(1,3) by (simp_all add: Restore_def Raft_new_def Let_def LastIndex_def TermAt_def)
      have rc: "?rc = ?rb\<lparr>log := take (Suc q) (log ?rb), stable_index := LastIndex ?rc\<rparr>"
        using q(1) 2(2) lg(1) r0(1) by (simp add: Restore_def Raft_new_def Let_def LastIndex_def tl_take)
      have "reaches cfg M s n ?rb" using short [of 0] r0(1) by simp
      then obtain s' where s': "moves M n s s'" "node_state cfg M s' n ?rb"
        unfolding reaches_def by (elim exE conjE)
      have "reaches cfg M s' n (?rb\<lparr>log := take (Suc q) (log ?rb), stable_index := LastIndex ?rc\<rparr>)"
        using q rb prev r0(1) append_ok_grows [OF moves_grows [OF s'(1)] ok]
        by (intro cut_reaches [OF s'(2), of m q]) simp_all
      with reaches_trans [OF s'(1)] show ?thesis unfolding rc [symmetric] .
    qed
  qed
qed

lemma interrupted_message_reaches:
  assumes mem: "membership cfg M" and st: "node_state cfg M s n r" "stable_index r = LastIndex r"
    and m: "msg_ok M s m" "msg_to m = n" "msg_type m = kAppendEntries" and half: "halfway r (Step r m) l"
    and same: "log (Step r m) = log r \<Longrightarrow> stable_index (Step r m) = stable_index r \<Longrightarrow>
      reaches cfg M s n (Restore (Raft_new (cfg n)) (current_term (Step r m)) (voted_for (Step r m)) (tl l))"
  shows "reaches cfg M s n (Restore (Raft_new (cfg n)) (current_term (Step r m)) (voted_for (Step r m)) (tl l))"
  using Step_AppendEntries [OF m(3), of r]
proof (elim disjE exE conjE)
  assume "\<forall>es c. Step r (reduced m es c) = Step r m \<and> log (Step r m) = log r \<and> stable_index (Step r m) = stable_index r"
  then show ?thesis by (intro same) simp_all
next
  fix r0
  assume r0: "log r0 = log r" "stable_index r0 = stable_index r" "current_term r0 = msg_term m"
    "\<forall>es c. Step r (reduced m es c) = HandleAppendEntries r0 (reduced m es c)"
  then have self: "Step r m = HandleAppendEntries r0 (reduced m (entries m) (leader_commit m))"
    by (metis Message.surjective Message.update_convs reduced_def)
  note hr = HandleAppendEntries_reduced [where r = r0 and m = m, of "entries m" "leader_commit m", folded self]
  show ?thesis
  proof (cases "prev_log_index m > LastIndex r0 \<or> TermAt r0 (prev_log_index m) \<noteq> prev_log_term m")
    case True
    with hr(3) r0 show ?thesis by (intro same) simp_all
  next
    case False
    from interrupted_append_reaches [OF mem st m half r0(1-3) _ False] r0(4) show ?thesis unfolding hr(1,2) by simp
  qed
qed

lemma interrupted_reaches:
  assumes mem: "membership cfg M" and st: "node_state cfg M s n r" and net: "\<forall>m\<in>N. msg_ok M s m"
    and t: "turn N n r r'" "stable_index r = LastIndex r" "halfway r r' l"
  shows "reaches cfg M s n (Restore (Raft_new (cfg n)) (current_term r') (voted_for r') (tl l))"
proof -
  note d = node_stateD [OF st]
  have whole: ?thesis if "l = log r'"
    using stored_turn_reaches [OF mem st net t(1)] that by (simp add: reboot_Restore)
  note same = whole [OF halfway_same [OF d(4) _ _ t(2,3)]]
  show ?thesis
    using t(1)
  proof cases
    case tick
    then show ?thesis by (intro same) (simp_all add: Tick_log)
  next
    case take_committed
    then show ?thesis by (intro same) (simp_all add: TakeCommitted_def)
  next
    case (propose dt)
    note pr = Propose_log [of r dt, folded propose(1)]
    have "l = log r \<or> l = log r'"
      using pr(1)
    proof
      assume "log r' = log r"
      with halfway_same [OF d(4) this pr(2) t(2,3)] show ?thesis by simp
    next
      assume "\<exists>e. log r' = log r @ [e]"
      with halfway_snoc [OF d(4) _ _ t(3)] pr(2) t(2) show ?thesis by auto
    qed
    then show ?thesis
    proof
      assume "l = log r"
      with pr(3,4) reboot_reaches [OF st] show ?thesis by (simp add: reboot_def)
    qed (rule whole)
  next
    case (deliver m)
    show ?thesis
    proof (cases "msg_type m = kAppendEntries")
      case False
      with Step_log [OF this, of r] deliver(1) show ?thesis by (intro same) simp_all
    next
      case True
      have "msg_ok M s m" using net deliver(2) by blast
      from interrupted_message_reaches [OF mem st t(2) this deliver(3) True t(3) [unfolded deliver(1)] same [unfolded deliver(1)]]
      show ?thesis unfolding deliver(1) .
    qed
  qed
qed


subsection \<open>Refinement\<close>

definition sim :: "(NodeId \<Rightarrow> Config) \<Rightarrow> NodeId set \<Rightarrow> cluster \<Rightarrow> (NodeId, bytes) spec \<Rightarrow> bool" where
  "sim cfg M C s \<longleftrightarrow> spec_inv (majority M) s \<and>
     (\<forall>n\<in>M. node_rel cfg M s n (node C n) \<and> out_msgs (node C n) = []) \<and> (\<forall>m\<in>net C. msg_ok M s m)"

lemma sim_node: "sim cfg M C s \<Longrightarrow> n \<in> M \<Longrightarrow> node_state cfg M s n (node C n)"
  by (simp add: sim_def node_state_def)

lemma sim_emit:
  assumes "sim cfg M C s" "n \<in> M" "reaches cfg M s n r"
  shows "\<exists>s'. (spec_step (majority M))\<^sup>*\<^sup>* s s' \<and> grows s s' \<and> sim cfg M (emit C n r) s'"
proof -
  from assms(3) obtain s' where s': "moves M n s s'" "node_state cfg M s' n r"
    unfolding reaches_def by (elim exE conjE)
  then have g: "grows s s'" and fr: "\<And>m. m \<noteq> n \<Longrightarrow> frame m s s'"
    and steps: "(spec_step (majority M))\<^sup>*\<^sup>* s s'" by (simp_all add: moves_def)
  have "node_rel cfg M s' m (node C m)" if "m \<in> M" "m \<noteq> n" for m
    using node_rel_frame [OF g fr [OF that(2)]] assms(1) that(1) by (simp add: sim_def)
  moreover have "msg_ok M s' m" if "m \<in> net C" for m
    using msg_ok_grows [OF g] assms(1) that by (simp add: sim_def)
  ultimately have "sim cfg M (emit C n r) s'"
    using s'(2) assms(1) by (auto simp: sim_def emit_def TakeMessages_def node_state_def)
  with steps g show ?thesis by blast
qed

lemma sim_step:
  assumes "membership cfg M" "sim cfg M C s" "cluster_step cfg M C C'"
  shows "\<exists>s'. (spec_step (majority M))\<^sup>*\<^sup>* s s' \<and> grows s s' \<and> sim cfg M C' s'"
  using assms(3)
proof cases
  case (work n r)
  have "\<forall>m\<in>net C. msg_ok M s m" using assms(2) by (simp add: sim_def)
  from sim_emit [OF assms(2) work(2) turn_reaches [OF assms(1) sim_node [OF assms(2) work(2)] this work(3)]]
  show ?thesis unfolding work(1) .
next
  case (interrupted n r l)
  have "\<forall>m\<in>net C. msg_ok M s m" using assms(2) by (simp add: sim_def)
  from sim_emit [OF assms(2) interrupted(2)
      interrupted_reaches [OF assms(1) sim_node [OF assms(2) interrupted(2)] this interrupted(3-5)]]
  show ?thesis unfolding interrupted(1) .
next
  case (saved n i)
  from sim_emit [OF assms(2) saved(2) saved_reaches [OF sim_node [OF assms(2) saved(2)]]]
  show ?thesis unfolding saved(1) .
next
  case (restart n)
  from sim_emit [OF assms(2) restart(2) reboot_reaches [OF sim_node [OF assms(2) restart(2)]]]
  show ?thesis unfolding restart(1) .
qed

lemma sim_init: "sim cfg M (cluster_init cfg) spec_init"
  by (auto simp: sim_def cluster_init_def Raft_new_def rel_defs spec_init_def abs_log_def
      intro!: majority.spec_inv_init [unfolded spec_init_def])

lemma cluster_refines:
  assumes "membership cfg M" "cluster_reachable cfg M C"
  shows "\<exists>s. spec_reachable (majority M) s \<and> sim cfg M C s"
  using assms(2)
proof induction
  case start
  show ?case using sim_init spec_reachable.start by blast
next
  case (step C C')
  then obtain s where s: "spec_reachable (majority M) s" "sim cfg M C s" by blast
  from sim_step [OF assms(1) s(2) step.hyps(2)] obtain s' where
    s': "(spec_step (majority M))\<^sup>*\<^sup>* s s'" "sim cfg M C' s'" by blast
  from s'(1) s(1) have "spec_reachable (majority M) s'"
    by (induction rule: rtranclp_induct) (auto intro: spec_reachable.step)
  with s'(2) show ?case by blast
qed

lemma sim_steps:
  assumes "membership cfg M" "(cluster_step cfg M)\<^sup>*\<^sup>* C C'" "sim cfg M C s"
  shows "\<exists>s'. grows s s' \<and> sim cfg M C' s'"
  using assms(2)
proof induction
  case base
  show ?case using assms(3) grows_refl by blast
next
  case (step C1 C2)
  then obtain s1 where s1: "grows s s1" "sim cfg M C1 s1" by blast
  from sim_step [OF assms(1) s1(2) step.hyps(2)] grows_trans [OF s1(1)] show ?case by blast
qed

text \<open>Equal protocol logs are equal logs, up to any index.\<close>

lemma abs_entry_inject:
  "abs_entry a = abs_entry b \<Longrightarrow> le_index a = le_index b \<Longrightarrow> a = b"
  by (cases a; cases b) (simp add: abs_entry_def word_unat_eq_iff)

lemma abs_log_take_inject:
  assumes "log_ok a" "log_ok b" "take k (abs_log a) = take k (abs_log b)"
    and "k < length a" "k < length b"
  shows "take (Suc k) a = take (Suc k) b"
proof (rule nth_equalityI)
  show "length (take (Suc k) a) = length (take (Suc k) b)" using assms(4,5) by simp
next
  fix i assume i: "i < length (take (Suc k) a)"
  show "take (Suc k) a ! i = take (Suc k) b ! i"
  proof (cases i)
    case 0
    with assms(1,2) show ?thesis by (simp add: log_ok_sentinel)
  next
    case (Suc j)
    with i have j: "j < k" by simp
    then have "abs_log a ! j = abs_log b ! j" using take_eq_nth [OF assms(3)] by simp
    then have "abs_entry (a ! Suc j) = abs_entry (b ! Suc j)"
      using j assms(4,5) by (simp add: abs_log_nth)
    moreover have "le_index (a ! Suc j) = le_index (b ! Suc j)"
      using j assms(1,2,4,5) by (simp add: log_ok_def)
    ultimately show ?thesis using Suc i j by (simp add: abs_entry_inject)
  qed
qed


subsection \<open>Runs\<close>

text \<open>
  Schedules of concrete clusters, with the messages numbered in the order in which they were
  sent. Every run is a run of the step relation.
\<close>

datatype action = DoTick NodeId | DoDeliver nat | DoPropose NodeId bytes | DoRestart NodeId

fun post :: "(NodeId \<Rightarrow> Raft) \<times> Message list \<Rightarrow> NodeId \<Rightarrow> Raft \<Rightarrow> (NodeId \<Rightarrow> Raft) \<times> Message list" where
  "post (f, msgs) n r = (f(n := snd (TakeMessages r)), msgs @ fst (TakeMessages r))"

fun act :: "(NodeId \<Rightarrow> Config) \<Rightarrow> NodeId list \<Rightarrow> (NodeId \<Rightarrow> Raft) \<times> Message list \<Rightarrow> action \<Rightarrow>
  (NodeId \<Rightarrow> Raft) \<times> Message list" where
  "act cfg M (f, msgs) (DoTick n) =
     (if n \<in> set M \<and> current_term (f n) < 100 then post (f, msgs) n (Tick (f n)) else (f, msgs))"
| "act cfg M (f, msgs) (DoDeliver k) =
     (if k < length msgs \<and> msg_to (msgs ! k) \<in> set M
      then post (f, msgs) (msg_to (msgs ! k)) (Step (f (msg_to (msgs ! k))) (msgs ! k)) else (f, msgs))"
| "act cfg M (f, msgs) (DoPropose n d) =
     (if n \<in> set M \<and> length (log (f n)) < 10 then post (f, msgs) n (snd (Propose (f n) d)) else (f, msgs))"
| "act cfg M (f, msgs) (DoRestart n) =
     (if n \<in> set M then post (f, msgs) n (reboot (cfg n) (f n)) else (f, msgs))"

definition run :: "(NodeId \<Rightarrow> Config) \<Rightarrow> NodeId list \<Rightarrow> (NodeId \<Rightarrow> Raft) \<times> Message list \<Rightarrow> action list \<Rightarrow>
  (NodeId \<Rightarrow> Raft) \<times> Message list" where
  "run cfg M x acts = foldl (act cfg M) x acts"

fun cluster_of :: "(NodeId \<Rightarrow> Raft) \<times> Message list \<Rightarrow> cluster" where
  "cluster_of (f, msgs) = \<lparr>node = f, net = set msgs\<rparr>"

lemma cluster_of_post: "cluster_of (post x n r) = emit (cluster_of x) n r"
  by (cases x) (simp add: emit_def TakeMessages_def)

lemma node_cluster_of [simp]: "node (cluster_of x) = fst x"
  by (cases x) simp

lemma act_steps: "(cluster_step cfg (set M))\<^sup>*\<^sup>* (cluster_of x) (cluster_of (act cfg M x a))"
proof (cases x)
  case (Pair f msgs)
  let ?C = "\<lparr>node = f, net = set msgs\<rparr>"
  have *: "cluster_of (act cfg M (f, msgs) a) = ?C \<or>
      cluster_step cfg (set M) ?C (cluster_of (act cfg M (f, msgs) a))"
  proof (cases a)
    case (DoTick n)
    have "Suc (unat t) < 2 ^ 64" if "t < 100" for t :: u64 using that by (simp add: word_less_nat_alt)
    with DoTick cluster_step.work [OF _ turn.tick, of n "set M" ?C cfg] show ?thesis
      by (auto simp: cluster_of_post simp del: post.simps)
  next
    case (DoDeliver k)
    with cluster_step.work [OF _ turn.deliver, of "msg_to (msgs ! k)" "set M" "msgs ! k" ?C cfg] show ?thesis
      by (auto simp: cluster_of_post simp del: post.simps)
  next
    case (DoPropose n d)
    with cluster_step.work [OF _ turn.propose, of n "set M" ?C cfg d] show ?thesis
      by (auto simp: cluster_of_post simp del: post.simps)
  next
    case (DoRestart n)
    with cluster_step.restart [of n "set M" cfg ?C] show ?thesis
      by (auto simp: cluster_of_post simp del: post.simps)
  qed
  then show ?thesis unfolding Pair by (auto simp del: act.simps)
qed

lemma run_steps: "(cluster_step cfg (set M))\<^sup>*\<^sup>* (cluster_of x) (cluster_of (run cfg M x acts))"
proof (induction acts arbitrary: x)
  case (Cons a acts)
  from rtranclp_trans [OF act_steps Cons.IH [of "act cfg M x a"]] show ?case by (simp add: run_def)
qed (simp add: run_def)

lemma steps_reachable:
  "(cluster_step cfg M)\<^sup>*\<^sup>* C C' \<Longrightarrow> cluster_reachable cfg M C \<Longrightarrow> cluster_reachable cfg M C'"
  by (induction rule: rtranclp_induct) (auto intro: cluster_reachable.step)

lemma run_reachable: "cluster_reachable cfg (set M) (cluster_of (run cfg M (\<lambda>n. Raft_new (cfg n), []) acts))"
  using steps_reachable [OF run_steps, of cfg M "(\<lambda>n. Raft_new (cfg n), [])"] cluster_reachable.start [of cfg "set M"]
  by (simp add: cluster_init_def)

text \<open>
  Three nodes: node 1 stands for election and wins with the vote of node 2, proposes a command,
  replicates it to node 2 and commits it; then it tells node 2 so.
\<close>

definition demo_cfg :: "NodeId \<Rightarrow> Config" where
  "demo_cfg n = \<lparr>cfg_id = n, peers = [1, 2, 3], election_timeout = 1, heartbeat_timeout = 1\<rparr>"

definition demo :: "(NodeId \<Rightarrow> Raft) \<times> Message list" where
  "demo = run demo_cfg [1, 2, 3] (\<lambda>n. Raft_new (demo_cfg n), [])
     [DoTick 1, DoDeliver 0, DoDeliver 2, DoPropose 1 [7], DoTick 1, DoDeliver 5, DoDeliver 7]"

definition demo_later :: "(NodeId \<Rightarrow> Raft) \<times> Message list" where
  "demo_later = run demo_cfg [1, 2, 3] demo [DoTick 1, DoDeliver 8]"

lemma demo_membership: "membership demo_cfg (set [1, 2, 3])"
  by (auto simp: membership_def demo_cfg_def)

lemma demo_reachable: "cluster_reachable demo_cfg (set [1, 2, 3]) (cluster_of demo)"
  unfolding demo_def by (rule run_reachable)

lemma demo_later_steps: "(cluster_step demo_cfg (set [1, 2, 3]))\<^sup>*\<^sup>* (cluster_of demo) (cluster_of demo_later)"
  unfolding demo_later_def by (rule run_steps)

lemma demo_values:
  "role (fst demo 1) = kLeader \<and> current_term (fst demo 1) = 1 \<and> commit_index (fst demo 1) = 1 \<and>
   current_term (fst demo 2) = 1"
  by code_simp

lemma demo_logs:
  "LastIndex (fst demo 1) = 1 \<and> LastIndex (fst demo 2) = 1 \<and> TermAt (fst demo 1) 1 = TermAt (fst demo 2) 1"
  by code_simp

lemma demo_later_values:
  "commit_index (fst demo_later 2) = 1 \<and> role (fst demo_later 1) = kLeader \<and>
   current_term (fst demo_later 1) = 1 \<and> current_term (fst demo_later 2) = 1"
  by code_simp

lemma demo_later_reachable: "cluster_reachable demo_cfg (set [1, 2, 3]) (cluster_of demo_later)"
  by (rule steps_reachable [OF demo_later_steps demo_reachable])

subsection \<open>Properties\<close>

lemma leaders_unique:
  assumes "membership cfg M" "cluster_reachable cfg M C" "n \<in> M" "m \<in> M"
    and "role (node C n) = kLeader" "role (node C m) = kLeader"
    and "current_term (node C n) = current_term (node C m)"
  shows "n = m"
proof -
  obtain s where s: "sim cfg M C s" using cluster_refines [OF assms(1,2)] by blast
  note n = node_stateD [OF sim_node [OF s assms(3)]] and m = node_stateD [OF sim_node [OF s assms(4)]]
  show ?thesis using majority.one_leader [OF n(2)] n(6,8) m(6,8) assms(5-7) by metis
qed

text \<open>
  \<^bold>\<open>C2\<close> Election safety. Whatever messages are lost, delayed, reordered or duplicated and
  whichever nodes restart: no two nodes of a cluster are leaders of the same term.
\<close>

theorem Raft_one_leader_per_term:
  assumes "membership cfg M" "cluster_reachable cfg M C" "n \<in> M" "m \<in> M"
    and "role (node C n) = kLeader" "role (node C m) = kLeader"
    and "current_term (node C n) = current_term (node C m)"
  shows "n = m"
  by (rule leaders_unique [OF assms])

theorem Raft_one_leader_per_term_witness:
  "cluster_reachable demo_cfg (set [1, 2, 3]) (cluster_of demo) \<and>
   role (node (cluster_of demo) 1) = kLeader \<and> (1 :: NodeId) = 1"
proof -
  have "role (node (cluster_of demo) 1) = kLeader" using demo_values by simp
  with Raft_one_leader_per_term [OF demo_membership demo_reachable, of 1 1] demo_reachable
  show ?thesis by simp
qed

text \<open>Committed prefixes of any two nodes, now and later.\<close>

lemma committed_prefixes_agree:
  assumes "membership cfg M" "cluster_reachable cfg M C" "(cluster_step cfg M)\<^sup>*\<^sup>* C C'"
    and "n \<in> M" "m \<in> M" "i \<le> commit_index (node C n)" "i \<le> commit_index (node C' m)"
  shows "take (Suc (unat i)) (log (node C n)) = take (Suc (unat i)) (log (node C' m))"
proof -
  obtain s where s: "sim cfg M C s" using cluster_refines [OF assms(1,2)] by blast
  obtain s' where g: "grows s s'" and s': "sim cfg M C' s'" using sim_steps [OF assms(1,3) s] by blast
  note n = node_stateD [OF sim_node [OF s assms(4)]] and m = node_stateD [OF sim_node [OF s' assms(5)]]
  have inv: "inv_commit (majority M) s" "inv_commit (majority M) s'" "spec_inv (majority M) s'"
    using n(2) m(2) by (simp_all add: spec_inv_def)
  let ?x = "take (sp_commit s n) (sp_log s n)" and ?y = "take (sp_commit s' m) (sp_log s' m)"
  have len: "sp_commit s n \<le> length (sp_log s n)" "sp_commit s' m \<le> length (sp_log s' m)"
    and safe: "safe_prefix (majority M) s (sp_term s n) ?x" "safe_prefix (majority M) s' (sp_term s' m) ?y"
    using inv(1,2) unfolding inv_commit_def by blast+
  have "take (length ?y) ?x = take (length ?x) ?y"
    using majority.safe_prefixes_agree [OF _ _ _ _ safe_prefix_grows [OF g order_refl safe(1)] safe(2)] inv(3)
    by (simp add: spec_inv_def)
  then have "take (min (sp_commit s' m) (sp_commit s n)) (sp_log s n) =
      take (min (sp_commit s n) (sp_commit s' m)) (sp_log s' m)"
    using len by (simp add: min_absorb2)
  then have "take (min (sp_commit s n) (sp_commit s' m)) (sp_log s n) =
      take (min (sp_commit s n) (sp_commit s' m)) (sp_log s' m)" by (simp only: min.commute)
  moreover have "unat i \<le> min (sp_commit s n) (sp_commit s' m)"
    using assms(6,7) n(9) m(9) by (simp add: word_le_nat_alt)
  ultimately have eq: "take (unat i) (abs_log (log (node C n))) = take (unat i) (abs_log (log (node C' m)))"
    unfolding n(5) m(5) by (rule take_eq_take_le)
  have "unat i < length (log (node C n))" "unat i < length (log (node C' m))"
    using assms(6,7) n(9) m(9) len node_log_length [OF sim_node [OF s assms(4)]]
      node_log_length [OF sim_node [OF s' assms(5)]]
    by (simp_all add: word_le_nat_alt less_Suc_eq_le)
  from abs_log_take_inject [OF n(4) m(4) eq this] show ?thesis .
qed

text \<open>
  \<^bold>\<open>C1\<close> State machine safety, over time. Take any two nodes, one in a reachable cluster and
  one in the same cluster any number of steps later: up to the smaller of their commit indices
  they hold the same log, terms, indices and data. A committed entry is never replaced, anywhere.
\<close>

theorem Raft_committed_entries_agree:
  assumes "membership cfg M" "cluster_reachable cfg M C" "(cluster_step cfg M)\<^sup>*\<^sup>* C C'"
    and "n \<in> M" "m \<in> M" "i \<le> commit_index (node C n)" "i \<le> commit_index (node C' m)"
  shows "take (Suc (unat i)) (log (node C n)) = take (Suc (unat i)) (log (node C' m))"
  by (rule committed_prefixes_agree [OF assms])

theorem Raft_committed_entries_agree_witness:
  "take (Suc (unat (1 :: u64))) (log (node (cluster_of demo) 1)) =
   take (Suc (unat (1 :: u64))) (log (node (cluster_of demo_later) 2))"
  by (rule Raft_committed_entries_agree [OF demo_membership demo_reachable demo_later_steps])
     (simp_all add: demo_values demo_later_values)

text \<open>
  \<^bold>\<open>C4\<close> Log matching. If two nodes hold an entry of the same term at the same index, their
  logs are the same up to that index.
\<close>

theorem Raft_log_matching:
  assumes "membership cfg M" "cluster_reachable cfg M C" "n \<in> M" "m \<in> M"
    and "i \<le> LastIndex (node C n)" "i \<le> LastIndex (node C m)"
    and "TermAt (node C n) i = TermAt (node C m) i"
  shows "take (Suc (unat i)) (log (node C n)) = take (Suc (unat i)) (log (node C m))"
proof -
  obtain s where s: "sim cfg M C s" using cluster_refines [OF assms(1,2)] by blast
  note n = node_stateD [OF sim_node [OF s assms(3)]] and m = node_stateD [OF sim_node [OF s assms(4)]]
  have good: "good_log s (sp_log s v)" for v using n(2) by (simp add: spec_inv_def inv_logs_def)
  have i: "unat i \<le> length (sp_log s n)" "unat i \<le> length (sp_log s m)"
    using assms(5,6) unat_LastIndex [OF n(4)] unat_LastIndex [OF m(4)] n(5) m(5)
    by (metis length_abs_log word_le_nat_alt)+
  have "take (unat i) (sp_log s n) = take (unat i) (sp_log s m)"
  proof (cases "unat i")
    case (Suc j)
    have "fst (sp_log s n ! j) = fst (sp_log s m ! j)"
      using unat_TermAt [OF n(4), of i] unat_TermAt [OF m(4), of i] assms(7) i n(5) m(5) Suc by simp
    with log_matching [OF good good, of j n m] i Suc show ?thesis by simp
  qed simp
  with abs_log_take_inject [OF n(4) m(4), of "unat i"] n(5) m(5) i
    node_log_length [OF sim_node [OF s assms(3)]] node_log_length [OF sim_node [OF s assms(4)]]
  show ?thesis by simp
qed

theorem Raft_log_matching_witness:
  "take (Suc (unat (1 :: u64))) (log (node (cluster_of demo) 1)) =
   take (Suc (unat (1 :: u64))) (log (node (cluster_of demo) 2))"
  by (rule Raft_log_matching [OF demo_membership demo_reachable]) (simp_all add: demo_logs)

lemma leader_has_committed:
  assumes "membership cfg M" "cluster_reachable cfg M C" "n \<in> M" "m \<in> M"
    and "role (node C n) = kLeader" "current_term (node C m) \<le> current_term (node C n)"
  shows "take (Suc (unat (commit_index (node C m)))) (log (node C m)) =
    take (Suc (unat (commit_index (node C m)))) (log (node C n))"
proof -
  obtain s where s: "sim cfg M C s" using cluster_refines [OF assms(1,2)] by blast
  note n = node_stateD [OF sim_node [OF s assms(3)]] and m = node_stateD [OF sim_node [OF s assms(4)]]
  have inv: "inv_votes s" "inv_logs s" "inv_leaders (majority M) s" "inv_acks s" "inv_commit (majority M) s"
    using n(2) by (simp_all add: spec_inv_def)
  let ?k = "sp_commit s m"
  have k: "?k \<le> length (sp_log s m)" "safe_prefix (majority M) s (sp_term s m) (take ?k (sp_log s m))"
    using inv(5) unfolding inv_commit_def by blast+
  have llog: "sp_llog s (sp_term s n) = Some (n, sp_log s n)"
    using leads_llog [OF inv(3)] n(8) assms(5) by simp
  have le: "sp_term s m \<le> sp_term s n" using assms(6) n(6) m(6) by (simp add: word_le_nat_alt)
  have eq: "take ?k (sp_log s m) = take ?k (sp_log s n) \<and> ?k \<le> length (sp_log s n)"
  proof (cases "take ?k (sp_log s m) = []")
    case True
    with k(1) have "?k = 0" by auto
    then show ?thesis by simp
  next
    case False
    with k obtain T i c l where t: "T \<le> sp_term s m" "committed (majority M) s T i" "?k \<le> i"
      "sp_llog s T = Some (c, l)" "take ?k (sp_log s m) = take ?k l"
      unfolding safe_prefix_def by (auto simp: min_absorb2)
    have "T \<le> sp_term s n" using t(1) le by simp
    from majority.leader_completeness [OF inv(1-4) t(2,4) llog this]
    have "take i (sp_log s n) = take i l" .
    from take_eq_take_le [OF this t(3)] t(5) have "take ?k (sp_log s n) = take ?k (sp_log s m)" by simp
    with take_eq_length [OF this k(1)] show ?thesis by simp
  qed
  have "?k < length (log (node C m))" "?k < length (log (node C n))"
    using k(1) eq node_log_length [OF sim_node [OF s assms(3)]] node_log_length [OF sim_node [OF s assms(4)]]
    by simp_all
  from abs_log_take_inject [OF m(4) n(4) _ this] eq n(5) m(5,9) show ?thesis by simp
qed

text \<open>
  \<^bold>\<open>C3\<close> Leader completeness. A leader holds everything that any node of its own or an
  earlier term has committed.
\<close>

theorem Raft_leader_completeness:
  assumes "membership cfg M" "cluster_reachable cfg M C" "n \<in> M" "m \<in> M"
    and "role (node C n) = kLeader" "current_term (node C m) \<le> current_term (node C n)"
  shows "take (Suc (unat (commit_index (node C m)))) (log (node C m)) =
    take (Suc (unat (commit_index (node C m)))) (log (node C n))"
  by (rule leader_has_committed [OF assms])

theorem Raft_leader_completeness_witness:
  "commit_index (node (cluster_of demo_later) 2) = 1 \<and>
   take (Suc (unat (commit_index (node (cluster_of demo_later) 2)))) (log (node (cluster_of demo_later) 2)) =
   take (Suc (unat (commit_index (node (cluster_of demo_later) 2)))) (log (node (cluster_of demo_later) 1))"
  using Raft_leader_completeness [OF demo_membership demo_later_reachable, of 1 2] demo_later_values by simp

lemma node_commit_bound:
  assumes "membership cfg M" "cluster_reachable cfg M C" "n \<in> M"
  shows "commit_index (node C n) \<le> LastIndex (node C n) \<and> log_ok (log (node C n))"
proof -
  obtain s where s: "sim cfg M C s" using cluster_refines [OF assms(1,2)] by blast
  note d = node_stateD [OF sim_node [OF s assms(3)]]
  have "inv_commit (majority M) s" using d(2) by (simp add: spec_inv_def)
  then have "sp_commit s n \<le> length (sp_log s n)" unfolding inv_commit_def by blast
  moreover have "length (sp_log s n) = unat (LastIndex (node C n))"
    using d(5) unat_LastIndex [OF d(4)] by (metis length_abs_log)
  ultimately show ?thesis using d(4,9) by (simp add: word_le_nat_alt)
qed

lemma node_facts:
  assumes "membership cfg M" "cluster_reachable cfg M C" "n \<in> M"
  shows "log_ok (log (node C n)) \<and> last_applied (node C n) \<le> commit_index (node C n) \<and>
    commit_index (node C n) \<le> LastIndex (node C n) \<and> config (node C n) = cfg n \<and>
    (role (node C n) = kLeader \<longrightarrow>
      (\<forall>p\<in>set (other_peers (node C n)). 0 < unat (next_index (node C n) p) \<and>
         unat (next_index (node C n) p) \<le> length (log (node C n))))"
proof -
  obtain s where s: "sim cfg M C s" using cluster_refines [OF assms(1,2)] by blast
  note d = node_stateD [OF sim_node [OF s assms(3)]]
  from d(3,10,12) member_facts(2) [OF assms(1,3) d(3)] node_commit_bound [OF assms] show ?thesis
    by (auto simp: leader_rel_def)
qed

lemma leader_covers:
  assumes "membership cfg M" "cluster_reachable cfg M C" "n \<in> M" "m \<in> M"
    and "role (node C n) = kLeader" "current_term (node C m) \<le> current_term (node C n)"
  shows "commit_index (node C m) \<le> LastIndex (node C n)"
proof -
  let ?k = "unat (commit_index (node C m))"
  note m = node_commit_bound [OF assms(1,2,4)] and n = node_commit_bound [OF assms(1-3)]
  have "?k < length (log (node C m))" using m by (intro index_less) blast+
  moreover have "length (take (Suc ?k) (log (node C m))) = length (take (Suc ?k) (log (node C n)))"
    using leader_has_committed [OF assms] by simp
  ultimately have "?k < length (log (node C n))" by simp
  then show ?thesis using unat_LastIndex [of "node C n"] n by (simp add: word_le_nat_alt)
qed

text \<open>
  \<^bold>\<open>C25\<close> Every node of a reachable cluster is well formed: its log is the sentinel and entries
  numbered from 1 on, its apply cursor lies within the committed part and that within the log,
  and what a leader will send next to a peer starts within its log or right behind it. So no
  access to \<^verbatim>\<open>log_\<close> is out of range.
\<close>

theorem Raft_node_well_formed:
  assumes "membership cfg M" "cluster_reachable cfg M C" "n \<in> M"
  shows "log_ok (log (node C n)) \<and> last_applied (node C n) \<le> commit_index (node C n) \<and>
    commit_index (node C n) \<le> LastIndex (node C n) \<and> config (node C n) = cfg n \<and>
    (role (node C n) = kLeader \<longrightarrow>
      (\<forall>p\<in>set (other_peers (node C n)). 0 < unat (next_index (node C n) p) \<and>
         unat (next_index (node C n) p) \<le> length (log (node C n))))"
  by (rule node_facts [OF assms])

theorem Raft_node_well_formed_witness:
  "role (node (cluster_of demo) 1) = kLeader \<and> log_ok (log (node (cluster_of demo) 1)) \<and>
   commit_index (node (cluster_of demo) 1) \<le> LastIndex (node (cluster_of demo) 1)"
  using Raft_node_well_formed [OF demo_membership demo_reachable, of 1] demo_values by simp

end
