(* ===== verification/Raft_Record.thy ===== *)
theory Raft_Record
  imports Raft_Log Coding
begin

section \<open>The records of the Raft storage (storage.cc)\<close>

text \<open>
  The file of a node is a write-ahead log of tagged records: a hard state, of which the latest
  wins, an entry, which is appended, and a truncation, which drops the entries from an index on.
  This theory has their encoding, the bounds-checked cursor that decodes them, and the body of
  the replay loop; the lemmas are the round trips, and that a record cut anywhere is ignored.
\<close>

subsection \<open>Record encoding\<close>

definition kHardState :: byte where "kHardState = 1"
definition kEntry :: byte where "kEntry = 2"
definition kTruncate :: byte where "kTruncate = 3"

definition PutU32 :: "bytes \<Rightarrow> u32 \<Rightarrow> bytes" where
  "PutU32 s v = s @ EncodeFixed32 v"

definition PutU64 :: "bytes \<Rightarrow> u64 \<Rightarrow> bytes" where
  "PutU64 s v = PutU32 (PutU32 s (ucast (v AND 0xffffffff))) (ucast (drop_bit 32 v))"

definition hard_state_record :: "Raft \<Rightarrow> bytes" where
  "hard_state_record raft = PutU64 (PutU64 [kHardState] (current_term raft)) (voted_for raft)"

definition truncate_record :: "u64 \<Rightarrow> bytes" where
  "truncate_record from = PutU64 [kTruncate] from"

definition entry_record :: "LogEntry \<Rightarrow> bytes" where
  "entry_record e =
     PutU32 (PutU64 (PutU64 [kEntry] (le_term e)) (le_index e)) (of_nat (length (le_data e))) @ le_data e"


subsection \<open>Decoding\<close>

text \<open>The cursor: the bytes from \<^verbatim>\<open>p\<close> on, \<^verbatim>\<open>remaining\<close> of them, and the flag.\<close>

record Decoder =
  dec_p :: bytes
  dec_ok :: bool

definition U32 :: "Decoder \<Rightarrow> u32 \<times> Decoder" where
  "U32 d =
     (if length (dec_p d) < 4 then (0, d\<lparr>dec_ok := False\<rparr>)
      else (DecodeFixed32 (dec_p d), d\<lparr>dec_p := drop 4 (dec_p d)\<rparr>))"

definition U64 :: "Decoder \<Rightarrow> u64 \<times> Decoder" where
  "U64 d =
     (let (lo, d) = U32 d;
          (hi, d) = U32 d
      in (ucast lo OR push_bit 32 (ucast hi), d))"

definition Bytes :: "Decoder \<Rightarrow> u32 \<Rightarrow> bytes \<times> Decoder" where
  "Bytes d n =
     (if length (dec_p d) < unat n then ([], d\<lparr>dec_ok := False\<rparr>)
      else (take (unat n) (dec_p d), d\<lparr>dec_p := drop (unat n) (dec_p d)\<rparr>))"

record HardState =
  hs_term :: Term
  hs_vote :: NodeId


subsection \<open>Replay\<close>

function pop_from :: "LogEntry list \<Rightarrow> u64 \<Rightarrow> LogEntry list" where
  "pop_from es from =
     (if es \<noteq> [] \<and> le_index (last es) \<ge> from then pop_from (butlast es) from else es)"
  by pat_completeness auto
termination
  by (relation "measure (\<lambda>(es, from). length es)") auto

declare pop_from.simps [simp del]

text \<open>The body of the loop of \<^verbatim>\<open>ReplayFile\<close>, on the recovered hard state and entries.\<close>

definition ReplayRecord :: "HardState \<times> LogEntry list \<Rightarrow> bytes \<Rightarrow> HardState \<times> LogEntry list" where
  "ReplayRecord st rec =
     (case st of (hs, es) \<Rightarrow>
        case rec of
          [] \<Rightarrow> (hs, es)
        | tag # rest \<Rightarrow>
            let d = \<lparr>dec_p = rest, dec_ok = True\<rparr> in
            if tag = kHardState then
              let (t, d) = U64 d; (v, d) = U64 d
              in if dec_ok d then (\<lparr>hs_term = t, hs_vote = v\<rparr>, es) else (hs, es)
            else if tag = kEntry then
              let (t, d) = U64 d; (i, d) = U64 d; (n, d) = U32 d; (data, d) = Bytes d n
              in if dec_ok d then (hs, es @ [\<lparr>le_term = t, le_index = i, le_data = data\<rparr>]) else (hs, es)
            else if tag = kTruncate then
              let (from, d) = U64 d
              in if dec_ok d then (hs, pop_from es from) else (hs, es)
            else (hs, es))"

definition no_state :: "HardState \<times> LogEntry list" where
  "no_state = (\<lparr>hs_term = 0, hs_vote = 0\<rparr>, [])"


subsection \<open>Round trips of the encoding\<close>

lemma U32_EncodeFixed32 [simp]: "U32 \<lparr>dec_p = EncodeFixed32 v @ rest, dec_ok = b\<rparr> = (v, \<lparr>dec_p = rest, dec_ok = b\<rparr>)"
  by (simp add: U32_def)

lemma u64_halves: "ucast (ucast (v AND 0xffffffff) :: u32) OR push_bit 32 (ucast (ucast (drop_bit 32 v) :: u32)) = (v :: u64)"
proof -
  have m: "(0xffffffff :: u64) = mask 32" by (simp add: mask_eq_exp_minus_1)
  show ?thesis unfolding m by (rule bit_word_eqI) (auto simp: bit_simps)
qed

lemma PutU64_append: "PutU64 s v = s @ PutU64 [] v"
  by (simp add: PutU64_def PutU32_def)

lemma U64_PutU64 [simp]: "U64 \<lparr>dec_p = PutU64 [] v @ rest, dec_ok = b\<rparr> = (v, \<lparr>dec_p = rest, dec_ok = b\<rparr>)"
  by (simp add: U64_def PutU64_def PutU32_def u64_halves)

lemma ReplayRecord_hard_state:
  "ReplayRecord (hs, es) (hard_state_record raft) = (\<lparr>hs_term = current_term raft, hs_vote = voted_for raft\<rparr>, es)"
proof -
  have "hard_state_record raft = kHardState # PutU64 [] (current_term raft) @ PutU64 [] (voted_for raft) @ []"
    unfolding hard_state_record_def by (subst (1 2) PutU64_append) simp
  then show ?thesis unfolding ReplayRecord_def
    by (simp only: list.case prod.case U64_PutU64 Let_def) (simp add: kHardState_def)
qed

lemma ReplayRecord_truncate:
  "ReplayRecord (hs, es) (truncate_record from) = (hs, pop_from es from)"
proof -
  have "truncate_record from = kTruncate # PutU64 [] from @ []"
    unfolding truncate_record_def by (subst PutU64_append) simp
  then show ?thesis unfolding ReplayRecord_def
    by (simp only: list.case prod.case U64_PutU64 Let_def) (simp add: kTruncate_def kHardState_def kEntry_def)
qed

lemma ReplayRecord_entry:
  assumes "length (le_data e) < 2 ^ 32"
  shows "ReplayRecord (hs, es) (entry_record e) = (hs, es @ [e])"
proof -
  let ?n = "of_nat (length (le_data e)) :: u32"
  have rec: "entry_record e =
      kEntry # PutU64 [] (le_term e) @ PutU64 [] (le_index e) @ EncodeFixed32 ?n @ le_data e"
    unfolding entry_record_def PutU32_def by (subst (1 2) PutU64_append) simp
  have "Bytes \<lparr>dec_p = le_data e, dec_ok = True\<rparr> ?n = (le_data e, \<lparr>dec_p = [], dec_ok = True\<rparr>)"
    using assms by (simp add: Bytes_def unat_of_nat_u32)
  then show ?thesis unfolding ReplayRecord_def rec
    by (simp only: list.case prod.case U64_PutU64 U32_EncodeFixed32 Let_def)
       (simp add: kHardState_def kEntry_def)
qed

lemma replay_entries:
  "list_all (\<lambda>e. length (le_data e) < 2 ^ 32) xs \<Longrightarrow>
   foldl ReplayRecord (hs, es) (map entry_record xs) = (hs, es @ xs)"
  by (induction xs arbitrary: es) (simp_all add: ReplayRecord_entry)

text \<open>On entries numbered from 1, the truncation leaves those below its index.\<close>

lemma consecutive_snoc:
  "consecutive p (es @ [e]) \<longleftrightarrow> consecutive p es \<and> le_index e = of_nat (Suc (p + length es))"
  by (auto simp: consecutive_def nth_append less_Suc_eq)

lemma pop_from_consecutive:
  "consecutive 0 es \<Longrightarrow> Suc (length es) < 2 ^ 64 \<Longrightarrow> Suc n < 2 ^ 64 \<Longrightarrow>
   pop_from es (of_nat (Suc n)) = take n es"
proof (induction es rule: rev_induct)
  case Nil
  then show ?case by (simp add: pop_from.simps)
next
  case (snoc e es)
  have e: "le_index e = of_nat (Suc (length es))" "consecutive 0 es"
    using snoc.prems(1) by (simp_all add: consecutive_snoc)
  have "of_nat (Suc n) \<le> le_index e \<longleftrightarrow> Suc n \<le> Suc (length es)"
    unfolding e(1) word_le_nat_alt using snoc.prems(2,3) by (simp only: unat_of_nat_u64 length_append_singleton)
  with snoc.IH e(2) snoc.prems show ?case by (subst pop_from.simps) auto
qed


text \<open>
  A getter that runs short leaves the cursor where it is and clears the flag, which no getter
  sets again; so a record cut anywhere is rejected as a whole.
\<close>

lemma U32_take:
  "(4 \<le> k \<and> U32 \<lparr>dec_p = take k (EncodeFixed32 v @ rest), dec_ok = b\<rparr> = (v, \<lparr>dec_p = take (k - 4) rest, dec_ok = b\<rparr>)) \<or>
   (k < 4 \<and> \<not> dec_ok (snd (U32 \<lparr>dec_p = take k (EncodeFixed32 v @ rest), dec_ok = b\<rparr>)))"
proof (cases "k < 4")
  case False
  then have "take k (EncodeFixed32 v @ rest) = EncodeFixed32 v @ take (k - 4) rest" by simp
  with False show ?thesis by simp
qed (simp add: U32_def)

lemma dec_ok_sticky:
  "\<not> dec_ok d \<Longrightarrow> \<not> dec_ok (snd (U32 d))" "\<not> dec_ok d \<Longrightarrow> \<not> dec_ok (snd (U64 d))"
  "\<not> dec_ok d \<Longrightarrow> \<not> dec_ok (snd (Bytes d n))"
  by (auto simp: U32_def U64_def Bytes_def split: prod.splits)

lemma U64_short: "length p < 8 \<Longrightarrow> \<not> dec_ok (snd (U64 \<lparr>dec_p = p, dec_ok = b\<rparr>))"
  by (auto simp: U64_def U32_def)

lemma length_PutU64 [simp]: "length (PutU64 s v) = length s + 8"
  by (simp add: PutU64_def PutU32_def)

lemma U64_take:
  "(8 \<le> k \<and> U64 \<lparr>dec_p = take k (PutU64 [] v @ rest), dec_ok = b\<rparr> = (v, \<lparr>dec_p = take (k - 8) rest, dec_ok = b\<rparr>)) \<or>
   (k < 8 \<and> \<not> dec_ok (snd (U64 \<lparr>dec_p = take k (PutU64 [] v @ rest), dec_ok = b\<rparr>)))"
proof (cases "k < 8")
  case True
  then show ?thesis using U64_short by simp
next
  case False
  then have "take k (PutU64 [] v @ rest) = PutU64 [] v @ take (k - 8) rest" by simp
  with False show ?thesis by simp
qed

lemma ReplayRecord_short_hard_state:
  assumes "k < length (hard_state_record raft)"
  shows "ReplayRecord (hs, es) (take k (hard_state_record raft)) = (hs, es)"
proof (cases k)
  case (Suc j)
  have rec: "hard_state_record raft = kHardState # PutU64 [] (current_term raft) @ PutU64 [] (voted_for raft) @ []"
    unfolding hard_state_record_def by (subst (1 2) PutU64_append) simp
  with assms Suc have j: "j < 16" by simp
  obtain v1 d1 v2 d2 where d: "U64 \<lparr>dec_p = take j (PutU64 [] (current_term raft) @ PutU64 [] (voted_for raft) @ []), dec_ok = True\<rparr> = (v1, d1)"
    "U64 d1 = (v2, d2)" by fastforce
  have "\<not> dec_ok d2"
    using U64_take [of j "current_term raft" "PutU64 [] (voted_for raft) @ []" True]
      U64_take [of "j - 8" "voted_for raft" "[]" True] dec_ok_sticky(2) [of d1] d j by auto
  then show ?thesis unfolding ReplayRecord_def rec Suc
    by (simp only: take_Suc_Cons list.case prod.case Let_def d) simp
qed (simp add: ReplayRecord_def)

lemma ReplayRecord_short_truncate:
  assumes "k < length (truncate_record from)"
  shows "ReplayRecord (hs, es) (take k (truncate_record from)) = (hs, es)"
proof (cases k)
  case (Suc j)
  have rec: "truncate_record from = kTruncate # PutU64 [] from @ []"
    unfolding truncate_record_def by (subst PutU64_append) simp
  with assms Suc have j: "j < 8" by simp
  obtain v1 d1 where d: "U64 \<lparr>dec_p = take j (PutU64 [] from @ []), dec_ok = True\<rparr> = (v1, d1)" by fastforce
  have "\<not> dec_ok d1" using U64_take [of j "from" "[]" True] d j by auto
  then show ?thesis unfolding ReplayRecord_def rec Suc
    by (simp only: take_Suc_Cons list.case prod.case Let_def d) (simp add: kTruncate_def kHardState_def kEntry_def)
qed (simp add: ReplayRecord_def)

lemma ReplayRecord_short_entry:
  assumes "k < length (entry_record e)" "length (le_data e) < 2 ^ 32"
  shows "ReplayRecord (hs, es) (take k (entry_record e)) = (hs, es)"
proof (cases k)
  case (Suc j)
  let ?n = "of_nat (length (le_data e)) :: u32"
  let ?r2 = "EncodeFixed32 ?n @ le_data e"
  let ?r1 = "PutU64 [] (le_index e) @ ?r2"
  have rec: "entry_record e = kEntry # PutU64 [] (le_term e) @ ?r1"
    unfolding entry_record_def PutU32_def by (subst (1 2) PutU64_append) simp
  with assms Suc have j: "j < 20 + length (le_data e)" by simp
  obtain v1 d1 v2 d2 v3 d3 v4 d4 where
    d: "U64 \<lparr>dec_p = take j (PutU64 [] (le_term e) @ ?r1), dec_ok = True\<rparr> = (v1, d1)" "U64 d1 = (v2, d2)"
      "U32 d2 = (v3, d3)" "Bytes d3 v3 = (v4, d4)" by (metis prod.exhaust)
  have sticky: "\<not> dec_ok d4" if "\<not> dec_ok d1 \<or> \<not> dec_ok d2 \<or> \<not> dec_ok d3"
    using that dec_ok_sticky(2) [of d1] dec_ok_sticky(1) [of d2] dec_ok_sticky(3) [of d3 v3] d by auto
  have "\<not> dec_ok d4"
  proof (cases "j < 20")
    case True
    have "\<not> dec_ok d1 \<or> \<not> dec_ok d2 \<or> \<not> dec_ok d3"
      using U64_take [of j "le_term e" ?r1 True] U64_take [of "j - 8" "le_index e" ?r2 True] 
        U32_take [of "j - 16" ?n "le_data e" True] d True by auto
    then show ?thesis by (rule sticky)
  next
    case False
    then have "d3 = \<lparr>dec_p = take (j - 20) (le_data e), dec_ok = True\<rparr>" "v3 = ?n"
      using U64_take [of j "le_term e" ?r1 True] U64_take [of "j - 8" "le_index e" ?r2 True] 
        U32_take [of "j - 16" ?n "le_data e" True] d by auto
    moreover have "j - 20 < length (le_data e)" using j False by linarith
    ultimately show ?thesis using d(4) assms(2) by (auto simp: Bytes_def unat_of_nat_u32)
  qed
  then show ?thesis unfolding ReplayRecord_def rec Suc
    by (simp only: take_Suc_Cons list.case prod.case Let_def d) (simp add: kHardState_def kEntry_def)
qed (simp add: ReplayRecord_def)


subsection \<open>Properties\<close>

text \<open>
  \<^bold>\<open>C39\<close> The record format of the Raft storage: replaying an encoded hard state makes it the
  recovered one, replaying an encoded entry appends that entry, with its term, index and data,
  and replaying a truncation from index \<open>n + 1\<close>, over entries numbered from 1, leaves the first
  \<open>n\<close>.
\<close>

theorem RaftRecord_round_trip:
  assumes "length (le_data e) < 2 ^ 32" "consecutive 0 es" "Suc (length es) < 2 ^ 64" "Suc n < 2 ^ 64"
  shows "ReplayRecord (hs, es) (hard_state_record r) = (\<lparr>hs_term = current_term r, hs_vote = voted_for r\<rparr>, es) \<and>
    ReplayRecord (hs, es) (entry_record e) = (hs, es @ [e]) \<and>
    ReplayRecord (hs, es) (truncate_record (of_nat (Suc n))) = (hs, take n es)"
  using ReplayRecord_entry [OF assms(1)] pop_from_consecutive [OF assms(2-4)]
  by (simp add: ReplayRecord_hard_state ReplayRecord_truncate del: of_nat_Suc)

theorem RaftRecord_round_trip_witness:
  "let e = \<lparr>le_term = 1, le_index = 1, le_data = [7]\<rparr>; hs = \<lparr>hs_term = 0, hs_vote = 0\<rparr>; r = Raft_new (undefined :: Config) in
    ReplayRecord (hs, [e]) (hard_state_record r) = (\<lparr>hs_term = current_term r, hs_vote = voted_for r\<rparr>, [e]) \<and>
    ReplayRecord (hs, [e]) (entry_record e) = (hs, [e] @ [e]) \<and>
    ReplayRecord (hs, [e]) (truncate_record (of_nat (Suc 0))) = (hs, take 0 [e])"
  unfolding Let_def by (rule RaftRecord_round_trip) (simp_all add: consecutive_def)

text \<open>
  \<^bold>\<open>C38\<close> The decoder stays within its record: whatever record is cut, and at whatever byte,
  replaying the part that is left changes nothing.
\<close>

theorem RaftRecord_cut_ignored:
  assumes "length (le_data e) < 2 ^ 32"
    and "rec = hard_state_record r \<or> rec = entry_record e \<or> rec = truncate_record i"
    and "k < length rec"
  shows "ReplayRecord st (take k rec) = st"
  using assms ReplayRecord_short_hard_state [of k r "fst st" "snd st"] ReplayRecord_short_entry [of k e "fst st" "snd st"]
    ReplayRecord_short_truncate [of k i "fst st" "snd st"]
  by auto

theorem RaftRecord_cut_ignored_witness:
  "ReplayRecord no_state (take 20 (entry_record \<lparr>le_term = 1, le_index = 1, le_data = [7]\<rparr>)) = no_state"
  by (rule RaftRecord_cut_ignored [of "\<lparr>le_term = 1, le_index = 1, le_data = [7]\<rparr>"])
     (auto simp: entry_record_def PutU32_def)

end
