(* ===== verification/Raft_Storage.thy ===== *)
theory Raft_Storage
  imports Cluster Raft_Node Wal_Log Raft_Record
begin

section \<open>Durable storage of a Raft node (storage.h, storage.cc)\<close>

text \<open>
  The hard state and the log of a node, kept in a write-ahead log of the records of the theory
  of records. \<open>Save\<close> writes what the core produced since the last time, with one
  \<^verbatim>\<open>fsync\<close> at the end; \<open>RaftStorage_Open\<close> replays the file. The loop of \<open>Save\<close> over the
  unsaved indices runs over natural numbers: an index that wraps around would need a log of
  \<open>2^64\<close> entries.
\<close>

subsection \<open>Opening and replay\<close>

definition CountingReporter :: "nat \<Rightarrow> nat \<Rightarrow> Status \<Rightarrow> nat" where
  "CountingReporter dropped bytes status = dropped + bytes"

definition find_last_of :: "string \<Rightarrow> char \<Rightarrow> nat option" where
  "find_last_of s c =
     (if c \<in> set s then Some (length s - 1 - length (takeWhile (\<lambda>x. x \<noteq> c) (rev s))) else None)"

definition ParentDir :: "string \<Rightarrow> string" where
  "ParentDir path =
     (case find_last_of path (CHR ''/'') of
        None \<Rightarrow> ''.''
      | Some slash \<Rightarrow> if slash = 0 then ''/'' else take slash path)"

definition ReplayFile ::
  "string \<Rightarrow> os_state \<Rightarrow> (Status \<times> (HardState \<times> LogEntry list) \<times> u64 \<times> os_state) option" where
  "ReplayFile path os =
     (case NewSequentialFile path os of
        (s, None, os) \<Rightarrow> Some (s, no_state, 0, os)
      | (s, Some file, os) \<Rightarrow>
          (case ForEachRecord posix_sequential ReplayRecord no_state
                  (Reader_new (file, os) (Some CountingReporter) 0) of
             None \<Rightarrow> None
           | Some (st, reader) \<Rightarrow>
               Some (OK, st, if snd st = [] then 0 else le_index (last (snd st)),
                 PosixFile_destroy file (snd (rd_file reader)))))"

record RaftStorage =
  rs_path :: string
  rs_file :: PosixFile
  rs_writer :: Writer
  persisted_index :: u64
  recovered_hs :: HardState
  recovered_entries :: "LogEntry list"

definition RaftStorage_Open ::
  "string \<Rightarrow> os_state \<Rightarrow> (Status \<times> RaftStorage option \<times> os_state) option" where
  "RaftStorage_Open path os =
     (let (s, os) = MakeDir (ParentDir path) os in
      if \<not> ok s then Some (s, None, os)
      else
        let (exists, os) = FileExists path os in
        case (if exists then ReplayFile path os else Some (OK, no_state, 0, os)) of
          None \<Rightarrow> None
        | Some (s, st, persisted, os) \<Rightarrow>
            if \<not> ok s then Some (s, None, os)
            else
              let (exists, os) = FileExists path os;
                  (s, size, os) = (if exists then GetFileSize path os else (OK, 0, os))
              in
              if \<not> ok s then Some (s, None, os)
              else
                case NewAppendableFile path os of
                  (s, None, os) \<Rightarrow> Some (s, None, os)
                | (s, Some file, os) \<Rightarrow>
                    Some (OK, Some \<lparr>rs_path = path, rs_file = file, rs_writer = Writer_resume size,
                                    persisted_index = persisted, recovered_hs = fst st,
                                    recovered_entries = snd st\<rparr>, os))"

definition RaftStorage_destroy :: "RaftStorage \<Rightarrow> os_state \<Rightarrow> os_state" where
  "RaftStorage_destroy st os = PosixFile_destroy (rs_file st) os"

definition RaftStorage_Recover :: "RaftStorage \<Rightarrow> Status \<times> HardState \<times> LogEntry list" where
  "RaftStorage_Recover st = (OK, recovered_hs st, recovered_entries st)"


subsection \<open>Save\<close>

text \<open>\<^verbatim>\<open>writer_->AddRecord(rec)\<close>.\<close>

definition store_record :: "RaftStorage \<Rightarrow> os_state \<Rightarrow> bytes \<Rightarrow> Status \<times> RaftStorage \<times> os_state" where
  "store_record st os rec =
     (case AddRecord posix_writable (rs_writer st) (rs_file st, os) rec of
        (s, w, (f, os)) \<Rightarrow> (s, st\<lparr>rs_writer := w, rs_file := f\<rparr>, os))"

definition save_hard_state :: "RaftStorage \<Rightarrow> Raft \<Rightarrow> os_state \<Rightarrow> Status \<times> RaftStorage \<times> Raft \<times> os_state" where
  "save_hard_state st raft os =
     (if hard_state_dirty raft then
        case store_record st os (hard_state_record raft) of (s, st, os) \<Rightarrow>
          if \<not> ok s then (s, st, raft, os) else (OK, st, clear_hard_state_dirty raft, os)
      else (OK, st, raft, os))"

definition save_truncation :: "RaftStorage \<Rightarrow> Raft \<Rightarrow> os_state \<Rightarrow> Status \<times> RaftStorage \<times> os_state" where
  "save_truncation st raft os =
     (if stable_index raft < persisted_index st then
        case store_record st os (truncate_record (stable_index raft + 1)) of (s, st, os) \<Rightarrow>
          if \<not> ok s then (s, st, os) else (OK, st\<lparr>persisted_index := stable_index raft\<rparr>, os)
      else (OK, st, os))"

fun save_entries :: "RaftStorage \<Rightarrow> os_state \<Rightarrow> LogEntry list \<Rightarrow> Status \<times> RaftStorage \<times> os_state" where
  "save_entries st os [] = (OK, st, os)"
| "save_entries st os (e # es) =
     (case store_record st os (entry_record e) of (s, st, os) \<Rightarrow>
        if \<not> ok s then (s, st, os) else save_entries st os es)"

definition unsaved :: "RaftStorage \<Rightarrow> Raft \<Rightarrow> LogEntry list" where
  "unsaved st raft =
     map (\<lambda>i. log raft ! i) [unat (persisted_index st + 1) ..< Suc (unat (LastIndex raft))]"

definition Save :: "RaftStorage \<Rightarrow> Raft \<Rightarrow> os_state \<Rightarrow> Status \<times> RaftStorage \<times> Raft \<times> os_state" where
  "Save st raft os =
     (case save_hard_state st raft os of (s, st, raft, os) \<Rightarrow>
      if \<not> ok s then (s, st, raft, os) else
      case save_truncation st raft os of (s, st, os) \<Rightarrow>
      if \<not> ok s then (s, st, raft, os) else
      case save_entries st os (unsaved st raft) of (s, st, os) \<Rightarrow>
      if \<not> ok s then (s, st, raft, os) else
      case wf_Sync posix_writable (rs_file st, os) of (s, (f, os)) \<Rightarrow>
      if \<not> ok s then (s, st\<lparr>rs_file := f\<rparr>, raft, os)
      else (OK, st\<lparr>rs_file := f, persisted_index := LastIndex raft\<rparr>,
            set_stable_index raft (LastIndex raft), os))"


subsection \<open>The file of a node\<close>

definition replayed :: "bytes list \<Rightarrow> HardState \<times> LogEntry list" where
  "replayed recs = foldl ReplayRecord no_state recs"

text \<open>The file holds the records, and the writer stands behind the last of them.\<close>

definition store_written :: "bytes list \<Rightarrow> RaftStorage \<Rightarrow> os_state \<Rightarrow> bool" where
  "store_written recs st os \<longleftrightarrow>
     pf_path (rs_file st) = rs_path st \<and> posix_opened (rs_file st, os) \<and>
     posix_contents (rs_file st, os) = log_bytes 0 recs \<and>
     writer_ok (rs_writer st) \<and> block_offset (rs_writer st) mod kBlockSize = log_offset 0 recs mod kBlockSize"

text \<open>All of them are on stable storage too.\<close>

definition store_inv :: "bytes list \<Rightarrow> RaftStorage \<Rightarrow> os_state \<Rightarrow> bool" where
  "store_inv recs st os \<longleftrightarrow> store_written recs st os \<and> posix_durable (rs_file st, os) = log_bytes 0 recs"

text \<open>
  The file mirrors the core up to the watermark: the entries stored are numbered from 1 to
  \<^verbatim>\<open>persisted_index_\<close>, they are the core's up to \<^verbatim>\<open>stable_index_\<close>, and the stored hard state is the
  core's unless that is marked dirty.
\<close>

definition mirrors :: "bytes list \<Rightarrow> RaftStorage \<Rightarrow> Raft \<Rightarrow> bool" where
  "mirrors recs st raft \<longleftrightarrow>
     stable_within raft \<and> list_all (\<lambda>e. length (le_data e) < 2 ^ 32) (log raft) \<and>
     stable_index raft \<le> persisted_index st \<and>
     consecutive 0 (snd (replayed recs)) \<and> Suc (unat (persisted_index st)) < 2 ^ 64 \<and>
     length (snd (replayed recs)) = unat (persisted_index st) \<and>
     take (unat (stable_index raft)) (snd (replayed recs)) = take (unat (stable_index raft)) (tl (log raft)) \<and>
     (\<not> hard_state_dirty raft \<longrightarrow>
        fst (replayed recs) = \<lparr>hs_term = current_term raft, hs_vote = voted_for raft\<rparr>)"

text \<open>The records a call of \<open>Save\<close> writes, in order.\<close>

definition save_records :: "RaftStorage \<Rightarrow> Raft \<Rightarrow> bytes list" where
  "save_records st raft =
     (if hard_state_dirty raft then [hard_state_record raft] else []) @
     (if stable_index raft < persisted_index st then [truncate_record (stable_index raft + 1)] else []) @
     map entry_record (unsaved (st\<lparr>persisted_index := min (stable_index raft) (persisted_index st)\<rparr>) raft)"

lemma unsaved_drop:
  assumes "log_ok (log raft)" "unat (persisted_index st) < length (log raft)"
  shows "unsaved st raft = drop (unat (persisted_index st)) (tl (log raft))"
proof -
  have "unat (persisted_index st + 1) = Suc (unat (persisted_index st))"
    using assms log_ok_length(2) [OF assms(1)] by (intro unat_Suc_u64) linarith
  moreover have "Suc (unat (LastIndex raft)) = length (log raft)"
    using unat_LastIndex [OF assms(1)] log_ok_length(1) [OF assms(1)] by simp
  ultimately show ?thesis
    unfolding unsaved_def by (intro nth_equalityI) (auto simp: nth_tl simp del: upt_Suc)
qed

text \<open>What the three kinds of records that \<open>Save\<close> writes do to the recovered state.\<close>

lemma saved_pieces:
  fixes raft
  defines "S \<equiv> unat (stable_index raft)"
    and "hs' \<equiv> \<lparr>hs_term = current_term raft, hs_vote = voted_for raft\<rparr>"
    and "H \<equiv> if hard_state_dirty raft then [hard_state_record raft] else []"
  assumes "mirrors recs st raft"
  obtains hs es T where "replayed recs = (hs, es)" "save_records st raft = H @ T @ map entry_record (drop S (tl (log raft)))"
    "T = [] \<and> S = length es \<or> length T = 1" "take S es = take S (tl (log raft))" "H = [] \<longrightarrow> hs = hs'"
    "foldl ReplayRecord (hs, es) H = (hs', es)" "foldl ReplayRecord (hs', es) T = (hs', take S es)"
    "\<forall>xs i. foldl ReplayRecord (hs', xs) (map entry_record (take i (drop S (tl (log raft))))) =
       (hs', xs @ take i (drop S (tl (log raft))))"
proof -
  obtain hs es where rep: "replayed recs = (hs, es)" by fastforce
  let ?P = "unat (persisted_index st)"
  let ?T = "if stable_index raft < persisted_index st then [truncate_record (stable_index raft + 1)] else []"
  from assms(4) have ok: "log_ok (log raft)" and S: "S < length (log raft)" "S \<le> ?P"
    and es: "consecutive 0 es" "Suc ?P < 2 ^ 64" "length es = ?P" "take S es = take S (tl (log raft))"
    and small: "list_all (\<lambda>e. length (le_data e) < 2 ^ 32) (log raft)"
    and hs: "hard_state_dirty raft \<or> hs = hs'"
    using index_less [of raft "stable_index raft"]
    by (auto simp: mirrors_def stable_within_def rep word_le_nat_alt S_def hs'_def)
  let ?st = "st\<lparr>persisted_index := min (stable_index raft) (persisted_index st)\<rparr>"
  have "min (stable_index raft) (persisted_index st) = stable_index raft"
    using S(2) by (simp add: min_def word_le_nat_alt S_def)
  then have uns: "unsaved ?st raft = drop S (tl (log raft))"
    using unsaved_drop [OF ok, of ?st] S(1) by (simp add: S_def)
  have "foldl ReplayRecord (hs', es) ?T = (hs', take S es)"
  proof (cases "stable_index raft < persisted_index st")
    case True
    have "stable_index raft + 1 = of_nat (Suc S)" by (simp add: S_def)
    with pop_from_consecutive [OF es(1), of S] es(2,3) S(2) True show ?thesis
      by (simp add: ReplayRecord_truncate add.commute)
  next
    case False
    with S(2) es(3) show ?thesis by (simp add: word_less_nat_alt S_def)
  qed
  moreover have "foldl ReplayRecord (hs, es) H = (hs', es)" "H = [] \<longrightarrow> hs = hs'"
    using hs by (auto simp: ReplayRecord_hard_state H_def hs'_def)
  moreover have "list_all (\<lambda>e. length (le_data e) < 2 ^ 32) (take i (drop S (tl (log raft))))" for i
    using small by (cases "log raft") (auto simp: list_all_iff dest!: in_set_dropD in_set_takeD)
  moreover have "?T = [] \<and> S = length es \<or> length ?T = 1" using es(3) S(2) by (auto simp: word_less_nat_alt S_def)
  ultimately show thesis
    using that [OF rep _ _ es(4), of ?T] uns by (simp add: save_records_def H_def replay_entries)
qed

text \<open>Replaying all of them makes the recovered state that of the core.\<close>

lemma replay_saved:
  assumes "mirrors recs st raft"
  shows "replayed (recs @ save_records st raft) =
    (\<lparr>hs_term = current_term raft, hs_vote = voted_for raft\<rparr>, tl (log raft))"
proof -
  define S where "S = unat (stable_index raft)"
  define hs' where "hs' = \<lparr>hs_term = current_term raft, hs_vote = voted_for raft\<rparr>"
  define H where "H = (if hard_state_dirty raft then [hard_state_record raft] else [])"
  let ?D = "drop S (tl (log raft))"
  obtain hs es T where pc: "replayed recs = (hs, es)"
    "save_records st raft = H @ T @ map entry_record ?D" "T = [] \<and> S = length es \<or> length T = 1"
    "take S es = take S (tl (log raft))" "H = [] \<longrightarrow> hs = hs'" "foldl ReplayRecord (hs, es) H = (hs', es)"
    "foldl ReplayRecord (hs', es) T = (hs', take S es)"
    "\<forall>xs i. foldl ReplayRecord (hs', xs) (map entry_record (take i ?D)) = (hs', xs @ take i ?D)"
    unfolding S_def hs'_def H_def by (rule saved_pieces [OF assms])
  from pc(8) [rule_format, of _ "length ?D"] show ?thesis
    unfolding replayed_def pc(2) foldl_append pc(1) [unfolded replayed_def] pc(6,7,4) by (simp add: hs'_def)
qed

text \<open>
  Replaying an initial part: nothing of this call, or its hard state with the old entries, or
  with the new ones up to some point behind the watermark.
\<close>

lemma replay_saved_part:
  assumes "mirrors recs st raft"
  shows "replayed (recs @ take j (save_records st raft)) = replayed recs \<or>
    fst (replayed (recs @ take j (save_records st raft))) = \<lparr>hs_term = current_term raft, hs_vote = voted_for raft\<rparr> \<and>
    (snd (replayed (recs @ take j (save_records st raft))) = snd (replayed recs) \<or>
     (\<exists>i\<ge>unat (stable_index raft). snd (replayed (recs @ take j (save_records st raft))) = take i (tl (log raft))))"
proof -
  define S where "S = unat (stable_index raft)"
  define hs' where "hs' = \<lparr>hs_term = current_term raft, hs_vote = voted_for raft\<rparr>"
  define H where "H = (if hard_state_dirty raft then [hard_state_record raft] else [])"
  let ?D = "drop S (tl (log raft))"
  obtain hs es T where pc: "replayed recs = (hs, es)"
    "save_records st raft = H @ T @ map entry_record ?D" "T = [] \<and> S = length es \<or> length T = 1"
    "take S es = take S (tl (log raft))" "H = [] \<longrightarrow> hs = hs'" "foldl ReplayRecord (hs, es) H = (hs', es)"
    "foldl ReplayRecord (hs', es) T = (hs', take S es)"
    "\<forall>xs i. foldl ReplayRecord (hs', xs) (map entry_record (take i ?D)) = (hs', xs @ take i ?D)"
    unfolding S_def hs'_def H_def by (rule saved_pieces [OF assms])
  have h: "length H \<le> 1" by (simp add: H_def)
  let ?X = "replayed (recs @ take j (save_records st raft))"
  consider "take j H = []" "j < length H" | "length H \<le> j" "j < length H + length T" | "length H + length T \<le> j"
    using h by (cases "j < length H"; cases "j < length H + length T") auto
  then show ?thesis
  proof cases
    case 1
    then show ?thesis by (auto simp: pc(2))
  next
    case 2
    then have "take j (save_records st raft) = H" using pc(3) by (cases T) (auto simp: pc(2))
    then have "?X = (hs', es)" using pc(1,6) by (simp add: replayed_def)
    then show ?thesis using pc(1) by (simp add: hs'_def)
  next
    case 3
    let ?i = "j - length H - length T"
    have "take j (save_records st raft) = H @ T @ map entry_record (take ?i ?D)"
      using 3 by (simp add: pc(2) take_map)
    then have "?X = (hs', take S es @ take ?i ?D)" using pc(1,6-8) by (simp add: replayed_def)
    moreover have "take S es @ take ?i ?D = take (S + ?i) (tl (log raft))" by (simp add: pc(4) take_add)
    ultimately show ?thesis by (intro disjI2 conjI disjI2 exI [of _ "S + ?i"]) (simp_all add: hs'_def S_def)
  qed
qed


subsection \<open>What Save does to the file\<close>

lemma save_entries_add:
  "save_entries st os es =
     (case add_records posix_writable (rs_writer st) (rs_file st, os) (map entry_record es) of
        (s, w, (f, os)) \<Rightarrow> (s, st\<lparr>rs_writer := w, rs_file := f\<rparr>, os))"
  by (induction es arbitrary: st os) (auto simp: store_record_def split: prod.splits)

lemma save_hard_state_add:
  "save_hard_state st raft os =
     (case add_records posix_writable (rs_writer st) (rs_file st, os)
             (if hard_state_dirty raft then [hard_state_record raft] else []) of
        (s, w, (f, os)) \<Rightarrow>
          (s, st\<lparr>rs_writer := w, rs_file := f\<rparr>, if ok s then clear_hard_state_dirty raft else raft, os))"
  by (auto simp: save_hard_state_def store_record_def clear_hard_state_dirty_def split: prod.splits)

lemma save_truncation_add:
  "save_truncation st raft os =
     (case add_records posix_writable (rs_writer st) (rs_file st, os)
             (if stable_index raft < persisted_index st then [truncate_record (stable_index raft + 1)] else []) of
        (s, w, (f, os)) \<Rightarrow>
          (s, st\<lparr>rs_writer := w, rs_file := f,
                persisted_index := if ok s then min (stable_index raft) (persisted_index st) else persisted_index st\<rparr>, os))"
  by (auto simp: save_truncation_def store_record_def split: prod.splits)

lemma Save_add:
  assumes "add_records posix_writable (rs_writer st) (rs_file st, os) (save_records st raft) = (s1, w1, (f1, os1))"
    and "Save st raft os = (s, st', raft', os')"
  shows "\<not> ok s1 \<Longrightarrow> s = s1 \<and> rs_file st' = f1 \<and> os' = os1"
    and "ok s1 \<Longrightarrow> wf_Sync posix_writable (f1, os1) = (s2, (f2, os2)) \<Longrightarrow>
      os' = os2 \<and> st' = st\<lparr>rs_file := f2, rs_writer := w1,
        persisted_index := if ok s2 then LastIndex raft else min (stable_index raft) (persisted_index st)\<rparr> \<and>
      s = (if ok s2 then OK else s2) \<and>
      raft' = raft\<lparr>hard_state_dirty := False, stable_index := if ok s2 then LastIndex raft else stable_index raft\<rparr>"
proof -
  let ?hs = "if hard_state_dirty raft then [hard_state_record raft] else []"
  let ?tr = "if stable_index raft < persisted_index st then [truncate_record (stable_index raft + 1)] else []"
  let ?st = "st\<lparr>persisted_index := min (stable_index raft) (persisted_index st)\<rparr>"
  obtain sa wa fa oa where a: "add_records posix_writable (rs_writer st) (rs_file st, os) ?hs = (sa, wa, (fa, oa))"
    by (metis prod_cases4)
  obtain sb wb fb ob where b: "add_records posix_writable wa (fa, oa) ?tr = (sb, wb, (fb, ob))"
    by (metis prod_cases4)
  obtain sc wc fc oc where c: "add_records posix_writable wb (fb, ob) (map entry_record (unsaved ?st raft)) = (sc, wc, (fc, oc))"
    by (metis prod_cases4)
  have uns: "unsaved (st\<lparr>rs_writer := w, rs_file := f, persisted_index := p\<rparr>) (raft\<lparr>hard_state_dirty := d\<rparr>) =
      unsaved (st\<lparr>persisted_index := p\<rparr>) raft" for w f p d
    by (simp add: unsaved_def LastIndex_def)
  have res: "(s1, w1, (f1, os1)) = (if \<not> ok sa then (sa, wa, (fa, oa)) else if \<not> ok sb then (sb, wb, (fb, ob))
      else (sc, wc, (fc, oc)))"
    using assms(1) a b c
    by (cases "ok sa"; cases "ok sb") (simp_all add: save_records_def add_records_append del: add_records.simps)
  have sv: "Save st raft os = (if \<not> ok sa then (sa, st\<lparr>rs_writer := wa, rs_file := fa\<rparr>, raft, oa)
      else if \<not> ok sb then (sb, st\<lparr>rs_writer := wb, rs_file := fb\<rparr>, raft\<lparr>hard_state_dirty := False\<rparr>, ob)
      else if \<not> ok sc then (sc, ?st\<lparr>rs_writer := wc, rs_file := fc\<rparr>, raft\<lparr>hard_state_dirty := False\<rparr>, oc)
      else case wf_Sync posix_writable (fc, oc) of (s, (f, os)) \<Rightarrow>
        if \<not> ok s then (s, ?st\<lparr>rs_writer := wc, rs_file := f\<rparr>, raft\<lparr>hard_state_dirty := False\<rparr>, os)
        else (OK, st\<lparr>rs_writer := wc, rs_file := f, persisted_index := LastIndex raft\<rparr>,
          raft\<lparr>hard_state_dirty := False, stable_index := LastIndex raft\<rparr>, os))"
  proof -
    let ?r = "raft\<lparr>hard_state_dirty := False\<rparr>"
    let ?sta = "st\<lparr>rs_writer := wa, rs_file := fa\<rparr>"
    let ?stb = "st\<lparr>rs_writer := wb, rs_file := fb, persisted_index := min (stable_index raft) (persisted_index st)\<rparr>"
    have "save_hard_state st raft os = (sa, ?sta, if ok sa then ?r else raft, oa)"
      by (simp add: save_hard_state_add a clear_hard_state_dirty_def)
    moreover have "save_truncation ?sta ?r oa =
        (sb, if ok sb then ?stb else st\<lparr>rs_writer := wb, rs_file := fb\<rparr>, ob)"
      using b by (cases "stable_index raft < persisted_index st")
        (simp_all add: save_truncation_add min_def del: add_records.simps)
    moreover have "save_entries ?stb ob (unsaved ?stb ?r) = (sc, ?stb\<lparr>rs_writer := wc, rs_file := fc\<rparr>, oc)"
      using c by (simp add: save_entries_add uns)
    moreover have "LastIndex ?r = LastIndex raft" by (simp add: LastIndex_def)
    ultimately show ?thesis
      by (cases "ok sa"; cases "ok sb"; cases "ok sc") (simp_all add: Save_def set_stable_index_def split: prod.split)
  qed
  show "\<not> ok s1 \<Longrightarrow> s = s1 \<and> rs_file st' = f1 \<and> os' = os1"
    using res sv assms(2) by (auto split: if_splits)
  show "ok s1 \<Longrightarrow> wf_Sync posix_writable (f1, os1) = (s2, (f2, os2)) \<Longrightarrow>
      os' = os2 \<and> st' = st\<lparr>rs_file := f2, rs_writer := w1,
        persisted_index := if ok s2 then LastIndex raft else min (stable_index raft) (persisted_index st)\<rparr> \<and>
      s = (if ok s2 then OK else s2) \<and>
      raft' = raft\<lparr>hard_state_dirty := False, stable_index := if ok s2 then LastIndex raft else stable_index raft\<rparr>"
    using res sv assms(2) by (auto split: if_splits)
qed

lemma Save_status: "Save st raft os = (s, st', raft', os') \<Longrightarrow> ok s \<Longrightarrow> s = OK"
  by (auto simp: Save_def split: prod.splits if_splits)

lemma log_ok_consecutive: "log_ok l \<Longrightarrow> consecutive 0 (tl l)"
  by (auto simp: log_ok_def consecutive_def nth_tl)

lemma mirrors_saved:
  assumes "mirrors recs st raft" "replayed recs' = (\<lparr>hs_term = current_term raft, hs_vote = voted_for raft\<rparr>, tl (log raft))"
    and "persisted_index st' = LastIndex raft"
    and "raft' = raft\<lparr>hard_state_dirty := False, stable_index := LastIndex raft\<rparr>"
  shows "mirrors recs' st' raft'"
proof -
  have ok: "log_ok (log raft)" and small: "list_all (\<lambda>e. length (le_data e) < 2 ^ 32) (log raft)"
    using assms(1) by (auto simp: mirrors_def stable_within_def)
  have "unat (LastIndex raft) = length (tl (log raft))" using unat_LastIndex [OF ok] by simp
  moreover have "Suc (unat (LastIndex raft)) < 2 ^ 64"
    using unat_LastIndex [OF ok] log_ok_length [OF ok] by simp
  moreover have "LastIndex raft' = LastIndex raft" by (simp add: assms(4) LastIndex_def)
  ultimately show ?thesis
    using ok small log_ok_consecutive [OF ok] assms(2-4) by (simp add: mirrors_def stable_within_def)
qed

text \<open>Adding records to a file that holds others.\<close>

lemma store_add:
  assumes st: "store_written recs st os"
    and add: "add_records posix_writable (rs_writer st) (rs_file st, os) new = (s1, w1, (f1, os1))"
  shows "posix_open_at (rs_file st) os (rs_file st, os1)" "f1 = rs_file st"
    "posix_durable (rs_file st, os1) = posix_durable (rs_file st, os)"
    "\<exists>k. posix_contents (rs_file st, os1) = take (length (log_bytes 0 recs) + k) (log_bytes 0 (recs @ new))"
    "ok s1 \<Longrightarrow> store_written (recs @ new) (st\<lparr>rs_writer := w1, persisted_index := i\<rparr>) os1"
proof -
  let ?f = "rs_file st" and ?o = "block_offset (rs_writer st)"
  from st have op: "posix_opened (?f, os)" and wok: "writer_ok (rs_writer st)"
    and con: "posix_contents (?f, os) = log_bytes 0 recs"
    and off: "?o mod kBlockSize = log_offset 0 recs mod kBlockSize"
    by (simp_all add: store_written_def)
  note at0 = posix_open_at_refl [OF op]
  note g = posix_wf_at.add_records_grown [OF add at0 wok]
  note at1 = grown_opened [OF g]
  then show f1: "f1 = ?f" by (simp add: posix_open_at_def)
  show at: "posix_open_at ?f os (?f, os1)" using at1 by (simp add: f1)
  have bo: "?o \<le> kBlockSize" using wok by (simp add: writer_ok_def)
  have lo: "log_offset 0 recs \<le> kBlockSize" by (rule log_offset_le) simp
  have L: "log_bytes 0 (recs @ new) = log_bytes 0 recs @ log_bytes ?o new"
    using log_bytes_mod [OF bo, of new] log_bytes_mod [OF lo, of new] off by (simp add: log_bytes_append)
  show "posix_durable (?f, os1) = posix_durable (?f, os)" using g by (simp add: grown_def f1)
  show "\<exists>k. posix_contents (?f, os1) = take (length (log_bytes 0 recs) + k) (log_bytes 0 (recs @ new))"
    using g con by (auto simp: grown_def f1 L)
  assume ok: "ok s1"
  note w1 = posix_wf_at.add_records_offset [OF add at0 wok ok]
  have "log_offset ?o new mod kBlockSize = log_offset 0 (recs @ new) mod kBlockSize"
    using log_offset_mod [OF bo, of new] log_offset_mod [OF lo, of new] off L
    by (metis log_bytes_append log_offset_append mod_add_left_eq same_append_eq)
  moreover have "posix_contents (?f, os1) = log_bytes 0 (recs @ new)" using g con ok by (simp add: grown_def f1 L)
  ultimately show "store_written (recs @ new) (st\<lparr>rs_writer := w1, persisted_index := i\<rparr>) os1"
    using w1 st at by (simp add: store_written_def posix_open_at_def)
qed

lemma Save_ok:
  assumes "store_written recs st os" "Save st raft os = (s, st', raft', os')" "ok s"
  shows "store_inv (recs @ save_records st raft) st' os'"
    "raft' = raft\<lparr>hard_state_dirty := False, stable_index := LastIndex raft\<rparr>"
    "persisted_index st' = LastIndex raft" "rs_file st' = rs_file st"
proof -
  let ?new = "save_records st raft" and ?f = "rs_file st"
  obtain s1 w1 f1 os1 where add: "add_records posix_writable (rs_writer st) (?f, os) ?new = (s1, w1, (f1, os1))"
    by (metis prod_cases4)
  note sa = store_add [OF assms(1) add]
  obtain s2 f2 os2 where sy: "wf_Sync posix_writable (?f, os1) = (s2, (f2, os2))" by (metis prod_cases3)
  note at2 = PosixSync_at [OF sa(1) sy]
  have f2: "f2 = ?f" using at2 by (simp add: posix_open_at_def)
  note law = posix_wf_at.Sync_law [OF sa(1) sy, unfolded f2]
  have s1: "ok s1" using Save_add(1) [OF add assms(2)] assms(3) by blast
  note res = Save_add(2) [OF add assms(2) s1 sy [folded sa(2)]]
  have s2: "ok s2" using res assms(3) by (auto split: if_splits)
  show "raft' = raft\<lparr>hard_state_dirty := False, stable_index := LastIndex raft\<rparr>"
    "persisted_index st' = LastIndex raft" "rs_file st' = rs_file st" using res s2 f2 by simp_all
  from sa(5) [OF s1, of "LastIndex raft"] res s2 law at2 show "store_inv (recs @ ?new) st' os'"
    by (simp add: store_inv_def store_written_def f2 posix_open_at_def)
qed

text \<open>The failure of the last step: everything is written, nothing is noted.\<close>

lemma Save_sync_fails:
  assumes "store_written recs st os" "\<not> ok s"
    and add: "add_records posix_writable (rs_writer st) (rs_file st, os) (save_records st raft) = (OK, w1, (f1, os1))"
    and sy: "wf_Sync posix_writable (f1, os1) = (s, (f2, os2))"
  shows "\<exists>st'. Save st raft os = (s, st', raft\<lparr>hard_state_dirty := False\<rparr>, os2) \<and>
    store_written (recs @ save_records st raft) st' os2 \<and> rs_file st' = rs_file st \<and> rs_path st' = rs_path st \<and>
    persisted_index st' = min (stable_index raft) (persisted_index st)"
proof -
  note sa = store_add [OF assms(1) add]
  note sy' = sy [unfolded sa(2)]
  have f2: "f2 = rs_file st" using PosixSync_at [OF sa(1) sy'] by (simp add: posix_open_at_def)
  note law = posix_wf_at.Sync_law [OF sa(1) sy', unfolded f2] and at2 = PosixSync_at [OF sa(1) sy']
  obtain s' st' raft' os' where sv: "Save st raft os = (s', st', raft', os')" by (metis prod_cases4)
  note res = Save_add(2) [OF add sv _ sy]
  from sa(5) [of "min (stable_index raft) (persisted_index st)"] sv res assms(2) law at2 show ?thesis
    by (auto simp: store_written_def f2 posix_open_at_def)
qed

lemma Save_spec:
  assumes inv: "store_inv recs st os" and mir: "mirrors recs st raft" and sv: "Save st raft os = (s, st', raft', os')"
  shows "rs_file st' = rs_file st" "os_dirs os' = os_dirs os" "posix_opened (rs_file st, os')"
    "\<exists>k. posix_contents (rs_file st, os') = take k (log_bytes 0 (recs @ save_records st raft)) \<and>
       length (posix_durable (rs_file st, os')) \<le> k"
    "length (log_bytes 0 recs) \<le> length (posix_durable (rs_file st, os'))"
    "ok s \<Longrightarrow> store_inv (recs @ save_records st raft) st' os'"
    "ok s \<Longrightarrow> raft' = raft\<lparr>hard_state_dirty := False, stable_index := LastIndex raft\<rparr>"
    "ok s \<Longrightarrow> mirrors (recs @ save_records st raft) st' raft'"
proof -
  let ?new = "save_records st raft" and ?f = "rs_file st"
  let ?L = "log_bytes 0 (recs @ ?new)"
  have wr: "store_written recs st os" and du: "posix_durable (?f, os) = log_bytes 0 recs"
    using inv by (simp_all add: store_inv_def)
  obtain s1 w1 f1 os1 where add: "add_records posix_writable (rs_writer st) (?f, os) ?new = (s1, w1, (f1, os1))"
    by (metis prod_cases4)
  note sa = store_add [OF wr add]
  have L: "length (log_bytes 0 recs) \<le> length ?L" by (simp add: log_bytes_append)
  have full: "posix_contents (?f, os1) = ?L" if "ok s1" using sa(5) [OF that] by (simp add: store_written_def)
  obtain k1 where k1: "posix_contents (?f, os1) = take (length (log_bytes 0 recs) + k1) ?L" using sa(4) by blast
  obtain s2 f2 os2 where sy: "wf_Sync posix_writable (?f, os1) = (s2, (f2, os2))" by (metis prod_cases3)
  note at2 = PosixSync_at [OF sa(1) sy]
  have f2: "f2 = ?f" using at2 by (simp add: posix_open_at_def)
  note law = posix_wf_at.Sync_law [OF sa(1) sy, unfolded f2]
  note fail = Save_add(1) [OF add sv] and fin = Save_add(2) [OF add sv _ sy [folded sa(2)]]
  show "rs_file st' = rs_file st"
    using fail fin sa(2) f2 by (cases "ok s1") auto
  show "os_dirs os' = os_dirs os" "posix_opened (rs_file st, os')"
    using fail fin sa(1) at2 sa(2) f2 by (cases "ok s1"; auto simp: posix_open_at_def)+
  show "\<exists>k. posix_contents (?f, os') = take k ?L \<and> length (posix_durable (?f, os')) \<le> k"
  proof (cases "ok s1")
    case False
    with fail k1 sa(3) du show ?thesis by (intro exI [of _ "length (log_bytes 0 recs) + k1"]) simp
  next
    case True
    with fin law full sa(3) du L show ?thesis by (intro exI [of _ "length ?L"]) auto
  qed
  show "length (log_bytes 0 recs) \<le> length (posix_durable (?f, os'))"
    using fail fin law full sa(3) du L by (cases "ok s1") auto
  assume ok: "ok s"
  note res = Save_ok [OF wr sv ok]
  show "store_inv (recs @ ?new) st' os'" "raft' = raft\<lparr>hard_state_dirty := False, stable_index := LastIndex raft\<rparr>"
    by (fact res)+
  show "mirrors (recs @ ?new) st' raft'" by (rule mirrors_saved [OF mir replay_saved [OF mir] res(3,2)])
qed

text \<open>Where no call fails, \<open>Save\<close> succeeds.\<close>

lemma Save_calm:
  assumes op: "posix_opened (rs_file st, os)" and wok: "writer_ok (rs_writer st)" and "calm os"
  shows "\<exists>st' raft' os'. Save st raft os = (OK, st', raft', os') \<and> calm os' \<and> os_dirs os' = os_dirs os \<and>
    raft' = raft\<lparr>hard_state_dirty := False, stable_index := LastIndex raft\<rparr> \<and>
    posix_opened (rs_file st, os') \<and>
    posix_contents (rs_file st, os') =
      posix_contents (rs_file st, os) @ log_bytes (block_offset (rs_writer st)) (save_records st raft) \<and>
    posix_durable (rs_file st, os') = posix_contents (rs_file st, os')"
proof -
  note at0 = posix_open_at_refl [OF op]
  have "posix_healthy (rs_file st, os)" using assms(3) by (simp add: posix_healthy_def calm_harmless)
  from posix_wf_at.add_records_ok [OF at0 this wok, of "save_records st raft"] obtain w1 f1 os1 where
    add: "add_records posix_writable (rs_writer st) (rs_file st, os) (save_records st raft) = (OK, w1, (f1, os1))"
    by auto
  note g = posix_wf_at.add_records_grown [OF add at0 wok]
  note at1 = grown_opened [OF g]
  then have f1: "f1 = rs_file st" and o1: "posix_opened (rs_file st, os1)" "calm os1"
    using assms(3) by (auto simp: posix_open_at_def)
  with PosixSync_calm [of "(rs_file st, os1)"] obtain f2 os2 where
    sy: "wf_Sync posix_writable (rs_file st, os1) = (OK, (f2, os2))" "calm os2" by auto
  note at2 = PosixSync_at [OF at1 [unfolded f1] sy(1)]
  have f2: "f2 = rs_file st" using at2 by (simp add: posix_open_at_def)
  note law = posix_wf_at.Sync_law [OF at1 [unfolded f1] sy(1), unfolded f2]
  obtain s st' raft' os' where sv: "Save st raft os = (s, st', raft', os')" by (metis prod_cases4)
  from Save_add(2) [OF add sv _ sy(1) [folded f1]] sv sy(2) law at2 g show ?thesis
    by (auto simp: grown_def f1 f2 posix_open_at_def)
qed


subsection \<open>Opening\<close>

text \<open>\<open>storage_replays c x\<close>: replaying a file with contents \<open>c\<close> gives \<open>x\<close>.\<close>

definition storage_replays :: "bytes \<Rightarrow> HardState \<times> LogEntry list \<Rightarrow> bool" where
  "storage_replays c x \<longleftrightarrow>
     (\<forall>f. posix_readable f \<and> posix_remaining f = c \<longrightarrow>
        (\<exists>r'. ForEachRecord posix_sequential ReplayRecord no_state (Reader_new f (Some CountingReporter) 0) = Some (x, r')))"

lemma storage_replays_log: "storage_replays (take m (log_bytes 0 recs)) (replayed (take (whole_records 0 m recs) recs))"
  unfolding storage_replays_def
proof (intro allI impI, elim conjE)
  fix f assume "posix_readable f" "posix_remaining f = take m (log_bytes 0 recs)"
  from posix_sf.ForEachRecord_new [OF this, of ReplayRecord no_state "Some CountingReporter" 0]
  show "\<exists>r'. ForEachRecord posix_sequential ReplayRecord no_state (Reader_new f (Some CountingReporter) 0) =
      Some (replayed (take (whole_records 0 m recs) recs), r')" by (auto simp: replayed_def)
qed

lemma ReplayFile_calm:
  assumes "calm os" "os_files os p = Some c" "storage_replays c x"
  shows "\<exists>os'. ReplayFile p os = Some (OK, x, if snd x = [] then 0 else le_index (last (snd x)), os') \<and>
    disk_kept os os'"
proof -
  obtain f os1 where f: "NewSequentialFile p os = (OK, Some f, os1)" "disk_kept os os1"
    "posix_readable (f, os1)" "posix_remaining (f, os1) = c"
    using NewSequentialFile_calm [OF assms(1,2)] by auto
  let ?R = "Reader_new (f, os1) (Some CountingReporter) 0"
  obtain r' where r': "ForEachRecord posix_sequential ReplayRecord no_state ?R = Some (x, r')"
    using assms(3) f(3,4) unfolding storage_replays_def by blast
  have "posix_reading os (rd_file ?R)" using f by (simp add: posix_reading_def Reader_new_def)
  from posix_sf_kept.ForEachRecord_returns [OF this, of ReplayRecord no_state] r'
  have "posix_reading os (rd_file r')" by auto
  then have "disk_kept os (PosixFile_destroy f (snd (rd_file r')))"
    by (auto simp: posix_reading_def intro: disk_kept_trans [OF _ PosixFile_destroy_kept])
  with r' f(1) show ?thesis by (simp add: ReplayFile_def)
qed

text \<open>
  Opening a file with any contents, or none, with no call failing: the recovered state is what
  replaying these contents gives, and writing goes on behind them.
\<close>

lemma RaftStorage_Open_calm:
  assumes calm: "calm os" and dirs: "p \<notin> os_dirs os" "p \<noteq> ParentDir p"
    and fl: "os_files os p = Some c \<and> storage_replays c x \<or> os_files os p = None \<and> c = [] \<and> x = no_state"
  shows "\<exists>st os'. RaftStorage_Open p os = Some (OK, Some st, os') \<and> calm os' \<and> rs_path st = p \<and>
    pf_path (rs_file st) = p \<and> posix_opened (rs_file st, os') \<and>
    posix_contents (rs_file st, os') = c \<and>
    posix_durable (rs_file st, os') = (if os_files os p = None then [] else stable_contents os p) \<and>
    rs_writer st = Writer_resume (of_nat (length c)) \<and>
    (recovered_hs st, recovered_entries st) = x \<and>
    persisted_index st = (if snd x = [] then 0 else le_index (last (snd x))) \<and>
    os_dirs os' \<subseteq> insert (ParentDir p) (os_dirs os)"
proof -
  let ?ex = "os_files os p \<noteq> None"
  let ?P = "if snd x = [] then 0 else le_index (last (snd x))"
  obtain os0 where os0: "MakeDir (ParentDir p) os = (OK, os0)" "calm os0" "os_files os0 = os_files os"
    "os_stable os0 = os_stable os" "os_dirs os0 \<subseteq> insert (ParentDir p) (os_dirs os)"
    using MakeDir_calm [OF calm, of "ParentDir p"] by auto
  have nd: "p \<notin> os_dirs os0" using os0(5) dirs by auto
  obtain os1 where os1: "FileExists p os0 = (?ex, os1)" "disk_kept os0 os1"
    using FileExists_calm [OF os0(2), of p] nd os0(3) by auto
  note c1 = disk_kept_calm [OF os1(2) os0(2)]
  have f1: "os_files os1 p = os_files os p" using os1(2) os0(3) by (simp add: disk_kept_def)
  obtain os2 where os2: "(if ?ex then ReplayFile p os1 else Some (OK, no_state, 0, os1)) = Some (OK, x, ?P, os2)"
    "disk_kept os1 os2"
  proof (cases ?ex)
    case True
    with fl f1 have "os_files os1 p = Some c" "storage_replays c x" by auto
    from ReplayFile_calm [OF c1 this] True show thesis by (auto intro: that)
  next
    case False
    with fl have "x = no_state" by simp
    with False show thesis by (intro that [of os1]) (simp_all add: no_state_def)
  qed
  note k2 = disk_kept_trans [OF os1(2) os2(2)]
  note c2 = disk_kept_calm [OF k2 os0(2)]
  obtain os3 where os3: "FileExists p os2 = (?ex, os3)" "disk_kept os2 os3"
    using FileExists_calm [OF c2, of p] nd k2 os0(3) by (auto simp: disk_kept_def)
  note k3 = disk_kept_trans [OF k2 os3(2)]
  note c3 = disk_kept_calm [OF k3 os0(2)]
  have f3: "os_files os3 p = os_files os p" using k3 os0(3) by (simp add: disk_kept_def)
  let ?n = "of_nat (length c) :: u64"
  obtain os4 where os4: "(if ?ex then GetFileSize p os3 else (OK, 0, os3)) = (OK, ?n, os4)" "disk_kept os3 os4"
    using GetFileSize_calm [OF c3, of p] f3 fl by auto
  note k4 = disk_kept_trans [OF k3 os4(2)]
  note c4 = disk_kept_calm [OF k4 os0(2)]
  have f4: "os_files os4 p = os_files os p" "stable_contents os4 p = stable_contents os p"
    using k4 os0(3,4) by (simp_all add: disk_kept_def stable_contents_def)
  obtain f os5 where os5: "NewAppendableFile p os4 = (OK, Some f, os5)" "calm os5" "pf_path f = p"
    "posix_opened (f, os5)" "posix_contents (f, os5) = file_contents os4 p"
    "posix_durable (f, os5) = (if os_files os4 p = None then [] else stable_contents os4 p)"
    "os_dirs os5 = os_dirs os4"
    using NewAppendableFile_calm [OF c4, of p] by auto
  have "RaftStorage_Open p os = Some (OK, Some \<lparr>rs_path = p, rs_file = f, rs_writer = Writer_resume ?n,
      persisted_index = ?P, recovered_hs = fst x, recovered_entries = snd x\<rparr>, os5)"
    using os0(1) os1(1) os2(1) os3(1) os4(1) os5(1) by (simp add: RaftStorage_Open_def)
  moreover have "posix_contents (f, os5) = c" using f4 os5(5) fl by (auto simp: file_contents_def)
  moreover have "os_dirs os5 \<subseteq> insert (ParentDir p) (os_dirs os)"
    using os5(7) k4 os0(5) by (simp add: disk_kept_def)
  ultimately show ?thesis using os5 f4 by simp
qed

text \<open>On a whole log the storage is ready for the next \<open>Save\<close>.\<close>

lemma RaftStorage_Open_clean:
  assumes "calm os" "p \<notin> os_dirs os" "p \<noteq> ParentDir p"
    and fl: "os_files os p = Some (log_bytes 0 recs) \<or> os_files os p = None \<and> recs = []"
    and "stable_contents os p = log_bytes 0 recs"
  shows "\<exists>st os'. RaftStorage_Open p os = Some (OK, Some st, os') \<and> calm os' \<and> rs_path st = p \<and>
    store_inv recs st os' \<and> (recovered_hs st, recovered_entries st) = replayed recs \<and>
    persisted_index st = (if snd (replayed recs) = [] then 0 else le_index (last (snd (replayed recs)))) \<and>
    os_dirs os' \<subseteq> insert (ParentDir p) (os_dirs os)"
proof -
  let ?m = "length (log_bytes 0 recs)"
  have w: "whole_records 0 ?m recs = length recs" by (rule whole_records_all) simp
  have "os_files os p = Some (log_bytes 0 recs) \<and> storage_replays (log_bytes 0 recs) (replayed recs) \<or>
      os_files os p = None \<and> log_bytes 0 recs = [] \<and> replayed recs = no_state"
    using fl storage_replays_log [of ?m recs] w by (auto simp: replayed_def)
  from RaftStorage_Open_calm [OF assms(1-3) this] obtain st os' where
    st: "RaftStorage_Open p os = Some (OK, Some st, os')" "calm os'" "rs_path st = p"
    "pf_path (rs_file st) = p" "posix_opened (rs_file st, os')" "posix_contents (rs_file st, os') = log_bytes 0 recs"
    "posix_durable (rs_file st, os') = (if os_files os p = None then [] else stable_contents os p)"
    "rs_writer st = Writer_resume (of_nat ?m)" "(recovered_hs st, recovered_entries st) = replayed recs"
    "persisted_index st = (if snd (replayed recs) = [] then 0 else le_index (last (snd (replayed recs))))"
    "os_dirs os' \<subseteq> insert (ParentDir p) (os_dirs os)"
    by auto
  have "block_offset (rs_writer st) mod kBlockSize = log_offset 0 recs mod kBlockSize"
    using log_offset_mod [of 0 recs] by (simp add: st(8))
  moreover have "posix_durable (rs_file st, os') = log_bytes 0 recs"
    using st(7) assms(5) fl by auto
  ultimately have "store_inv recs st os'" using st by (simp add: store_inv_def store_written_def)
  with st show ?thesis by blast
qed


text \<open>After a power failure on a file that is whole and durable.\<close>

lemma store_crash_open:
  assumes "store_inv recs st os" "crash os os1" "calm os1" "rs_path st \<notin> os_dirs os1" "rs_path st \<noteq> ParentDir (rs_path st)"
  shows "\<exists>st1 os2. RaftStorage_Open (rs_path st) os1 = Some (OK, Some st1, os2) \<and>
    (recovered_hs st1, recovered_entries st1) = replayed recs"
proof -
  let ?L = "log_bytes 0 recs"
  have "os_files os (rs_path st) \<noteq> None" "file_contents os (rs_path st) = ?L" "stable_contents os (rs_path st) = ?L"
    using assms(1) by (auto simp: store_inv_def store_written_def posix_opened_def posix_contents_def posix_durable_def)
  with file_crash_take [OF crash_file [OF assms(2)], of "rs_path st" "length ?L" ?L]
  have fl: "os_files os1 (rs_path st) = Some ?L" by auto
  have "storage_replays ?L (replayed recs)"
    using storage_replays_log [of "length ?L" recs] whole_records_all [of 0 recs "length ?L"] by simp
  from RaftStorage_Open_calm [OF assms(3-5) disjI1 [OF conjI [OF fl this]]] show ?thesis by blast
qed

lemma retry_records:
  assumes "mirrors recs st raft" "persisted_index st' = min (stable_index raft) (persisted_index st)"
  shows "replayed (recs @ save_records st raft @ save_records st' (raft\<lparr>hard_state_dirty := False\<rparr>)) =
    (\<lparr>hs_term = current_term raft, hs_vote = voted_for raft\<rparr>,
     tl (log raft) @ drop (unat (stable_index raft)) (tl (log raft)))"
proof -
  let ?r = "raft\<lparr>hard_state_dirty := False\<rparr>" and ?ents = "drop (unat (stable_index raft)) (tl (log raft))"
  from assms(1) have ok: "log_ok (log raft)" and S: "unat (stable_index raft) < length (log raft)"
    and small: "list_all (\<lambda>e. length (le_data e) < 2 ^ 32) (log raft)" and P: "persisted_index st' = stable_index raft"
    using index_less [of raft "stable_index raft"] assms(2) by (auto simp: mirrors_def stable_within_def min_def)
  have "unsaved (st'\<lparr>persisted_index := stable_index raft\<rparr>) ?r = ?ents"
    using unsaved_drop [of ?r "st'\<lparr>persisted_index := stable_index raft\<rparr>"] ok S by simp
  then have "save_records st' ?r = map entry_record ?ents" using P by (simp add: save_records_def)
  moreover have "list_all (\<lambda>e. length (le_data e) < 2 ^ 32) ?ents"
    using small by (cases "log raft") (auto simp: list_all_iff dest: in_set_dropD)
  ultimately show ?thesis
    using replay_saved [OF assms(1)] by (simp add: replayed_def replay_entries)
qed

text \<open>What a torn header does to the next \<open>Save\<close>.\<close>

lemma torn_header_loses_save:
  assumes calm: "calm os" and dirs: "p \<notin> os_dirs os" "p \<noteq> ParentDir p"
    and torn: "os_files os p = Some (take kHeaderSize (log_bytes 0 [big]))" "length big < kBlockSize - kHeaderSize"
    and raft: "hard_state_dirty raft" "log raft = [sentinel]" "stable_index raft = 0"
      "length (hard_state_record raft) + kHeaderSize < length big"
  shows "\<exists>st os1 st' raft' os2. RaftStorage_Open p os = Some (OK, Some st, os1) \<and>
    Save st raft os1 = (OK, st', raft', os2) \<and>
    (\<forall>os3. crash os2 os3 \<and> calm os3 \<longrightarrow>
      (\<exists>st3 os4. RaftStorage_Open p os3 = Some (OK, Some st3, os4) \<and> recovered_hs st3 = \<lparr>hs_term = 0, hs_vote = 0\<rparr>))"
proof -
  let ?h = "record_header (Value (of_nat kFullType # big)) kFullType (length big)"
  have h: "take kHeaderSize (log_bytes 0 [big]) = ?h"
    using layout_one_block [of 0 big] torn(2) by (simp add: phys_record_def)
  have over: "storage_replays (?h @ q) no_state" if "length q < length big" for q
    unfolding storage_replays_def
  proof (intro allI impI, elim conjE)
    fix f assume "posix_readable f" "posix_remaining f = ?h @ q"
    from ReadRecord_overrun [OF this that torn(2), of ReplayRecord no_state "Some CountingReporter" 0]
    show "\<exists>r'. ForEachRecord posix_sequential ReplayRecord no_state (Reader_new f (Some CountingReporter) 0) = Some (no_state, r')"
      by (auto simp: kFullType_def)
  qed
  have "big \<noteq> []" using raft(4) by auto
  then have "os_files os p = Some ?h \<and> storage_replays ?h no_state" using torn(1) h over [of "[]"] by simp
  from RaftStorage_Open_calm [OF calm dirs disjI1 [OF this]] obtain st os1 where
    st: "RaftStorage_Open p os = Some (OK, Some st, os1)" "calm os1" "rs_path st = p" "pf_path (rs_file st) = p"
      "posix_opened (rs_file st, os1)" "posix_contents (rs_file st, os1) = ?h" "rs_writer st = Writer_resume (of_nat kHeaderSize)"
      "persisted_index st = 0" "os_dirs os1 \<subseteq> insert (ParentDir p) (os_dirs os)"
    by (auto simp: no_state_def)
  have off: "block_offset (rs_writer st) = kHeaderSize" "writer_ok (rs_writer st)"
    unfolding st(7) by simp_all (simp add: Writer_resume_def mlsm_bounds unat_of_nat_u64)
  let ?q = "phys_record kFullType (hard_state_record raft)"
  have recs: "save_records st raft = [hard_state_record raft]"
    using raft(1-3) st(8) by (simp add: save_records_def unsaved_def LastIndex_def)
  have lay: "log_bytes (block_offset (rs_writer st)) (save_records st raft) = ?q"
    unfolding recs off log_bytes.simps append_Nil2 using raft(4) torn(2) by (intro layout_one_block) simp
  have con: "file_contents os1 p = ?h" using st(4,6) by (simp add: posix_contents_def)
  from Save_calm [OF st(5) off(2) st(2), of raft] obtain st' raft' os2 where
    sv: "Save st raft os1 = (OK, st', raft', os2)" "os_dirs os2 = os_dirs os1" "posix_opened (rs_file st, os2)"
      "file_contents os2 p = ?h @ ?q" "stable_contents os2 p = ?h @ ?q"
    by (auto simp: lay st(4) con posix_contents_def posix_durable_def)
  have "\<exists>st3 os4. RaftStorage_Open p os3 = Some (OK, Some st3, os4) \<and> recovered_hs st3 = \<lparr>hs_term = 0, hs_vote = 0\<rparr>"
    if cr: "crash os2 os3" "calm os3" for os3
  proof -
    obtain m where "os_files os3 p = Some (take m (?h @ ?q))" "length (?h @ ?q) \<le> m"
      using file_crash_take [OF crash_file [OF cr(1)], of p "length (?h @ ?q)" "?h @ ?q"] sv st(4)
      by (auto simp: posix_opened_def)
    then have "os_files os3 p = Some (?h @ ?q) \<and> storage_replays (?h @ ?q) no_state"
      using over [of ?q] raft(4) by simp
    moreover have "p \<notin> os_dirs os3" using cr(1) sv(2) st(9) dirs by (auto simp: crash_def)
    ultimately show ?thesis using RaftStorage_Open_calm [OF cr(2) _ dirs(2)] by (fastforce simp: no_state_def)
  qed
  with st(1) sv(1) show ?thesis by blast
qed


subsection \<open>A node to try it on\<close>

text \<open>An open file and a core with one unsaved entry.\<close>

definition demo_path :: string where
  "demo_path = ''d/raft.log''"

definition demo_raft :: Raft where
  "demo_raft = (Raft_new \<lparr>cfg_id = 1, peers = [1], election_timeout = 1, heartbeat_timeout = 1\<rparr>)
     \<lparr>log := [sentinel, \<lparr>le_term = 1, le_index = 1, le_data = [7]\<rparr>]\<rparr>"

definition demo_store :: RaftStorage where
  "demo_store = \<lparr>rs_path = demo_path, rs_file = \<lparr>pf_path = demo_path, pf_fd = 3\<rparr>, rs_writer = Writer_resume 0,
     persisted_index = 0, recovered_hs = fst no_state, recovered_entries = []\<rparr>"

definition demo_os :: "sys_result list \<Rightarrow> os_state" where
  "demo_os sc = fresh_os\<lparr>os_files := [demo_path \<mapsto> []], os_stable := [demo_path \<mapsto> []],
     os_fds := [3 \<mapsto> \<lparr>fd_path = demo_path, fd_offset = 0, fd_append = True\<rparr>], os_script := sc\<rparr>"

lemmas demo_defs = demo_path_def demo_raft_def demo_store_def demo_os_def fresh_os_def Raft_new_def

lemma demo_inv: "store_inv [] demo_store (demo_os sc)"
  using block_offset_resume [of 0]
  by (simp add: store_inv_def store_written_def posix_state_defs file_contents_def stable_contents_def demo_defs)

lemma demo_mirrors: "mirrors [] demo_store demo_raft"
  by (auto simp: mirrors_def stable_within_def log_ok_def LastIndex_def replayed_def no_state_def consecutive_def
      demo_defs sentinel_def less_Suc_eq)

lemma demo_place: "rs_path demo_store \<notin> os_dirs (demo_os sc)" "rs_path demo_store \<noteq> ParentDir (rs_path demo_store)"
  by (simp_all add: demo_defs ParentDir_def find_last_of_def)

lemma write_loop_one:
  assumes "posix_opened (f, os)" "os_script os = Proceed k # sc" "length d \<le> Suc k" "d \<noteq> []"
  shows "\<exists>os'. write_loop f d os = (OK, os') \<and> os_script os' = sc \<and> posix_opened (f, os')"
proof -
  obtain os' where "sys_write (pf_fd f) d os = (Inr (length d), os')" "os_script os' = sc" "posix_opened (f, os')"
    using assms by (auto simp: posix_opened_def sys_write_def next_result_def failure_def transfer_def Let_def min_def)
  then show ?thesis using assms(4) by (simp add: write_loop.simps)
qed

lemma AddRecord_two_writes:
  assumes "posix_opened (f, os)" "os_script os = Proceed a # Proceed b # sc" "kHeaderSize \<le> Suc a" "length d \<le> Suc b"
    and "d \<noteq> []" "block_offset w + kHeaderSize + length d < kBlockSize"
  shows "\<exists>w' os'. AddRecord posix_writable w (f, os) d = (OK, w', (f, os')) \<and> os_script os' = sc \<and> posix_opened (f, os')"
proof -
  let ?h = "record_header (Extend (type_crc w ! kFullType) d) kFullType (length d)"
  have h: "length ?h \<le> Suc a" "?h \<noteq> []" using assms(3) by (simp_all add: record_header_def kHeaderSize_def)
  obtain os1 where 1: "write_loop f ?h os = (OK, os1)" "os_script os1 = Proceed b # sc" "posix_opened (f, os1)"
    using write_loop_one [OF assms(1,2) h] by blast
  obtain os2 where 2: "write_loop f d os1 = (OK, os2)" "os_script os2 = sc" "posix_opened (f, os2)"
    using write_loop_one [OF 1(3,2) assms(4,5)] by blast
  have "pad_block posix_writable w (f, os) = (OK, w, (f, os))" "fragment_length (block_offset w) (length d) = length d"
    using assms(6) by (auto simp: pad_block_def fragment_length_def Let_def)
  then show ?thesis
    using 1(1) 2 by (simp add: AddRecord_def AddRecord_loop.simps EmitPhysicalRecord_def fragment_type_def Let_def
      posix_writable_def PosixAppend_def PosixFlush_def)
qed

text \<open>Both writes of the entry are carried out, and the \<^verbatim>\<open>fsync\<close> fails.\<close>

lemma demo_sync_fails:
  "\<exists>w1 f1 os1 s f2 os2.
     add_records posix_writable (rs_writer demo_store) (rs_file demo_store, demo_os [Proceed 100, Proceed 100, Fails EIO])
       (save_records demo_store demo_raft) = (OK, w1, (f1, os1)) \<and>
     wf_Sync posix_writable (f1, os1) = (s, (f2, os2)) \<and> \<not> ok s \<and> calm os2"
proof -
  let ?os = "demo_os [Proceed 100, Proceed 100, Fails EIO]" and ?e = "\<lparr>le_term = 1, le_index = 1, le_data = [7]\<rparr>"
  have recs: "save_records demo_store demo_raft = [entry_record ?e]"
    by (simp add: save_records_def unsaved_def demo_defs LastIndex_def)
  have op: "posix_opened (rs_file demo_store, ?os)" by (simp add: posix_opened_def demo_defs)
  have sc: "os_script ?os = Proceed 100 # Proceed 100 # [Fails EIO]" by (simp add: demo_defs)
  have len: "length (entry_record ?e) = 22" by (simp add: entry_record_def PutU32_def)
  moreover from this have "entry_record ?e \<noteq> []" by auto
  moreover have "block_offset (rs_writer demo_store) = 0" using block_offset_resume [of 0] by (simp add: demo_store_def)
  ultimately obtain w1 os1 where
    add: "AddRecord posix_writable (rs_writer demo_store) (rs_file demo_store, ?os) (entry_record ?e) =
      (OK, w1, (rs_file demo_store, os1))" "os_script os1 = [Fails EIO]"
    using AddRecord_two_writes [OF op sc, of "entry_record ?e" "rs_writer demo_store"] by (auto simp: mlsm_bounds)
  then have "\<exists>s f2 os2. wf_Sync posix_writable (rs_file demo_store, os1) = (s, (f2, os2)) \<and> \<not> ok s \<and> calm os2"
    by (simp add: posix_writable_def PosixSync_def sys_fsync_def next_result_def failure_def PosixError_def calm_def)
  with add(1) show ?thesis by (simp add: recs)
qed


subsection \<open>Properties\<close>

lemma Save_crash_file:
  assumes inv: "store_inv recs st os" and mir: "mirrors recs st raft" and sv: "Save st raft os = (s, st', raft', os')"
    and cr: "crash os' os3" and dirs: "rs_path st \<notin> os_dirs os"
  shows "\<exists>m. os_files os3 (rs_path st) = Some (take m (log_bytes 0 (recs @ save_records st raft))) \<and>
    length recs \<le> whole_records 0 m (recs @ save_records st raft) \<and>
    (ok s \<longrightarrow> length (log_bytes 0 (recs @ save_records st raft)) \<le> m) \<and> rs_path st \<notin> os_dirs os3"
proof -
  let ?p = "rs_path st" and ?all = "recs @ save_records st raft"
  let ?L = "log_bytes 0 ?all"
  note spec = Save_spec [OF inv mir sv]
  have p: "pf_path (rs_file st) = ?p" using inv by (simp add: store_inv_def store_written_def)
  obtain k where k: "file_contents os' ?p = take k ?L" "length (stable_contents os' ?p) \<le> k"
    using spec(4) p by (auto simp: posix_contents_def posix_durable_def)
  have "os_files os' ?p \<noteq> None" using spec(3) p by (auto simp: posix_opened_def)
  from file_crash_take [OF crash_file [OF cr] k this] obtain m where
    m: "os_files os3 ?p = Some (take m ?L)" "length (stable_contents os' ?p) \<le> m" by metis
  have "length (log_bytes 0 recs) \<le> m" using m(2) spec(5) p by (simp add: posix_durable_def)
  then have "length recs \<le> whole_records 0 m ?all" using whole_records_append by force
  moreover have "length ?L \<le> m" if "ok s"
    using spec(6) [OF that] spec(1) m(2) p by (auto simp: store_inv_def posix_durable_def)
  moreover have "?p \<notin> os_dirs os3" using cr spec(2) dirs by (simp add: crash_def)
  ultimately show ?thesis using m(1) by blast
qed

text \<open>Where the crash has left whole records only, they are an initial part of those written.\<close>

lemma Save_crash_whole:
  assumes "store_inv recs st os" "mirrors recs st raft" "Save st raft os = (s, st', raft', os')" "crash os' os3"
    and "rs_path st \<notin> os_dirs os" "rs_path st \<noteq> ParentDir (rs_path st)"
    and "file_contents os3 (rs_path st) = log_bytes 0 rs"
  shows "\<exists>j. os_files os3 (rs_path st) = Some (log_bytes 0 (recs @ take j (save_records st raft))) \<and> rs_path st \<notin> os_dirs os3"
proof -
  let ?all = "recs @ save_records st raft"
  from Save_crash_file [OF assms(1-5)] obtain m where
    m: "os_files os3 (rs_path st) = Some (take m (log_bytes 0 ?all))" "length recs \<le> whole_records 0 m ?all"
      "rs_path st \<notin> os_dirs os3" by blast
  then have eq: "take m (log_bytes 0 ?all) = log_bytes 0 rs" using assms(7) by (simp add: file_contents_def)
  have "rs = recs @ take (whole_records 0 m ?all - length recs) (save_records st raft)"
    using log_bytes_whole [OF eq] m(2) by simp
  with m eq show ?thesis by auto
qed

lemma Save_crash_open:
  assumes inv: "store_inv recs st os" and mir: "mirrors recs st raft" and sv: "Save st raft os = (s, st', raft', os')"
    and cr: "crash os' os3" "calm os3" and dirs: "rs_path st \<notin> os_dirs os" "rs_path st \<noteq> ParentDir (rs_path st)"
  defines "new \<equiv> save_records st raft"
  shows "\<exists>st3 os4 j. RaftStorage_Open (rs_path st) os3 = Some (OK, Some st3, os4) \<and> length recs \<le> j \<and>
    j \<le> length (recs @ new) \<and> (ok s \<longrightarrow> j = length (recs @ new)) \<and>
    calm os4 \<and> posix_opened (rs_file st3, os4) \<and> writer_ok (rs_writer st3) \<and>
    (recovered_hs st3, recovered_entries st3) = replayed (take j (recs @ new))"
proof -
  let ?p = "rs_path st" and ?L = "log_bytes 0 (recs @ new)"
  from Save_crash_file [OF inv mir sv cr(1) dirs(1), folded new_def] obtain m where
    m: "os_files os3 ?p = Some (take m ?L)" "length recs \<le> whole_records 0 m (recs @ new)"
      "ok s \<Longrightarrow> length ?L \<le> m" "?p \<notin> os_dirs os3" by blast
  from RaftStorage_Open_calm [OF cr(2) m(4) dirs(2) disjI1 [OF conjI [OF m(1) storage_replays_log]]]
  obtain st3 os4 where op: "RaftStorage_Open ?p os3 = Some (OK, Some st3, os4)"
    "calm os4" "posix_opened (rs_file st3, os4)" "rs_writer st3 = Writer_resume (of_nat (length (take m ?L)))"
    "(recovered_hs st3, recovered_entries st3) = replayed (take (whole_records 0 m (recs @ new)) (recs @ new))"
    by blast
  moreover have "whole_records 0 m (recs @ new) = length (recs @ new)" if "ok s"
    by (rule whole_records_all [OF m(3) [OF that]])
  moreover have "writer_ok (rs_writer st3)" unfolding op(4) by simp
  ultimately show ?thesis using m(2) whole_records_le by blast
qed

text \<open>
  \<^bold>\<open>C9\<close> \<open>Save\<close> under failure. Whatever \<open>Save\<close> returns, and whatever the operating system did
  during it, a power failure right behind it leaves a file that opens, and what is recovered is
  everything stored before, followed by the first few of the records of this \<open>Save\<close>, in their
  order (hard state, truncation, entries); all of them, if it had returned OK, which is the term,
  the vote and the log of the core.
\<close>

theorem Save_crash_recovers:
  assumes "store_inv recs st os" "mirrors recs st raft" "Save st raft os = (s, st', raft', os')"
    and "crash os' os3" "calm os3" "rs_path st \<notin> os_dirs os" "rs_path st \<noteq> ParentDir (rs_path st)"
  shows "\<exists>st3 os4 j. RaftStorage_Open (rs_path st) os3 = Some (OK, Some st3, os4) \<and> length recs \<le> j \<and>
    (recovered_hs st3, recovered_entries st3) = replayed (take j (recs @ save_records st raft)) \<and>
    (ok s \<longrightarrow> recovered_hs st3 = \<lparr>hs_term = current_term raft, hs_vote = voted_for raft\<rparr> \<and>
       recovered_entries st3 = tl (log raft))"
  using Save_crash_open [OF assms] replay_saved [OF assms(2)] by fastforce

theorem Save_crash_recovers_witness:
  "\<exists>s st' raft' os' st3 os4 j.
    Save demo_store demo_raft (demo_os [Proceed 100, Proceed 100, Fails EIO]) = (s, st', raft', os') \<and>
    RaftStorage_Open (rs_path demo_store) (spared os') = Some (OK, Some st3, os4) \<and> length ([] :: bytes list) \<le> j \<and>
    (recovered_hs st3, recovered_entries st3) = replayed (take j ([] @ save_records demo_store demo_raft)) \<and>
    (ok s \<longrightarrow> recovered_hs st3 = \<lparr>hs_term = current_term demo_raft, hs_vote = voted_for demo_raft\<rparr> \<and>
       recovered_entries st3 = tl (log demo_raft))"
proof -
  obtain s st' raft' os' where
    sv: "Save demo_store demo_raft (demo_os [Proceed 100, Proceed 100, Fails EIO]) = (s, st', raft', os')"
    by (metis prod_cases4)
  from Save_crash_recovers [OF demo_inv demo_mirrors sv conjunct1 [OF crash_spared] conjunct2 [OF crash_spared] demo_place] sv
  show ?thesis by blast
qed

text \<open>
  \<^bold>\<open>C32\<close> Trying again after a failed \<^verbatim>\<open>fsync\<close>. \<open>Save\<close> has written its records when the
  \<^verbatim>\<open>fsync\<close> fails; it returns the error, and as the watermarks are moved only behind the
  \<^verbatim>\<open>fsync\<close>, the next \<open>Save\<close> writes the entries once more. When that one returns OK, the file
  holds them twice: the log that is recovered has the unsaved entries a second time, behind
  themselves.
\<close>

theorem Save_retry_duplicates_entries:
  assumes "store_inv recs st os" "mirrors recs st raft"
    and "add_records posix_writable (rs_writer st) (rs_file st, os) (save_records st raft) = (OK, w1, (f1, os1))"
    and "wf_Sync posix_writable (f1, os1) = (s, (f2, os2))" "\<not> ok s"
    and "Save st raft os = (s', st', raft', os')" "Save st' raft' os' = (OK, st'', raft'', os'')"
    and "crash os'' os3" "calm os3" "rs_path st \<notin> os_dirs os3" "rs_path st \<noteq> ParentDir (rs_path st)"
  shows "s' = s \<and> (\<exists>st3 os4. RaftStorage_Open (rs_path st) os3 = Some (OK, Some st3, os4) \<and>
    recovered_entries st3 = tl (log raft) @ drop (unat (stable_index raft)) (tl (log raft)))"
proof -
  have wr: "store_written recs st os" using assms(1) by (simp add: store_inv_def)
  from Save_sync_fails [OF wr assms(5,3,4)] assms(6) have first: "s' = s" "raft' = raft\<lparr>hard_state_dirty := False\<rparr>"
    "store_written (recs @ save_records st raft) st' os'" "rs_file st' = rs_file st" "rs_path st' = rs_path st"
    "persisted_index st' = min (stable_index raft) (persisted_index st)" by auto
  have "store_inv ((recs @ save_records st raft) @ save_records st' raft') st'' os''"
    by (rule Save_ok [OF first(3) assms(7)]) simp
  moreover have "rs_path st'' = rs_path st"
    using calculation Save_ok(4) [OF first(3) assms(7)] first(3-5) by (simp add: store_inv_def store_written_def)
  ultimately show ?thesis
    using store_crash_open [of _ st'' os'' os3] assms(8-11) retry_records [OF assms(2) first(6)] first(1,2) by fastforce
qed

theorem Save_retry_duplicates_entries_witness:
  "\<exists>s st' raft' os' st'' raft'' os'' st3 os4.
    Save demo_store demo_raft (demo_os [Proceed 100, Proceed 100, Fails EIO]) = (s, st', raft', os') \<and> \<not> ok s \<and>
    Save st' raft' os' = (OK, st'', raft'', os'') \<and>
    RaftStorage_Open (rs_path demo_store) (spared os'') = Some (OK, Some st3, os4) \<and>
    map le_index (recovered_entries st3) = [1, 1]"
proof -
  let ?os = "demo_os [Proceed 100, Proceed 100, Fails EIO]"
  obtain w1 f1 os1 s f2 os2 where d:
    "add_records posix_writable (rs_writer demo_store) (rs_file demo_store, ?os) (save_records demo_store demo_raft) = (OK, w1, (f1, os1))"
    "wf_Sync posix_writable (f1, os1) = (s, (f2, os2))" "\<not> ok s" "calm os2"
    using demo_sync_fails by blast
  have wr: "store_written [] demo_store ?os" using demo_inv by (simp add: store_inv_def)
  obtain st' raft' where sv: "Save demo_store demo_raft ?os = (s, st', raft', os2)"
    "posix_opened (rs_file st', os2)" "writer_ok (rs_writer st')" "rs_file st' = rs_file demo_store"
    using Save_sync_fails [OF wr d(3,1,2)] by (auto simp: store_written_def)
  from Save_calm [OF sv(2,3) d(4), of raft'] obtain st'' raft'' os'' where
    sv2: "Save st' raft' os2 = (OK, st'', raft'', os'')" "os_dirs os'' = os_dirs os2" by blast
  have "os_dirs os2 = os_dirs ?os" by (rule Save_spec(2) [OF demo_inv demo_mirrors sv(1)])
  then have place: "rs_path demo_store \<notin> os_dirs (spared os'')" using demo_place sv2(2) by (simp add: spared_def)
  from Save_retry_duplicates_entries [OF demo_inv demo_mirrors d(1-3) sv(1) sv2(1)
      conjunct1 [OF crash_spared] conjunct2 [OF crash_spared] place demo_place(2)]
  obtain st3 os4 where "RaftStorage_Open (rs_path demo_store) (spared os'') = Some (OK, Some st3, os4)"
    "recovered_entries st3 = tl (log demo_raft) @ drop (unat (stable_index demo_raft)) (tl (log demo_raft))" by blast
  moreover have "map le_index (tl (log demo_raft) @ drop (unat (stable_index demo_raft)) (tl (log demo_raft))) = [1, 1]"
    by (simp add: demo_defs)
  ultimately have "RaftStorage_Open (rs_path demo_store) (spared os'') = Some (OK, Some st3, os4)"
    "map le_index (recovered_entries st3) = [1, 1]" by simp_all
  then show ?thesis by (intro exI conjI) (rule sv(1), rule d(3), rule sv2(1))
qed

text \<open>
  \<^bold>\<open>C33\<close> A vote forgotten in spite of an OK. The file holds the header of a record whose
  payload a crash cut off. The storage opens; the term and the vote are saved with OK and are
  durable; but they lie behind the torn header, so the next open, after any crash, takes them
  for the missing payload and recovers neither.
\<close>

theorem RaftStorage_forgets_vote_after_torn_header:
  assumes "calm os" "p \<notin> os_dirs os" "p \<noteq> ParentDir p"
    and "os_files os p = Some (take kHeaderSize (log_bytes 0 [big]))" "length big < kBlockSize - kHeaderSize"
    and "hard_state_dirty raft" "log raft = [sentinel]" "stable_index raft = 0"
    and "length (hard_state_record raft) + kHeaderSize < length big"
  shows "\<exists>st os1 st' raft' os2. RaftStorage_Open p os = Some (OK, Some st, os1) \<and>
    Save st raft os1 = (OK, st', raft', os2) \<and>
    (\<forall>os3. crash os2 os3 \<and> calm os3 \<longrightarrow>
      (\<exists>st3 os4. RaftStorage_Open p os3 = Some (OK, Some st3, os4) \<and> recovered_hs st3 = \<lparr>hs_term = 0, hs_vote = 0\<rparr>))"
  by (rule torn_header_loses_save [OF assms])

theorem RaftStorage_forgets_vote_after_torn_header_witness:
  "let os = fresh_os\<lparr>os_files := [demo_path \<mapsto> take kHeaderSize (log_bytes 0 [replicate 100 2])]\<rparr>;
       raft = demo_raft\<lparr>log := [sentinel], current_term := 5, voted_for := 2, hard_state_dirty := True\<rparr>
   in \<exists>st os1 st' raft' os2. RaftStorage_Open demo_path os = Some (OK, Some st, os1) \<and>
    Save st raft os1 = (OK, st', raft', os2) \<and>
    (\<forall>os3. crash os2 os3 \<and> calm os3 \<longrightarrow>
      (\<exists>st3 os4. RaftStorage_Open demo_path os3 = Some (OK, Some st3, os4) \<and> recovered_hs st3 = \<lparr>hs_term = 0, hs_vote = 0\<rparr>))"
  unfolding Let_def
  by (rule RaftStorage_forgets_vote_after_torn_header [where big = "replicate 100 2"])
     (simp_all add: demo_defs calm_def ParentDir_def find_last_of_def hard_state_record_def mlsm_bounds)

text \<open>
  \<^bold>\<open>C37\<close> A read error at the start of the file while a node's storage is opened, every other call
  carried out: \<open>Open\<close> returns OK, and \<open>Recover\<close> gives term 0, no vote and an empty log, whatever
  was saved.
\<close>

theorem RaftStorage_open_hides_read_error:
  assumes "os_files os p = Some c" "e \<noteq> EINTR"
    and "os_script os = [Proceed i, Proceed j, Proceed k, Fails e] @ sc" "calm (os\<lparr>os_script := sc\<rparr>)"
  shows "\<exists>st os'. RaftStorage_Open p os = Some (OK, Some st, os') \<and>
    RaftStorage_Recover st = (OK, \<lparr>hs_term = 0, hs_vote = 0\<rparr>, []) \<and> file_contents os' p = c"
proof -
  obtain os1 where o1: "MakeDir (ParentDir p) os = (OK, os1)" "os_script os1 = [Proceed j, Proceed k, Fails e] @ sc"
    "os_files os1 = os_files os"
    using MakeDir_proceeds [of os i "[Proceed j, Proceed k, Fails e] @ sc" "ParentDir p"] assms(3) by auto
  obtain os2 where o2: "FileExists p os1 = (True, os2)" "os_script os2 = [Proceed k, Fails e] @ sc"
    "os_files os2 = os_files os1"
    using FileExists_proceeds [of os1 j "[Proceed k, Fails e] @ sc" p c] o1 assms(1) by auto
  have "os_files os2 p = Some c" "os_script os2 = Proceed k # Fails e # sc" "calm (os2\<lparr>os_script := sc\<rparr>)"
    using o1 o2 assms(1,4) by (simp_all add: calm_def)
  then obtain fd osr rd where rd: "NewSequentialFile p os2 = (OK, Some fd, osr)"
    "ForEachRecord posix_sequential ReplayRecord no_state (Reader_new (fd, osr) (Some CountingReporter) 0) = Some (no_state, rd)"
    "disk_kept os2 (PosixFile_destroy fd (snd (rd_file rd)))" "calm (PosixFile_destroy fd (snd (rd_file rd)))"
    by (rule replay_read_fails [OF _ assms(2)])
  then obtain os3 where o3: "ReplayFile p os2 = Some (OK, no_state, 0, os3)" "disk_kept os2 os3" "calm os3"
    by (simp add: ReplayFile_def no_state_def)
  have "os_files os3 p = Some c" using o1 o2 o3 assms(1) by (simp add: disk_kept_def)
  from appends_behind [OF o3(3) this] obtain os4 os5 f os6 where
    "FileExists p os3 = (True, os4)" "GetFileSize p os4 = (OK, of_nat (length c), os5)"
    "NewAppendableFile p os5 = (OK, Some f, os6)" "file_contents os6 p = c" by blast
  with o1(1) o2(1) o3(1) show ?thesis by (simp add: RaftStorage_Open_def RaftStorage_Recover_def no_state_def)
qed

theorem RaftStorage_open_hides_read_error_witness:
  "\<exists>os st os'. file_contents os ''d/raft.log'' = log_bytes 0 [PutU64 (PutU64 [kHardState] 3) 2] \<and>
     RaftStorage_Open ''d/raft.log'' os = Some (OK, Some st, os') \<and>
     RaftStorage_Recover st = (OK, \<lparr>hs_term = 0, hs_vote = 0\<rparr>, [])"
proof -
  let ?c = "log_bytes 0 [PutU64 (PutU64 [kHardState] 3) 2]"
  let ?os = "fresh_os\<lparr>os_files := [''d/raft.log'' \<mapsto> ?c], os_script := [Proceed 0, Proceed 0, Proceed 0, Fails EIO]\<rparr>"
  have "\<exists>st os'. RaftStorage_Open ''d/raft.log'' ?os = Some (OK, Some st, os') \<and>
      RaftStorage_Recover st = (OK, \<lparr>hs_term = 0, hs_vote = 0\<rparr>, []) \<and> file_contents os' ''d/raft.log'' = ?c"
    by (rule RaftStorage_open_hides_read_error [of ?os _ _ EIO 0 0 0 "[]"]) (simp_all add: calm_def)
  moreover have "file_contents ?os ''d/raft.log'' = ?c" by (simp add: file_contents_def)
  ultimately show ?thesis by blast
qed

end
