(* ===== verification/Raft_Entries.thy ===== *)
theory Raft_Entries
  imports Raft_Node
begin

section \<open>Where the entries of a log come from\<close>

text \<open>
  The core never makes an entry up: the log after a call, and the entries in the messages the
  call sends, are those of the log before, of the message received, or of the proposal. Stated
  for any predicate on entries that all of these satisfy.
\<close>

definition entries_from :: "(LogEntry \<Rightarrow> bool) \<Rightarrow> Raft \<Rightarrow> bool" where
  "entries_from P r \<longleftrightarrow> list_all P (log r) \<and> (\<forall>m\<in>set (out_msgs r). list_all P (entries m))"

lemma Send_from: "entries_from P r \<Longrightarrow> list_all P (entries m) \<Longrightarrow> entries_from P (Send r m)"
  by (auto simp: entries_from_def Send_def)

lemma entries_from_cong:
  "entries_from P r \<Longrightarrow> log r' = log r \<Longrightarrow> out_msgs r' = out_msgs r \<Longrightarrow> entries_from P r'"
  by (simp add: entries_from_def)

lemma SendAppendEntries_from:
  assumes "entries_from P r" "log_ok (log r)"
  shows "entries_from P (SendAppendEntries r peer)"
proof -
  have "Suc (unat (LastIndex r)) = length (log r)"
    using unat_LastIndex [OF assms(2)] log_ok_length [OF assms(2)] by simp
  then have "list_all P (entries (AppendEntries_for r peer))"
    using assms(1) by (auto simp: AppendEntries_for_def Let_def entries_from_def list_all_iff)
  with assms(1) show ?thesis unfolding SendAppendEntries_def by (rule Send_from)
qed

lemma Broadcast_from:
  assumes "entries_from P r" "log_ok (log r)"
  shows "entries_from P (BroadcastAppendEntries r)"
proof -
  have sent: "log (SendAppendEntries r p) = log r" for r p by (simp add: SendAppendEntries_def Send_def)
  have "entries_from P (foldl SendAppendEntries r ps) \<and> log (foldl SendAppendEntries r ps) = log r" for ps
    by (induction ps rule: rev_induct) (simp_all add: assms SendAppendEntries_from sent)
  then show ?thesis by (simp add: BroadcastAppendEntries_def)
qed

lemma foldl_out_frame:
  "(\<And>r x. log (f r x) = log r \<and> out_msgs (f r x) = out_msgs r) \<Longrightarrow>
   log (foldl f r xs) = log r \<and> out_msgs (foldl f r xs) = out_msgs r"
  by (induction xs arbitrary: r) auto

lemma BecomeLeader_from:
  assumes "entries_from P r" "log_ok (log r)"
  shows "entries_from P (BecomeLeader r)"
proof -
  let ?f = "\<lambda>r peer. r\<lparr>next_index := (next_index r)(peer := LastIndex r + 1), match_index := (match_index r)(peer := 0)\<rparr>"
  let ?r = "r\<lparr>role := kLeader, leader := raft_id r, heartbeat_elapsed := 0, next_index := (\<lambda>_. 0), match_index := (\<lambda>_. 0)\<rparr>"
  have "log (foldl ?f ?r (other_peers ?r)) = log r \<and> out_msgs (foldl ?f ?r (other_peers ?r)) = out_msgs r"
    using foldl_out_frame [of ?f ?r] by simp
  with assms Broadcast_from [OF entries_from_cong [OF assms(1)]] show ?thesis
    by (simp add: BecomeLeader_def Let_def)
qed

lemma BecomeCandidate_from:
  assumes "entries_from P r" "log_ok (log r)"
  shows "entries_from P (BecomeCandidate r)"
proof -
  let ?r = "r\<lparr>current_term := current_term r + 1, voted_for := raft_id r, hard_state_dirty := True,
    role := kCandidate, leader := 0, election_elapsed := 0, votes_granted := [raft_id r]\<rparr>"
  have r: "entries_from P ?r" using assms(1) by (rule entries_from_cong) simp_all
  then have "entries_from P (foldl (\<lambda>r peer. Send r (RequestVote_for r peer)) ?r ps)" for ps
    by (induction ps rule: rev_induct) (simp_all add: Send_from RequestVote_for_def new_Message_def)
  with BecomeLeader_from [OF r] assms(2) show ?thesis by (simp add: BecomeCandidate_def Let_def)
qed

lemma append_entries_from:
  "list_all P (log r) \<Longrightarrow> list_all P es \<Longrightarrow> list_all P (log (foldl append_entry r es))"
proof (induction es arbitrary: r)
  case (Cons e es)
  have "list_all P (log (append_entry r e))"
    using Cons.prems by (auto simp: append_entry_def list_all_iff dest: in_set_takeD)
  with Cons show ?case by simp
qed simp

lemma HandleAppendEntries_from:
  assumes "entries_from P r" "list_all P (entries m)"
  shows "entries_from P (HandleAppendEntries r m)"
proof -
  let ?r = "r\<lparr>leader := msg_from m, election_elapsed := 0\<rparr>"
  obtain l st where f: "foldl append_entry ?r (entries m) = ?r\<lparr>log := l, stable_index := st\<rparr>"
    using append_entries_frame by blast
  moreover have "list_all P l"
    using append_entries_from [of P ?r "entries m"] assms f by (simp add: entries_from_def)
  ultimately show ?thesis
    using assms(1) by (auto simp: HandleAppendEntries_def Let_def entries_from_def Send_def new_Message_def)
qed

lemma HandleRequestVote_from: "entries_from P r \<Longrightarrow> entries_from P (HandleRequestVote r m)"
  by (auto simp: HandleRequestVote_def Let_def entries_from_def Send_def new_Message_def)

lemma MaybeCommit_from: "entries_from P r \<Longrightarrow> entries_from P (MaybeCommit r)"
  using MaybeCommit_loop_result [of r "LastIndex r"] by (auto simp: MaybeCommit_def entries_from_def)

lemma HandleAppendEntriesResp_from: "entries_from P r \<Longrightarrow> entries_from P (HandleAppendEntriesResp r m)"
  by (auto simp: HandleAppendEntriesResp_def Let_def intro!: MaybeCommit_from elim!: entries_from_cong)

lemma StepRole_from:
  assumes "entries_from P r" "log_ok (log r)" "list_all P (entries m)"
  shows "entries_from P (StepRole r m)"
proof -
  let ?v = "if msg_from m \<in> set (votes_granted r) then r else r\<lparr>votes_granted := votes_granted r @ [msg_from m]\<rparr>"
  have "entries_from P ?v" "log_ok (log ?v)" using assms by (auto elim!: entries_from_cong)
  moreover have "entries_from P (BecomeFollower r (msg_term m) (msg_from m))"
    using assms(1) by (rule entries_from_cong) (simp_all add: BecomeFollower_def Let_def)
  moreover have "entries_from P (StepCandidate r m)" if "msg_type m = kRequestVoteResp"
    using that calculation(1,2) assms(1) BecomeLeader_from [OF calculation(1,2)] by (simp add: StepCandidate_def Let_def)
  ultimately show ?thesis
    using assms HandleRequestVote_from [OF assms(1)] HandleAppendEntriesResp_from [OF assms(1)]
    by (cases "msg_type m") (simp_all add: StepRole_def StepFollower_def StepCandidate_def StepLeader_def Let_def
        HandleAppendEntries_from split: Role.splits)
qed

lemma Step_from:
  assumes "entries_from P r" "log_ok (log r)" "list_all P (entries m)"
  shows "entries_from P (Step r m)"
proof -
  let ?f = "BecomeFollower r (msg_term m) (if msg_type m = kAppendEntries then msg_from m else 0)"
  have "entries_from P ?f" "log_ok (log ?f)"
    using assms by (auto simp: BecomeFollower_def Let_def entries_from_def)
  then have "entries_from P (StepRole ?f m)" using assms(3) by (rule StepRole_from)
  then show ?thesis
    using assms StepRole_from [OF assms] by (simp add: Step_def Let_def Send_from new_Message_def)
qed

lemma Tick_from:
  assumes "entries_from P r" "log_ok (log r)"
  shows "entries_from P (Tick r)"
  using assms by (auto simp: Tick_def Let_def entries_from_def [of P "_\<lparr>heartbeat_elapsed := _\<rparr>"]
      entries_from_def [of P "_\<lparr>election_elapsed := _\<rparr>"] entries_from_def [of P r]
      intro!: Broadcast_from BecomeCandidate_from)

lemma TakeCommitted_from: "entries_from P r \<Longrightarrow> entries_from P (snd (TakeCommitted r))"
  by (simp add: TakeCommitted_def entries_from_def)

lemma Propose_from:
  assumes "entries_from P r" "P \<lparr>le_term = current_term r, le_index = LastIndex r + 1, le_data = d\<rparr>"
  shows "entries_from P (snd (Propose r d))"
  using assms by (auto simp: Propose_def entries_from_def intro!: MaybeCommit_from [unfolded entries_from_def])

end
