(* ===== verification/Raft_Durable.thy ===== *)
theory Raft_Durable
  imports Raft_Storage Raft_Entries
begin

section \<open>Clusters of nodes with storage\<close>

text \<open>
  The Raft core, its storage and the operating system together: a node is driven the way
  storage.h asks for, every call into the core is followed by \<open>Save\<close>, and the messages go out
  only after it has returned OK. Power may fail between such turns and within a \<open>Save\<close>; the node is
  then opened again on what the disk has kept, where that consists of whole records. (A crash that
  leaves a torn record is the matter of the theory of storage: the code does not append safely
  behind one.) These clusters refine those of the theory of clusters, where a node
  that restarts has its state back by definition.
\<close>

record dnode =
  dn_raft :: Raft
  dn_store :: RaftStorage
  dn_os :: os_state

record dcluster =
  dn :: "NodeId \<Rightarrow> dnode"
  wire :: "Message set"

text \<open>
  Bringing a node up, as the first lines of \<^verbatim>\<open>ReplicatedDB::Open\<close> do it: open the storage,
  recover the hard state and the log, and hand both to the core. \<open>None\<close> stands for a node that does not
  come up, for whatever reason.
\<close>

definition start_node :: "Config \<Rightarrow> string \<Rightarrow> os_state \<Rightarrow> dnode option" where
  "start_node cfg path os =
     (case RaftStorage_Open path os of
        Some (s, Some st, os) \<Rightarrow>
          (case RaftStorage_Recover st of (s, hs, es) \<Rightarrow>
             Some \<lparr>dn_raft = Restore (Raft_new cfg) (hs_term hs) (hs_vote hs) es, dn_store = st, dn_os = os\<rparr>)
      | _ \<Rightarrow> None)"

text \<open>What a node can be given to do: time, a message of the network, a command of the client.\<close>

inductive handles :: "bytes set \<Rightarrow> Message set \<Rightarrow> NodeId \<Rightarrow> Raft \<Rightarrow> Raft \<Rightarrow> bool" for D net n where
  tick: "Suc (unat (current_term r)) < 2 ^ 64 \<Longrightarrow> handles D net n r (Tick r)"
| deliver: "m \<in> net \<Longrightarrow> msg_to m = n \<Longrightarrow> handles D net n r (Step r m)"
| propose: "d \<in> D \<Longrightarrow> Suc (length (log r)) < 2 ^ 64 \<Longrightarrow> handles D net n r (snd (Propose r d))"
| take_committed: "handles D net n r (snd (TakeCommitted r))"

text \<open>Opened again, the file of an interrupted node may end in a torn record. \<open>whole_file\<close> says it does not.\<close>

definition whole_file :: "string \<Rightarrow> os_state \<Rightarrow> bool" where
  "whole_file p os \<longleftrightarrow> (\<exists>recs. file_contents os p = log_bytes 0 recs)"

inductive durable_step ::
  "(NodeId \<Rightarrow> Config) \<Rightarrow> NodeId set \<Rightarrow> (NodeId \<Rightarrow> string) \<Rightarrow> bytes set \<Rightarrow> dcluster \<Rightarrow> dcluster \<Rightarrow> bool"
  for cfg M path D where
  work: "n \<in> M \<Longrightarrow> handles D (wire S) n (dn_raft (dn S n)) r \<Longrightarrow>
    Save (dn_store (dn S n)) r ((dn_os (dn S n))\<lparr>os_script := sc\<rparr>) = (OK, st', r', os') \<Longrightarrow>
    TakeMessages r' = (msgs, r'') \<Longrightarrow>
    durable_step cfg M path D S
      (S\<lparr>dn := (dn S)(n := \<lparr>dn_raft = r'', dn_store = st', dn_os = os'\<rparr>), wire := wire S \<union> set msgs\<rparr>)"
| interrupted: "n \<in> M \<Longrightarrow> handles D (wire S) n (dn_raft (dn S n)) r \<Longrightarrow>
    Save (dn_store (dn S n)) r ((dn_os (dn S n))\<lparr>os_script := sc\<rparr>) = (s, st', r', os') \<Longrightarrow>
    crash os' os \<Longrightarrow> calm os \<Longrightarrow> whole_file (path n) os \<Longrightarrow>
    start_node (cfg n) (path n) os = Some d \<Longrightarrow>
    durable_step cfg M path D S (S\<lparr>dn := (dn S)(n := d)\<rparr>)"
| power_failure: "n \<in> M \<Longrightarrow> crash (dn_os (dn S n)) os \<Longrightarrow> calm os \<Longrightarrow>
    start_node (cfg n) (path n) os = Some d \<Longrightarrow>
    durable_step cfg M path D S (S\<lparr>dn := (dn S)(n := d)\<rparr>)"

text \<open>At first every node is brought up on a disk without its file.\<close>

definition blank_disk :: "string \<Rightarrow> os_state \<Rightarrow> bool" where
  "blank_disk p os \<longleftrightarrow> calm os \<and> os_files os p = None \<and> os_stable os p = None \<and> p \<notin> os_dirs os \<and> p \<noteq> ParentDir p"

inductive durable_reachable ::
  "(NodeId \<Rightarrow> Config) \<Rightarrow> NodeId set \<Rightarrow> (NodeId \<Rightarrow> string) \<Rightarrow> bytes set \<Rightarrow> dcluster \<Rightarrow> bool"
  for cfg M path D where
  start: "(\<And>n. n \<in> M \<Longrightarrow> blank_disk (path n) (os n) \<and> start_node (cfg n) (path n) (os n) = Some (f n)) \<Longrightarrow>
    durable_reachable cfg M path D \<lparr>dn = f, wire = {}\<rparr>"
| step: "durable_reachable cfg M path D S \<Longrightarrow> durable_step cfg M path D S S' \<Longrightarrow>
    durable_reachable cfg M path D S'"

text \<open>The cluster of the cores alone.\<close>

definition cores :: "(NodeId \<Rightarrow> Config) \<Rightarrow> NodeId set \<Rightarrow> dcluster \<Rightarrow> cluster" where
  "cores cfg M S = \<lparr>node = (\<lambda>n. if n \<in> M then dn_raft (dn S n) else Raft_new (cfg n)), net = wire S\<rparr>"


subsection \<open>The file always holds the core's state of the last Save\<close>

lemma mirrors_kept:
  assumes "mirrors recs st r" "stable_kept r r'" "hard_state_noted r r'"
    and "list_all (\<lambda>e. length (le_data e) < 2 ^ 32) (log r')"
  shows "mirrors recs st r'"
proof -
  let ?S = "unat (stable_index r)" and ?S' = "unat (stable_index r')" and ?es = "snd (replayed recs)"
  have S: "?S' \<le> ?S" using assms(2) by (simp add: stable_kept_def word_le_nat_alt)
  have "take ?S' ?es = take ?S' (take ?S ?es)" using S by (simp add: min_absorb1)
  also have "\<dots> = take ?S' (take ?S (tl (log r)))" using assms(1) by (simp add: mirrors_def)
  also have "\<dots> = tl (take (Suc ?S') (log r))" using S by (simp add: min_absorb1 tl_take)
  also have "\<dots> = take ?S' (tl (log r'))" using assms(2) tl_take [of "Suc ?S'" "log r'"] by (simp add: stable_kept_def)
  finally have "take ?S' ?es = take ?S' (tl (log r'))" .
  then show ?thesis
    using assms by (auto simp: mirrors_def stable_kept_def hard_state_noted_def intro: order_trans)
qed

text \<open>Everything the core has is stored.\<close>

definition stored :: "bytes list \<Rightarrow> RaftStorage \<Rightarrow> Raft \<Rightarrow> bool" where
  "stored recs st r \<longleftrightarrow>
     mirrors recs st r \<and> persisted_index st = LastIndex r \<and> stable_index r = LastIndex r \<and>
     \<not> hard_state_dirty r \<and> replayed recs = (\<lparr>hs_term = current_term r, hs_vote = voted_for r\<rparr>, tl (log r))"

text \<open>The storage of a running node: the file at its path, whole and durable.\<close>

definition node_ok :: "string \<Rightarrow> dnode \<Rightarrow> bool" where
  "node_ok p d \<longleftrightarrow> (\<exists>recs. store_inv recs (dn_store d) (dn_os d) \<and> stored recs (dn_store d) (dn_raft d) \<and>
     rs_path (dn_store d) = p \<and> p \<notin> os_dirs (dn_os d) \<and> p \<noteq> ParentDir p)"

lemma log_ok_last: "log_ok l \<Longrightarrow> tl l \<noteq> [] \<Longrightarrow> le_index (last (tl l)) = of_nat (length l) - 1"
proof -
  assume ok: "log_ok l" and ne: "tl l \<noteq> []"
  have len: "0 < length l" using log_ok_length(1) [OF ok] .
  have "last (tl l) = last l" using ne by (simp add: last_tl)
  also have "\<dots> = l ! (length l - 1)" using len by (simp add: last_conv_nth)
  finally have "last (tl l) = l ! (length l - 1)" .
  then have "le_index (last (tl l)) = of_nat (length l - 1)" using ok len by (simp add: log_ok_def)
  also have "\<dots> = of_nat (length l) - 1" using len by (cases l) simp_all
  finally show ?thesis .
qed

lemma stored_mirrors:
  assumes "log_ok (log r)" "list_all (\<lambda>e. length (le_data e) < 2 ^ 32) (log r)"
    and "replayed recs = (\<lparr>hs_term = current_term r, hs_vote = voted_for r\<rparr>, tl (log r))"
    and "persisted_index st = LastIndex r" "stable_index r = LastIndex r" "\<not> hard_state_dirty r"
  shows "stored recs st r"
proof -
  have "unat (LastIndex r) = length (tl (log r))" using unat_LastIndex [OF assms(1)] by simp
  moreover have "Suc (unat (LastIndex r)) < 2 ^ 64"
    using unat_LastIndex [OF assms(1)] log_ok_length [OF assms(1)] by simp
  ultimately show ?thesis
    using assms log_ok_consecutive [OF assms(1)] by (simp add: stored_def mirrors_def stable_within_def)
qed

text \<open>A restart on a disk that holds the file.\<close>

lemma start_node_recovers:
  assumes os: "calm os" "p \<notin> os_dirs os" "p \<noteq> ParentDir p"
    and fl: "os_files os p = Some (log_bytes 0 recs) \<or> os_files os p = None \<and> recs = []"
    and st: "stable_contents os p = log_bytes 0 recs"
    and r: "log_ok (log r)" "list_all (\<lambda>e. length (le_data e) < 2 ^ 32) (log r)"
      "replayed recs = (\<lparr>hs_term = current_term r, hs_vote = voted_for r\<rparr>, tl (log r))"
  shows "\<exists>d. start_node cfg p os = Some d \<and> dn_raft d = reboot cfg r \<and> node_ok p d \<and> calm (dn_os d)"
proof -
  from RaftStorage_Open_clean [OF os fl st] r(3) obtain st' os' where
    op: "RaftStorage_Open p os = Some (OK, Some st', os')" "rs_path st' = p" "store_inv recs st' os'"
      "(recovered_hs st', recovered_entries st') = (\<lparr>hs_term = current_term r, hs_vote = voted_for r\<rparr>, tl (log r))"
      "persisted_index st' = (if tl (log r) = [] then 0 else le_index (last (tl (log r))))"
      "os_dirs os' \<subseteq> insert (ParentDir p) (os_dirs os)" "calm os'"
    by auto
  let ?r = "reboot cfg r"
  have d: "start_node cfg p os = Some \<lparr>dn_raft = ?r, dn_store = st', dn_os = os'\<rparr>"
    using op(1,4) by (simp add: start_node_def RaftStorage_Recover_def reboot_def)
  have "[sentinel] @ tl (log r) = log r" using r(1) by (cases "log r") (auto simp: log_ok_def)
  then have rb: "log ?r = log r" "current_term ?r = current_term r" "voted_for ?r = voted_for r"
    "stable_index ?r = LastIndex ?r" "\<not> hard_state_dirty ?r"
    by (simp_all add: reboot_def Restore_def Raft_new_def Let_def LastIndex_def)
  have "LastIndex r = 0" if "tl (log r) = []"
    using that log_ok_length(1) [OF r(1)] by (cases "log r") (simp_all add: LastIndex_def)
  then have "persisted_index st' = LastIndex ?r"
    using op(5) log_ok_last [OF r(1)] rb(1) by (simp add: LastIndex_def)
  then have "stored recs st' ?r" using r rb by (intro stored_mirrors) simp_all
  with op(2,3,6) os have "node_ok p \<lparr>dn_raft = ?r, dn_store = st', dn_os = os'\<rparr>"
    unfolding node_ok_def by (intro exI [of _ recs]) auto
  with d op(7) show ?thesis by simp
qed

lemma node_ok_crash:
  assumes "node_ok p d" "crash (dn_os d) os" "calm os"
  shows "\<exists>d'. start_node cfg p os = Some d' \<and> dn_raft d' = reboot cfg (dn_raft d) \<and> node_ok p d' \<and> calm (dn_os d')"
proof -
  let ?r = "dn_raft d"
  from assms(1) obtain recs where ok: "store_inv recs (dn_store d) (dn_os d)" "stored recs (dn_store d) ?r"
    "rs_path (dn_store d) = p" "p \<notin> os_dirs (dn_os d)" "p \<noteq> ParentDir p"
    unfolding node_ok_def by blast
  have "os_files (dn_os d) p \<noteq> None" "file_contents (dn_os d) p = log_bytes 0 recs" "stable_contents (dn_os d) p = log_bytes 0 recs"
    using ok(1,3) by (auto simp: store_inv_def store_written_def posix_opened_def posix_contents_def posix_durable_def)
  with file_crash_take [OF crash_file [OF assms(2)], of p "length (log_bytes 0 recs)" "log_bytes 0 recs"]
  have fl: "os_files os p = Some (log_bytes 0 recs)" by auto
  then have "stable_contents os p = log_bytes 0 recs" "p \<notin> os_dirs os"
    using assms(2) ok(4) by (simp_all add: crash_def stable_contents_def)
  with start_node_recovers [OF assms(3) _ ok(5) disjI1 [OF fl], of ?r cfg] ok(2)
  show ?thesis by (simp add: stored_def mirrors_def stable_within_def)
qed

lemma store_inv_script [simp]: "store_inv recs st (os\<lparr>os_script := sc\<rparr>) = store_inv recs st os"
  by (simp add: store_inv_def store_written_def posix_state_defs file_contents_def stable_contents_def)

lemma node_ok_work:
  assumes "node_ok p d" "stable_kept (dn_raft d) r" "hard_state_noted (dn_raft d) r"
    and "list_all (\<lambda>e. length (le_data e) < 2 ^ 32) (log r)"
    and "Save (dn_store d) r ((dn_os d)\<lparr>os_script := sc\<rparr>) = (OK, st', r', os')"
  shows "r' = r\<lparr>hard_state_dirty := False, stable_index := LastIndex r\<rparr>"
    and "node_ok p \<lparr>dn_raft = r'\<lparr>out_msgs := ms\<rparr>, dn_store = st', dn_os = os'\<rparr>"
proof -
  from assms(1) obtain recs where ok: "store_inv recs (dn_store d) (dn_os d)" "stored recs (dn_store d) (dn_raft d)"
    "rs_path (dn_store d) = p" "p \<notin> os_dirs (dn_os d)" "p \<noteq> ParentDir p"
    unfolding node_ok_def by blast
  have mir: "mirrors recs (dn_store d) r"
    using ok(2) by (intro mirrors_kept [OF _ assms(2-4)]) (simp add: stored_def)
  have iv: "store_inv recs (dn_store d) ((dn_os d)\<lparr>os_script := sc\<rparr>)" using ok(1) by simp
  note sv = Save_spec [OF iv mir assms(5)]
  have "store_written recs (dn_store d) ((dn_os d)\<lparr>os_script := sc\<rparr>)" using iv by (simp add: store_inv_def)
  then have pi: "persisted_index st' = LastIndex r" by (rule Save_ok(3) [OF _ assms(5)]) simp
  let ?new = "recs @ save_records (dn_store d) r"
  show r': "r' = r\<lparr>hard_state_dirty := False, stable_index := LastIndex r\<rparr>" by (rule sv(7)) simp
  have inv: "store_inv ?new st' os'" by (rule sv(6)) simp
  have "rs_path st' = p" using inv sv(1) ok(1,3) by (simp add: store_inv_def store_written_def)
  moreover have "stored ?new st' (r'\<lparr>out_msgs := ms\<rparr>)"
    using sv(8) replay_saved [OF mir] pi by (simp add: stored_def r' mirrors_def stable_within_def LastIndex_def)
  ultimately show "node_ok p \<lparr>dn_raft = r'\<lparr>out_msgs := ms\<rparr>, dn_store = st', dn_os = os'\<rparr>"
    using inv sv(2) ok(4,5) unfolding node_ok_def by (intro exI [of _ ?new]) simp
qed

text \<open>
  A power failure within or right behind a \<open>Save\<close>, whatever it returned, that leaves whole records:
  the node comes back with its old state, or with the new term and vote and a log between the old
  and the new one.
\<close>

lemma node_ok_interrupted:
  assumes "node_ok p d" "stable_kept (dn_raft d) r" "hard_state_noted (dn_raft d) r"
    and small: "list_all (\<lambda>e. length (le_data e) < 2 ^ 32) (log r)"
    and sv: "Save (dn_store d) r ((dn_os d)\<lparr>os_script := sc\<rparr>) = (s, st', r', os')"
    and cr: "crash os' os" "calm os" "whole_file p os"
  shows "\<exists>d' l. start_node cfg p os = Some d' \<and> node_ok p d' \<and> calm (dn_os d') \<and>
    (dn_raft d' = reboot cfg (dn_raft d) \<or>
     halfway (dn_raft d) r l \<and> dn_raft d' = Restore (Raft_new cfg) (current_term r) (voted_for r) (tl l)) \<and>
    (log (dn_raft d') = log (dn_raft d) \<or> (\<exists>k. log (dn_raft d') = take k (log r)))"
proof -
  let ?r = "dn_raft d" and ?st = "dn_store d"
  from assms(1) obtain recs where ok: "store_inv recs ?st (dn_os d)" "stored recs ?st ?r"
    "rs_path ?st = p" "p \<notin> os_dirs (dn_os d)" "p \<noteq> ParentDir p"
    unfolding node_ok_def by blast
  have mir: "mirrors recs ?st r"
    using ok(2) by (intro mirrors_kept [OF _ assms(2-4)]) (simp add: stored_def)
  have inv: "store_inv recs ?st ((dn_os d)\<lparr>os_script := sc\<rparr>)" using ok(1) by simp
  have dirs: "rs_path ?st \<notin> os_dirs ((dn_os d)\<lparr>os_script := sc\<rparr>)" "rs_path ?st \<noteq> ParentDir (rs_path ?st)"
    using ok(3-5) by simp_all
  from Save_crash_whole [OF inv mir sv cr(1) dirs] cr(3) ok(3) obtain j where
    j: "os_files os p = Some (log_bytes 0 (recs @ take j (save_records ?st r)))" "p \<notin> os_dirs os"
    unfolding whole_file_def by auto
  let ?recs = "recs @ take j (save_records ?st r)"
  have stable: "stable_contents os p = log_bytes 0 ?recs" using cr(1) j(1) by (simp add: crash_def stable_contents_def)
  have old: "replayed recs = (\<lparr>hs_term = current_term ?r, hs_vote = voted_for ?r\<rparr>, tl (log ?r))" "log_ok (log ?r)"
    "list_all (\<lambda>e. length (le_data e) < 2 ^ 32) (log ?r)" "log_ok (log r)"
    using ok(2) mir by (auto simp: stored_def mirrors_def stable_within_def)
  note start = start_node_recovers [OF cr(2) j(2) ok(5) disjI1 [OF j(1)] stable]
  have restart: ?thesis if l: "log_ok l" "halfway ?r r l" "l = log ?r \<or> (\<exists>k. l = take k (log r))"
    "list_all (\<lambda>e. length (le_data e) < 2 ^ 32) l"
    "replayed ?recs = (\<lparr>hs_term = current_term r, hs_vote = voted_for r\<rparr>, tl l)" for l
  proof -
    from start [of "r\<lparr>log := l\<rparr>" cfg] l(1,4,5) obtain d' where
      d': "start_node cfg p os = Some d'" "dn_raft d' = reboot cfg (r\<lparr>log := l\<rparr>)" "node_ok p d'" "calm (dn_os d')" by auto
    have "[sentinel] @ tl l = l" using l(1) by (cases l) (auto simp: log_ok_def)
    then have "log (dn_raft d') = l" by (simp add: d'(2) reboot_def Restore_def Raft_new_def Let_def)
    with d' l(2,3) show ?thesis by (auto simp: reboot_def)
  qed
  from replay_saved_part [OF mir, of j] show ?thesis
  proof (elim disjE conjE exE)
    assume "replayed ?recs = replayed recs"
    with start [of ?r cfg] old obtain d' where
      d': "start_node cfg p os = Some d'" "dn_raft d' = reboot cfg ?r" "node_ok p d'" "calm (dn_os d')" by auto
    have "[sentinel] @ tl (log ?r) = log ?r" using old(2) by (cases "log ?r") (auto simp: log_ok_def)
    then have "log (dn_raft d') = log ?r" by (simp add: d'(2) reboot_def Restore_def Raft_new_def Let_def)
    with d' show ?thesis by blast
  next
    assume "fst (replayed ?recs) = \<lparr>hs_term = current_term r, hs_vote = voted_for r\<rparr>" "snd (replayed ?recs) = snd (replayed recs)"
    with old show ?thesis by (intro restart [of "log ?r"]) (simp_all add: halfway_def prod_eq_iff)
  next
    fix i
    assume i: "fst (replayed ?recs) = \<lparr>hs_term = current_term r, hs_vote = voted_for r\<rparr>"
      "unat (stable_index r) \<le> i" "snd (replayed ?recs) = take i (tl (log r))"
    have "halfway ?r r (take (Suc i) (log r))" using i(2) unfolding halfway_def by (intro disjI2 exI [of _ "Suc i"]) simp
    moreover have "log_ok (take (Suc i) (log r))" by (rule log_ok_take [OF old(4)]) simp
    moreover have "list_all (\<lambda>e. length (le_data e) < 2 ^ 32) (take (Suc i) (log r))"
      using small by (auto simp: list_all_iff dest: in_set_takeD)
    ultimately show ?thesis using i by (intro restart [of "take (Suc i) (log r)"]) (auto simp: tl_take prod_eq_iff)
  qed
qed


subsection \<open>Refinement\<close>

text \<open>Entries that carry a command of the client, or the sentinel.\<close>

definition from_client :: "bytes set \<Rightarrow> LogEntry \<Rightarrow> bool" where
  "from_client D e \<longleftrightarrow> e = sentinel \<or> le_data e \<in> D"

definition durable_inv :: "(NodeId \<Rightarrow> Config) \<Rightarrow> NodeId set \<Rightarrow> (NodeId \<Rightarrow> string) \<Rightarrow> bytes set \<Rightarrow> dcluster \<Rightarrow> bool" where
  "durable_inv cfg M path D S \<longleftrightarrow>
     cluster_reachable cfg M (cores cfg M S) \<and>
     (\<forall>n\<in>M. node_ok (path n) (dn S n) \<and> list_all (from_client D) (log (dn_raft (dn S n)))) \<and>
     (\<forall>m\<in>wire S. list_all (from_client D) (entries m))"

lemma from_client_small:
  "\<forall>d\<in>D. length d < 2 ^ 32 \<Longrightarrow> list_all (from_client D) es \<Longrightarrow> list_all (\<lambda>e. length (le_data e) < 2 ^ 32) es"
  by (auto simp: list_all_iff from_client_def sentinel_def)

lemma blank_disk_starts:
  assumes "blank_disk p os"
  shows "\<exists>d. start_node cfg p os = Some d \<and> node_ok p d \<and> dn_raft d = Raft_new cfg \<and> calm (dn_os d)"
proof -
  have "replayed [] = (\<lparr>hs_term = 0, hs_vote = 0\<rparr>, [])" by (simp add: replayed_def no_state_def)
  then have "\<exists>d. start_node cfg p os = Some d \<and> dn_raft d = reboot cfg (Raft_new cfg) \<and> node_ok p d \<and> calm (dn_os d)"
    using assms by (intro start_node_recovers [where recs = "[]"])
      (simp_all add: blank_disk_def Raft_new_def stable_contents_def log_ok_def sentinel_def)
  moreover have "reboot cfg (Raft_new cfg) = Raft_new cfg"
    by (simp add: reboot_def Restore_def Raft_new_def Let_def LastIndex_def)
  ultimately show ?thesis by auto
qed

text \<open>A call into the core is a step of the cluster, and keeps what the storage relies on.\<close>

lemma handles_turn: "handles D N n r r' \<Longrightarrow> turn N n r r'"
  by (cases rule: handles.cases) (auto intro: turn.intros)

lemma handles_step:
  assumes h: "handles D (net C) n r r'" and n: "n \<in> M" "node C n = r"
    and mem: "membership cfg M" "cluster_reachable cfg M C"
    and src: "\<forall>m\<in>net C. list_all (from_client D) (entries m)" "list_all (from_client D) (log r)"
  shows "cluster_step cfg M C (emit C n r')" "hard_state_advances r r'"
    "stable_within r \<Longrightarrow> stable_kept r r'" "entries_from (from_client D) r'"
proof -
  from cluster_refines [OF mem] obtain s where sim: "sim cfg M C s" by blast
  then have out: "out_msgs r = []" and ok: "log_ok (log r)"
    using n by (auto simp: sim_def node_rel_def)
  have er: "entries_from (from_client D) r" using src(2) out by (simp add: entries_from_def)
  have wf: "wf_append m" if "m \<in> net C" "msg_type m = kAppendEntries" for m
  proof -
    have "append_ok s m" using sim that by (auto simp: sim_def msg_ok_def)
    then show ?thesis by (auto simp: append_ok_def wf_append_def Let_def)
  qed
  show "cluster_step cfg M C (emit C n r')"
    using handles_turn [OF h] n by (auto intro: cluster_step.work)
  show "hard_state_advances r r'"
    using h TakeCommitted_advances [of r] Tick_advances [OF u64_below_max, of r]
    by cases (auto intro: Step_advances Propose_advances)
  show "stable_kept r r'" if "stable_within r"
    using h by cases (auto intro: Step_stable Tick_stable Propose_stable wf that stable_kept_same simp: TakeCommitted_def)
  show "entries_from (from_client D) r'"
    using h
  proof cases
    case (propose d)
    then show ?thesis using er by (auto intro!: Propose_from simp: from_client_def)
  qed (use er ok src(1) in \<open>auto intro: Tick_from Step_from TakeCommitted_from\<close>)
qed

lemma emit_cores:
  assumes "n \<in> M" "TakeMessages r = (msgs, r')" "dn_raft d = r'"
  shows "cores cfg M (S\<lparr>dn := (dn S)(n := d), wire := wire S \<union> set msgs\<rparr>) = emit (cores cfg M S) n r"
  using assms by (auto simp: cores_def emit_def)

lemma durable_inv_start:
  assumes "\<And>n. n \<in> M \<Longrightarrow> blank_disk (path n) (os n) \<and> start_node (cfg n) (path n) (os n) = Some (f n)"
  shows "durable_inv cfg M path D \<lparr>dn = f, wire = {}\<rparr>"
proof -
  have f: "node_ok (path n) (f n) \<and> dn_raft (f n) = Raft_new (cfg n)" if "n \<in> M" for n
    using blank_disk_starts [of "path n" "os n" "cfg n"] assms [OF that] by auto
  then have "cores cfg M \<lparr>dn = f, wire = {}\<rparr> = cluster_init cfg"
    by (auto simp: cores_def cluster_init_def)
  with f cluster_reachable.start [of cfg M] show ?thesis
    by (simp add: durable_inv_def Raft_new_def from_client_def sentinel_def)
qed

lemma durable_handles:
  assumes D: "\<forall>d\<in>D. length d < 2 ^ 32" and mem: "membership cfg M" and inv: "durable_inv cfg M path D S"
    and h: "n \<in> M" "handles D (wire S) n (dn_raft (dn S n)) r"
  shows "cluster_step cfg M (cores cfg M S) (emit (cores cfg M S) n r)"
    "node_ok (path n) (dn S n)" "stable_kept (dn_raft (dn S n)) r" "hard_state_noted (dn_raft (dn S n)) r"
    "list_all (\<lambda>e. length (le_data e) < 2 ^ 32) (log r)" "entries_from (from_client D) r"
proof -
  let ?C = "cores cfg M S" and ?d = "dn S n"
  have C: "cluster_reachable cfg M ?C" "node ?C n = dn_raft ?d" "net ?C = wire S"
    and src: "\<forall>m\<in>net ?C. list_all (from_client D) (entries m)" "list_all (from_client D) (log (dn_raft ?d))"
    using inv h(1) by (auto simp: durable_inv_def cores_def)
  have "handles D (net ?C) n (dn_raft ?d) r" using h(2) C(3) by simp
  note hs = handles_step [OF this h(1) C(2) mem C(1) src]
  show ok: "node_ok (path n) ?d" using inv h(1) by (simp add: durable_inv_def)
  then have "stable_within (dn_raft ?d)" by (auto simp: node_ok_def stored_def mirrors_def)
  then show "stable_kept (dn_raft ?d) r" by (rule hs(3))
  show "hard_state_noted (dn_raft ?d) r" by (rule hard_state_advances_noted [OF hs(2)])
  show "cluster_step cfg M ?C (emit ?C n r)" "entries_from (from_client D) r" by (fact hs)+
  then show "list_all (\<lambda>e. length (le_data e) < 2 ^ 32) (log r)"
    by (intro from_client_small [OF D]) (simp add: entries_from_def)
qed

lemma durable_inv_work:
  assumes D: "\<forall>d\<in>D. length d < 2 ^ 32" and mem: "membership cfg M" and inv: "durable_inv cfg M path D S"
    and c: "S' = S\<lparr>dn := (dn S)(n := \<lparr>dn_raft = r'', dn_store = st', dn_os = os'\<rparr>), wire := wire S \<union> set msgs\<rparr>"
      "n \<in> M" "handles D (wire S) n (dn_raft (dn S n)) r"
      "Save (dn_store (dn S n)) r ((dn_os (dn S n))\<lparr>os_script := sc\<rparr>) = (OK, st', r', os')" "TakeMessages r' = (msgs, r'')"
  shows "durable_inv cfg M path D S' \<and> (cluster_step cfg M)\<^sup>*\<^sup>* (cores cfg M S) (cores cfg M S')"
proof -
  let ?C = "cores cfg M S" and ?i = "LastIndex r"
  note h = durable_handles [OF D mem inv c(2,3)]
  note ok' = node_ok_work [OF h(2-5) c(4)]
  have r'': "r'' = r'\<lparr>out_msgs := []\<rparr>" "msgs = out_msgs r" using c(5) ok'(1) by (auto simp: TakeMessages_def)
  have "emit (emit ?C n r) n (set_stable_index (clear_hard_state_dirty (node (emit ?C n r) n)) ?i) = cores cfg M S'"
    using r'' c(2) ok'(1)
    by (auto simp: c(1) cores_def emit_def TakeMessages_def set_stable_index_def clear_hard_state_dirty_def fun_eq_iff)
  moreover note cluster_step.saved [OF c(2), of cfg "emit ?C n r" ?i]
  ultimately have two: "cluster_step cfg M ?C (emit ?C n r)" "cluster_step cfg M (emit ?C n r) (cores cfg M S')"
    using h(1) by simp_all
  then have "cluster_reachable cfg M (cores cfg M S')"
    using inv unfolding durable_inv_def by (blast intro: cluster_reachable.step)
  moreover have "log r'' = log r" using r'' ok'(1) by simp
  ultimately have "durable_inv cfg M path D S'"
    using inv h(6) r'' ok'(2) [of "[]"] by (auto simp: durable_inv_def c(1) entries_from_def)
  with two show ?thesis by (meson converse_rtranclp_into_rtranclp r_into_rtranclp)
qed

lemma durable_inv_interrupted:
  assumes D: "\<forall>d\<in>D. length d < 2 ^ 32" and mem: "membership cfg M" and inv: "durable_inv cfg M path D S"
    and c: "S' = S\<lparr>dn := (dn S)(n := d)\<rparr>" "n \<in> M" "handles D (wire S) n (dn_raft (dn S n)) r"
      "Save (dn_store (dn S n)) r ((dn_os (dn S n))\<lparr>os_script := sc\<rparr>) = (s, st', r', os')"
      "crash os' os" "calm os" "whole_file (path n) os" "start_node (cfg n) (path n) os = Some d"
  shows "durable_inv cfg M path D S' \<and> (cluster_step cfg M)\<^sup>*\<^sup>* (cores cfg M S) (cores cfg M S')"
proof -
  let ?C = "cores cfg M S" and ?r = "dn_raft (dn S n)"
  note h = durable_handles [OF D mem inv c(2,3)]
  from node_ok_interrupted [OF h(2-5) c(4-7), of "cfg n"] c(8) obtain l where
    d: "node_ok (path n) d" "log (dn_raft d) = log ?r \<or> (\<exists>k. log (dn_raft d) = take k (log r))"
      "dn_raft d = reboot (cfg n) ?r \<or>
       halfway ?r r l \<and> dn_raft d = Restore (Raft_new (cfg n)) (current_term r) (voted_for r) (tl l)" by auto
  have C: "node ?C n = ?r" "net ?C = wire S" using c(2) by (simp_all add: cores_def)
  have "stable_index ?r = LastIndex ?r" using h(2) by (auto simp: node_ok_def stored_def)
  with cluster_step.interrupted [OF c(2), of ?C r l cfg] cluster_step.restart [OF c(2), of cfg ?C]
    handles_turn [OF c(3)] C d(3)
  have "cluster_step cfg M ?C (emit ?C n (dn_raft d))" by auto
  moreover have out: "out_msgs (dn_raft d) = []" using d(3) by (auto simp: reboot_def Restore_def Raft_new_def Let_def)
  then have "emit ?C n (dn_raft d) = cores cfg M S'"
    using c(2) by (auto simp: c(1) cores_def emit_def TakeMessages_def)
  ultimately have step: "cluster_step cfg M ?C (cores cfg M S')" by simp
  moreover have "list_all (from_client D) (log (dn_raft d))"
    using d(2) inv c(2) h(6)
    by (fastforce simp: durable_inv_def entries_from_def list_all_iff dest: in_set_takeD)
  then have "durable_inv cfg M path D S'"
    using inv step d(1) by (auto simp: durable_inv_def c(1) intro: cluster_reachable.step)
  ultimately show ?thesis by blast
qed

lemma durable_inv_power_failure:
  assumes D: "\<forall>d\<in>D. length d < 2 ^ 32" and mem: "membership cfg M" and inv: "durable_inv cfg M path D S"
    and c: "S' = S\<lparr>dn := (dn S)(n := d)\<rparr>" "n \<in> M" "crash (dn_os (dn S n)) os" "calm os"
      "start_node (cfg n) (path n) os = Some d"
  shows "durable_inv cfg M path D S' \<and> (cluster_step cfg M)\<^sup>*\<^sup>* (cores cfg M S) (cores cfg M S')"
proof -
  let ?C = "cores cfg M S" and ?r = "dn_raft (dn S n)"
  have ok: "node_ok (path n) (dn S n)" "list_all (from_client D) (log ?r)"
    using inv c(2) by (simp_all add: durable_inv_def)
  from node_ok_crash [OF ok(1) c(3,4), of "cfg n"] c(5)
  have d: "dn_raft d = reboot (cfg n) ?r" "node_ok (path n) d" by auto
  have "log_ok (log ?r)" using ok(1) by (auto simp: node_ok_def stored_def mirrors_def stable_within_def)
  then have "[sentinel] @ tl (log ?r) = log ?r" by (cases "log ?r") (auto simp: log_ok_def)
  then have "log (dn_raft d) = log ?r" "out_msgs (dn_raft d) = []"
    by (simp_all add: d(1) reboot_def Restore_def Raft_new_def Let_def)
  then have "emit ?C n (reboot (cfg n) (node ?C n)) = cores cfg M S'"
    using c(2) d(1) by (auto simp: c(1) cores_def emit_def TakeMessages_def)
  with cluster_step.restart [OF c(2), of cfg ?C]
  have step: "cluster_step cfg M ?C (cores cfg M S')" by simp
  moreover have "durable_inv cfg M path D S'"
    using inv step d(2) ok(2) \<open>log (dn_raft d) = log ?r\<close>
    by (auto simp: durable_inv_def c(1) intro: cluster_reachable.step)
  ultimately show ?thesis by blast
qed

lemma durable_inv_step:
  assumes D: "\<forall>d\<in>D. length d < 2 ^ 32" and mem: "membership cfg M" and inv: "durable_inv cfg M path D S" and step: "durable_step cfg M path D S S'"
  shows "durable_inv cfg M path D S' \<and> (cluster_step cfg M)\<^sup>*\<^sup>* (cores cfg M S) (cores cfg M S')"
  using step
proof cases
  case work
  then show ?thesis by (rule durable_inv_work [OF D mem inv])
next
  case interrupted
  then show ?thesis by (rule durable_inv_interrupted [OF D mem inv])
next
  case power_failure
  then show ?thesis by (rule durable_inv_power_failure [OF D mem inv])
qed

lemma durable_inv_reachable:
  assumes "\<forall>d\<in>D. length d < 2 ^ 32" "membership cfg M" "durable_reachable cfg M path D S"
  shows "durable_inv cfg M path D S"
  using assms(3)
proof induction
  case (start os f)
  then show ?case by (rule durable_inv_start)
next
  case (step S S')
  with durable_inv_step [OF assms(1,2)] show ?case by blast
qed

text \<open>A call into the core, with no call of the operating system failing, is always carried out.\<close>

lemma node_ok_saves:
  assumes "node_ok p d" "stable_kept (dn_raft d) r" "hard_state_noted (dn_raft d) r"
    and "list_all (\<lambda>e. length (le_data e) < 2 ^ 32) (log r)"
  shows "\<exists>st' r' os'. Save (dn_store d) r ((dn_os d)\<lparr>os_script := []\<rparr>) = (OK, st', r', os') \<and> whole_file p (spared os')"
proof -
  let ?os = "(dn_os d)\<lparr>os_script := []\<rparr>"
  have "\<exists>recs. store_inv recs (dn_store d) ?os" using assms(1) by (auto simp: node_ok_def)
  moreover have "calm ?os" by (simp add: calm_def)
  ultimately obtain st' r' os' where sv: "Save (dn_store d) r ?os = (OK, st', r', os')"
    using Save_calm [of "dn_store d" ?os r] by (auto simp: store_inv_def store_written_def)
  from node_ok_work(2) [OF assms sv] obtain recs where "store_inv recs st' os'" "rs_path st' = p"
    by (auto simp: node_ok_def)
  then have "file_contents os' p = log_bytes 0 recs" by (auto simp: store_inv_def store_written_def posix_contents_def)
  then have "whole_file p (spared os')" by (auto simp: whole_file_def spared_def file_contents_def)
  with sv show ?thesis by blast
qed

lemma durable_progress:
  assumes "\<forall>d\<in>D. length d < 2 ^ 32" "membership cfg M" "durable_reachable cfg M path D S" "n \<in> M"
    and "handles D (wire S) n (dn_raft (dn S n)) r"
  shows "\<exists>S'. durable_step cfg M path D S S' \<and>
    dn_raft (dn S' n) = r\<lparr>hard_state_dirty := False, stable_index := LastIndex r, out_msgs := []\<rparr>"
proof -
  let ?d = "dn S n"
  note h = durable_handles [OF assms(1,2) durable_inv_reachable [OF assms(1-3)] assms(4,5)]
  from node_ok_saves [OF h(2-5)] obtain st' r' os' where
    sv: "Save (dn_store ?d) r ((dn_os ?d)\<lparr>os_script := []\<rparr>) = (OK, st', r', os')" by blast
  note r' = node_ok_work(1) [OF h(2-5) sv]
  have "TakeMessages r' = (out_msgs r, r'\<lparr>out_msgs := []\<rparr>)" by (simp add: TakeMessages_def r')
  from durable_step.work [OF assms(4,5) sv this, of cfg path] show ?thesis by (auto simp: r')
qed

text \<open>A node alone in its cluster, which stands for election, wins and commits a first command.\<close>

definition solo_cfg :: "NodeId \<Rightarrow> Config" where
  "solo_cfg n = \<lparr>cfg_id = n, peers = [1], election_timeout = 1, heartbeat_timeout = 1\<rparr>"

definition solo_path :: "NodeId \<Rightarrow> string" where
  "solo_path n = ''d/raft.log''"

lemma solo_membership: "membership solo_cfg {1}"
  by (simp add: membership_def solo_cfg_def)

lemma solo_blank: "blank_disk (solo_path n) fresh_os"
  by (simp add: blank_disk_def fresh_os_def calm_def solo_path_def ParentDir_def find_last_of_def)

lemma solo_data: "\<forall>d\<in>{[7 :: byte]}. length d < 2 ^ 32"
  by simp

lemma solo_commits:
  "\<exists>S. durable_reachable solo_cfg {1} solo_path {[7]} S \<and> commit_index (dn_raft (dn S 1)) = 1 \<and>
     log (dn_raft (dn S 1)) = [sentinel, \<lparr>le_term = 1, le_index = 1, le_data = [7]\<rparr>]"
proof -
  let ?reach = "durable_reachable solo_cfg {1} solo_path {[7]}"
  let ?saved = "\<lambda>r. r\<lparr>hard_state_dirty := False, stable_index := LastIndex r, out_msgs := []\<rparr>"
  obtain d where d: "start_node (solo_cfg 1) (solo_path 1) fresh_os = Some d" "dn_raft d = Raft_new (solo_cfg 1)"
    using blank_disk_starts [OF solo_blank] by blast
  let ?S = "\<lparr>dn = (\<lambda>_. d), wire = {}\<rparr>"
  have reach: "?reach ?S"
    using durable_reachable.start [of "{1}" solo_path "\<lambda>_. fresh_os" solo_cfg "\<lambda>_. d" "{[7]}"] d solo_blank by simp
  note progress = durable_progress [OF solo_data solo_membership _ insertI1]
  have "handles {[7]} (wire ?S) 1 (dn_raft (dn ?S 1)) (Tick (Raft_new (solo_cfg 1)))"
    using handles.tick [of "Raft_new (solo_cfg 1)" "{[7]}" "{}" 1] d(2) by (simp add: Raft_new_def)
  from progress [OF reach this] obtain S1 where
    S1: "durable_step solo_cfg {1} solo_path {[7]} ?S S1" "dn_raft (dn S1 1) = ?saved (Tick (Raft_new (solo_cfg 1)))"
    by blast
  have r1: "role (dn_raft (dn S1 1)) = kLeader" "current_term (dn_raft (dn S1 1)) = 1" "commit_index (dn_raft (dn S1 1)) = 0"
    "log (dn_raft (dn S1 1)) = [sentinel]" "config (dn_raft (dn S1 1)) = solo_cfg 1"
    by (simp_all add: S1(2) Tick_def Raft_new_def solo_cfg_def BecomeCandidate_def BecomeLeader_def QuorumSize_def
        raft_id_def other_peers_def BroadcastAppendEntries_def Let_def)
  have "?reach S1" by (rule durable_reachable.step [OF reach S1(1)])
  moreover have "handles {[7]} (wire S1) 1 (dn_raft (dn S1 1)) (snd (Propose (dn_raft (dn S1 1)) [7]))"
    by (rule handles.propose) (simp_all add: r1)
  ultimately obtain S2 where S2: "durable_step solo_cfg {1} solo_path {[7]} S1 S2"
    "dn_raft (dn S2 1) = ?saved (snd (Propose (dn_raft (dn S1 1)) [7]))"
    using progress [of solo_path S1] by blast
  have "?reach S2" by (rule durable_reachable.step [OF \<open>?reach S1\<close> S2(1)])
  moreover have "commit_index (dn_raft (dn S2 1)) = 1"
    "log (dn_raft (dn S2 1)) = [sentinel, \<lparr>le_term = 1, le_index = 1, le_data = [7]\<rparr>]"
    using r1 by (simp_all add: S2(2) Propose_def MaybeCommit_def MaybeCommit_loop.simps LastIndex_def TermAt_def
        replicas_def QuorumSize_def solo_cfg_def other_peers_def raft_id_def)
  ultimately show ?thesis by blast
qed


subsection \<open>Properties\<close>

text \<open>
  \<^bold>\<open>C8\<close> Nodes that restart. In a cluster of nodes with storage, in which any node can lose
  power between its turns and within them, any number of times, a node that does so between turns
  opens again on what its disk has kept, and has the
  term, the vote and the whole log it had: it is the node of the abstract cluster, rebooted.
\<close>

theorem Durable_restart_recovers:
  assumes "\<forall>d\<in>D. length d < 2 ^ 32" "membership cfg M" "durable_reachable cfg M path D S" "n \<in> M"
    and "crash (dn_os (dn S n)) os" "calm os"
  shows "\<exists>d. start_node (cfg n) (path n) os = Some d \<and> dn_raft d = reboot (cfg n) (dn_raft (dn S n)) \<and>
    current_term (dn_raft d) = current_term (dn_raft (dn S n)) \<and>
    voted_for (dn_raft d) = voted_for (dn_raft (dn S n)) \<and> log (dn_raft d) = log (dn_raft (dn S n))"
proof -
  let ?r = "dn_raft (dn S n)"
  have ok: "node_ok (path n) (dn S n)"
    using durable_inv_reachable [OF assms(1-3)] assms(4) by (simp add: durable_inv_def)
  then have "log_ok (log ?r)" by (auto simp: node_ok_def stored_def mirrors_def stable_within_def)
  then have "[sentinel] @ tl (log ?r) = log ?r" by (cases "log ?r") (auto simp: log_ok_def)
  then have "current_term (reboot (cfg n) ?r) = current_term ?r" "voted_for (reboot (cfg n) ?r) = voted_for ?r"
    "log (reboot (cfg n) ?r) = log ?r"
    by (simp_all add: reboot_def Restore_def Raft_new_def Let_def)
  with node_ok_crash [OF ok assms(5,6), of "cfg n"] show ?thesis by auto
qed

theorem Durable_restart_recovers_witness:
  "\<exists>(S :: dcluster) d. log (dn_raft (dn S 1)) = [sentinel, \<lparr>le_term = 1, le_index = 1, le_data = [7]\<rparr>] \<and>
     start_node (solo_cfg 1) (solo_path 1) (spared (dn_os (dn S 1))) = Some d \<and>
     log (dn_raft d) = log (dn_raft (dn S 1))"
proof -
  obtain S where S: "durable_reachable solo_cfg {1} solo_path {[7]} S"
    "log (dn_raft (dn S 1)) = [sentinel, \<lparr>le_term = 1, le_index = 1, le_data = [7]\<rparr>]"
    using solo_commits by blast
  from Durable_restart_recovers [OF solo_data solo_membership S(1) insertI1
      conjunct1 [OF crash_spared] conjunct2 [OF crash_spared]] obtain d where
    "start_node (solo_cfg 1) (solo_path 1) (spared (dn_os (dn S 1))) = Some d" "log (dn_raft d) = log (dn_raft (dn S 1))"
    by (elim exE conjE)
  with S(2) show ?thesis by (intro exI conjI)
qed

text \<open>
  \<^bold>\<open>C15\<close> Nodes interrupted. A node is given a turn, and power fails at any point of the \<open>Save\<close>
  behind it, or after it, whatever the operating system did meanwhile and whatever \<open>Save\<close> returned.
  If whole records are left, the node opens again. It has its old term, vote and log; or the new
  term and vote with the old log, or with the new log up to some point behind the watermark, so
  that no entry that was stored before and that the turn kept is lost.
\<close>

theorem Durable_interrupted_recovers:
  assumes "\<forall>d\<in>D. length d < 2 ^ 32" "membership cfg M" "durable_reachable cfg M path D S" "n \<in> M"
    and "handles D (wire S) n (dn_raft (dn S n)) r"
    and "Save (dn_store (dn S n)) r ((dn_os (dn S n))\<lparr>os_script := sc\<rparr>) = (s, st', r', os')"
    and "crash os' os" "calm os" "whole_file (path n) os"
  shows "\<exists>d. start_node (cfg n) (path n) os = Some d \<and>
    (dn_raft d = reboot (cfg n) (dn_raft (dn S n)) \<or>
     (\<exists>l. dn_raft d = Restore (Raft_new (cfg n)) (current_term r) (voted_for r) (tl l) \<and>
        (l = log (dn_raft (dn S n)) \<or> (\<exists>k. unat (stable_index r) < k \<and> l = take k (log r)))))"
proof -
  note h = durable_handles [OF assms(1,2) durable_inv_reachable [OF assms(1-3)] assms(4,5)]
  from node_ok_interrupted [OF h(2-5) assms(6-9), of "cfg n"] show ?thesis unfolding halfway_def by blast
qed

theorem Durable_interrupted_recovers_witness:
  "\<exists>(S :: dcluster) st' r' os' d. log (dn_raft (dn S 1)) = [sentinel, \<lparr>le_term = 1, le_index = 1, le_data = [7]\<rparr>] \<and>
     Save (dn_store (dn S 1)) (snd (TakeCommitted (dn_raft (dn S 1)))) ((dn_os (dn S 1))\<lparr>os_script := []\<rparr>) = (OK, st', r', os') \<and>
     start_node (solo_cfg 1) (solo_path 1) (spared os') = Some d"
proof -
  obtain S where S: "durable_reachable solo_cfg {1} solo_path {[7]} S"
    "log (dn_raft (dn S 1)) = [sentinel, \<lparr>le_term = 1, le_index = 1, le_data = [7]\<rparr>]"
    using solo_commits by blast
  let ?d = "dn S 1" and ?r = "snd (TakeCommitted (dn_raft (dn S 1)))"
  note h = durable_handles [OF solo_data solo_membership durable_inv_reachable [OF solo_data solo_membership S(1)]
      insertI1 handles.take_committed]
  from node_ok_saves [OF h(2-5)] obtain st' r' os' where
    sv: "Save (dn_store ?d) ?r ((dn_os ?d)\<lparr>os_script := []\<rparr>) = (OK, st', r', os')" "whole_file (solo_path 1) (spared os')"
    by blast
  from Durable_interrupted_recovers [OF solo_data solo_membership S(1) insertI1 handles.take_committed sv(1)
      conjunct1 [OF crash_spared] conjunct2 [OF crash_spared] sv(2)] obtain d where
    "start_node (solo_cfg 1) (solo_path 1) (spared os') = Some d" by (elim exE conjE)
  with S(2) sv(1) show ?thesis by (intro exI conjI)
qed

text \<open>
  \<^bold>\<open>C7\<close> Refinement. Every step of a cluster of nodes with storage, a call into a core with its
  \<open>Save\<close>, a power failure with its recovery, or a power failure at a point of a \<open>Save\<close> that leaves whole
  records, is a sequence of steps of the cluster of its cores.
\<close>

theorem Durable_cluster_refines:
  assumes "\<forall>d\<in>D. length d < 2 ^ 32" "membership cfg M" "durable_reachable cfg M path D S"
    and "durable_step cfg M path D S S'"
  shows "cluster_reachable cfg M (cores cfg M S) \<and> (cluster_step cfg M)\<^sup>*\<^sup>* (cores cfg M S) (cores cfg M S')"
  using durable_inv_step [OF assms(1,2) durable_inv_reachable [OF assms(1-3)] assms(4)]
    durable_inv_reachable [OF assms(1-3)] by (simp add: durable_inv_def)

theorem Durable_cluster_refines_witness:
  "\<exists>S S'. durable_step solo_cfg {1} solo_path {[7]} S S' \<and> cluster_reachable solo_cfg {1} (cores solo_cfg {1} S) \<and>
     (cluster_step solo_cfg {1})\<^sup>*\<^sup>* (cores solo_cfg {1} S) (cores solo_cfg {1} S')"
proof -
  obtain S where S: "durable_reachable solo_cfg {1} solo_path {[7]} S" using solo_commits by blast
  from durable_progress [OF solo_data solo_membership S insertI1 handles.take_committed] obtain S' where
    step: "durable_step solo_cfg {1} solo_path {[7]} S S'" by blast
  with Durable_cluster_refines [OF solo_data solo_membership S step] show ?thesis by blast
qed

text \<open>
  \<^bold>\<open>C6\<close> Agreement and validity of the whole system: cores, storage, network and power
  failures, between the saves and, where whole records are left, within them. Two nodes, one now and one any number of steps later, hold the same log up to the
  smaller of their commit indices, and every entry there carries a command some client proposed
  (or is the sentinel).
\<close>

theorem Durable_committed_entries_agree:
  assumes "\<forall>d\<in>D. length d < 2 ^ 32" "membership cfg M" "durable_reachable cfg M path D S"
    and "(durable_step cfg M path D)\<^sup>*\<^sup>* S S'" "n \<in> M" "m \<in> M"
    and "i \<le> commit_index (dn_raft (dn S n))" "i \<le> commit_index (dn_raft (dn S' m))"
  shows "take (Suc (unat i)) (log (dn_raft (dn S n))) = take (Suc (unat i)) (log (dn_raft (dn S' m))) \<and>
    list_all (from_client D) (log (dn_raft (dn S n)))"
proof -
  have inv: "durable_inv cfg M path D S" by (rule durable_inv_reachable [OF assms(1-3)])
  have "(cluster_step cfg M)\<^sup>*\<^sup>* (cores cfg M S) (cores cfg M S') \<and> durable_inv cfg M path D S'"
    using assms(4)
  proof induction
    case (step S1 S2)
    with durable_inv_step [OF assms(1,2) _ step.hyps(2)] show ?case by (meson rtranclp_trans)
  qed (simp add: inv)
  with committed_prefixes_agree [OF assms(2) _ _ assms(5,6), of "cores cfg M S" "cores cfg M S'" i] inv assms(5-8)
  show ?thesis by (simp add: durable_inv_def cores_def)
qed

theorem Durable_committed_entries_agree_witness:
  "\<exists>(S :: dcluster) (S' :: dcluster). commit_index (dn_raft (dn S 1)) = 1 \<and> last_applied (dn_raft (dn S' 1)) = 1 \<and>
     take (Suc (unat (1 :: u64))) (log (dn_raft (dn S 1))) = take (Suc (unat (1 :: u64))) (log (dn_raft (dn S' 1))) \<and>
     list_all (from_client {[7]}) (log (dn_raft (dn S 1)))"
proof -
  obtain S where S: "durable_reachable solo_cfg {1} solo_path {[7]} S" "commit_index (dn_raft (dn S 1)) = 1"
    using solo_commits by blast
  from durable_progress [OF solo_data solo_membership S(1) insertI1 handles.take_committed] obtain S' where
    S': "durable_step solo_cfg {1} solo_path {[7]} S S'" "commit_index (dn_raft (dn S' 1)) = 1"
      "last_applied (dn_raft (dn S' 1)) = 1"
    using S(2) by (auto simp: TakeCommitted_def)
  have steps: "(durable_step solo_cfg {1} solo_path {[7]})\<^sup>*\<^sup>* S S'" using S'(1) by blast
  have "take (Suc (unat (1 :: u64))) (log (dn_raft (dn S 1))) = take (Suc (unat (1 :: u64))) (log (dn_raft (dn S' 1))) \<and>
     list_all (from_client {[7]}) (log (dn_raft (dn S 1)))"
    by (rule Durable_committed_entries_agree [OF solo_data solo_membership S(1) steps])
       (simp_all add: S(2) S'(2))
  with S(2) S'(3) show ?thesis by blast
qed

end
