(* ===== verification/Replicated_Db.thy ===== *)
theory Replicated_Db
  imports Db Raft_Durable
begin

section \<open>The replicated database (replicated_db.h, replicated_db.cc)\<close>

text \<open>
  The key-value state machine on top of the Raft core and its storage: a write is encoded as a
  command, proposed, saved, and applied to the table once it is committed; opening rebuilds the
  table from the recovered log, and a node alone in its cluster elects itself. The operating
  system is threaded through every operation that saves.
\<close>

definition kDelete :: byte where "kDelete = 0"
definition kPut :: byte where "kPut = 1"

definition EncodeCommand :: "byte \<Rightarrow> bytes \<Rightarrow> bytes \<Rightarrow> bytes" where
  "EncodeCommand type key value =
     (let out = [type];
          out = out @ EncodeFixed32 (of_nat (length key)) @ key
      in if type = kPut then out @ EncodeFixed32 (of_nat (length value)) @ value else out)"

text \<open>\<open>None\<close> is the result \<^verbatim>\<open>false\<close>.\<close>

definition DecodeCommand :: "bytes \<Rightarrow> (byte \<times> bytes \<times> bytes) option" where
  "DecodeCommand record =
     (if length record < 1 + 4 then None
      else
        let type = record ! 0;
            p = drop 1 record;
            klen = unat (DecodeFixed32 p);
            p = drop 4 p
        in
        if length p < klen then None
        else
          let key = take klen p;
              p = drop klen p
          in
          if type = kPut then
            if length p < 4 then None
            else
              let vlen = unat (DecodeFixed32 p);
                  p = drop 4 p
              in if length p < vlen then None else Some (type, key, take vlen p)
          else Some (type, key, []))"

text \<open>The body of both apply loops: a command that does not decode is skipped.\<close>

definition apply_command :: "kv \<Rightarrow> bytes \<Rightarrow> kv" where
  "apply_command t data =
     (case DecodeCommand data of
        None \<Rightarrow> t
      | Some (type, key, value) \<Rightarrow> if type = kPut then t(key \<mapsto> value) else t(key := None))"

record ReplicatedDB =
  rdb_raft :: Raft
  rdb_storage :: RaftStorage
  rdb_table :: kv
  applied_index :: u64

definition is_leader :: "ReplicatedDB \<Rightarrow> bool" where
  "is_leader db \<longleftrightarrow> role (rdb_raft db) = kLeader"

definition ReplicatedDB_term :: "ReplicatedDB \<Rightarrow> Term" where
  "ReplicatedDB_term db = current_term (rdb_raft db)"

definition ApplyCommitted :: "ReplicatedDB \<Rightarrow> ReplicatedDB" where
  "ApplyCommitted db =
     db\<lparr>rdb_table := foldl (\<lambda>t i. apply_command t (le_data (log (rdb_raft db) ! i))) (rdb_table db)
          [unat (applied_index db + 1) ..< Suc (unat (commit_index (rdb_raft db)))],
        applied_index := commit_index (rdb_raft db)\<rparr>"

definition ReplicatedDB_Sync :: "ReplicatedDB \<Rightarrow> os_state \<Rightarrow> Status \<times> ReplicatedDB \<times> os_state" where
  "ReplicatedDB_Sync db os =
     (case Save (rdb_storage db) (rdb_raft db) os of (s, storage, raft, os) \<Rightarrow>
        let db = db\<lparr>rdb_storage := storage, rdb_raft := raft\<rparr> in
        if \<not> ok s then (s, db, os) else (OK, ApplyCommitted db, os))"

definition ReplicatedDB_Put :: "ReplicatedDB \<Rightarrow> bytes \<Rightarrow> bytes \<Rightarrow> os_state \<Rightarrow> Status \<times> ReplicatedDB \<times> os_state" where
  "ReplicatedDB_Put db key value os =
     (if \<not> is_leader db then (InvalidArgument ''not leader'', db, os)
      else ReplicatedDB_Sync (db\<lparr>rdb_raft := snd (Propose (rdb_raft db) (EncodeCommand kPut key value))\<rparr>) os)"

definition ReplicatedDB_Delete :: "ReplicatedDB \<Rightarrow> bytes \<Rightarrow> os_state \<Rightarrow> Status \<times> ReplicatedDB \<times> os_state" where
  "ReplicatedDB_Delete db key os =
     (if \<not> is_leader db then (InvalidArgument ''not leader'', db, os)
      else ReplicatedDB_Sync (db\<lparr>rdb_raft := snd (Propose (rdb_raft db) (EncodeCommand kDelete key []))\<rparr>) os)"

definition ReplicatedDB_Get :: "ReplicatedDB \<Rightarrow> bytes \<Rightarrow> Status \<times> bytes option" where
  "ReplicatedDB_Get db key =
     (case rdb_table db key of
        None \<Rightarrow> (NotFound (text_of key), None)
      | Some value \<Rightarrow> (OK, Some value))"

definition ReplicatedDB_destroy :: "ReplicatedDB \<Rightarrow> os_state \<Rightarrow> os_state" where
  "ReplicatedDB_destroy db os = RaftStorage_destroy (rdb_storage db) os"

text \<open>\<^verbatim>\<open>while (role() != kLeader) Tick()\<close>; a loop that does not end is \<open>None\<close>.\<close>

partial_function (option) elect :: "Raft \<Rightarrow> Raft option" where
  "elect r = (if role r \<noteq> kLeader then elect (Tick r) else Some r)"

text \<open>The object \<^verbatim>\<open>Open\<close> builds on the recovered state, before any election.\<close>

definition node_config :: "NodeId \<Rightarrow> NodeId list \<Rightarrow> Config" where
  "node_config nid ps = \<lparr>cfg_id = nid, peers = ps, election_timeout = 1, heartbeat_timeout = 1\<rparr>"

definition recovered_db :: "Config \<Rightarrow> RaftStorage \<Rightarrow> HardState \<Rightarrow> LogEntry list \<Rightarrow> ReplicatedDB" where
  "recovered_db cfg storage hs es =
     \<lparr>rdb_raft = Restore (Raft_new cfg) (hs_term hs) (hs_vote hs) es, rdb_storage = storage,
      rdb_table = foldl (\<lambda>t e. apply_command t (le_data e)) Map.empty es,
      applied_index = (if es = [] then 0 else le_index (last es))\<rparr>"

definition ReplicatedDB_Open ::
  "string \<Rightarrow> NodeId \<Rightarrow> NodeId list \<Rightarrow> os_state \<Rightarrow> (Status \<times> ReplicatedDB option \<times> os_state) option" where
  "ReplicatedDB_Open dir nid ps os =
     (case RaftStorage_Open (dir @ ''/raft.log'') os of
        None \<Rightarrow> None
      | Some (s, None, os) \<Rightarrow> Some (s, None, os)
      | Some (s, Some storage, os) \<Rightarrow>
          (case RaftStorage_Recover storage of (s, hs, es) \<Rightarrow>
           if \<not> ok s then Some (s, None, RaftStorage_destroy storage os)
           else
             let single_node = (length ps = 1);
                 db = recovered_db (node_config nid ps) storage hs es
             in
             if single_node then
               (case elect (rdb_raft db) of
                  None \<Rightarrow> None
                | Some raft \<Rightarrow>
                    (case ReplicatedDB_Sync (db\<lparr>rdb_raft := raft\<rparr>) os of (s, db, os) \<Rightarrow>
                       if \<not> ok s then Some (s, None, ReplicatedDB_destroy db os) else Some (OK, Some db, os)))
             else Some (OK, Some db, os)))"


subsection \<open>The command format\<close>

text \<open>The commands of the client, as one operation of the abstract state machine.\<close>

fun command :: "kv_op \<Rightarrow> bytes" where
  "command (KvPut k v) = EncodeCommand kPut k v"
| "command (KvDelete k) = EncodeCommand kDelete k []"

fun rdb_write :: "ReplicatedDB \<Rightarrow> kv_op \<Rightarrow> os_state \<Rightarrow> Status \<times> ReplicatedDB \<times> os_state" where
  "rdb_write db (KvPut k v) os = ReplicatedDB_Put db k v os"
| "rdb_write db (KvDelete k) os = ReplicatedDB_Delete db k os"

lemma EncodeCommand_record: "EncodeCommand type key value = EncodeRecord type key value"
  by (simp add: EncodeCommand_def EncodeRecord_def kPut_def kTypePut_def Let_def)

lemma DecodeCommand_record: "DecodeCommand r = DecodeRecord r"
  unfolding DecodeCommand_def DecodeRecord_def kPut_def kTypePut_def by (rule refl)

lemma apply_command_body: "apply_command t r = ReplayBody t r"
  by (simp add: apply_command_def ReplayBody_def Apply_def DecodeCommand_record kPut_def kTypePut_def split: option.split)

lemma command_encode: "command op = db_encode op"
  by (cases op) (simp_all add: EncodeCommand_record kPut_def kTypePut_def kDelete_def kTypeDelete_def)

interpretation rdb_codec: kv_codec command apply_command
proof (unfold_locales, goal_cases)
  case (1 op t)
  then show ?case using db_codec.step_encode [of op t] by (simp add: command_encode apply_command_body)
qed

lemma rdb_write_unfold:
  "rdb_write db op os =
     (if \<not> is_leader db then (InvalidArgument ''not leader'', db, os)
      else ReplicatedDB_Sync (db\<lparr>rdb_raft := snd (Propose (rdb_raft db) (command op))\<rparr>) os)"
  by (cases op) (simp_all add: ReplicatedDB_Put_def ReplicatedDB_Delete_def)


subsection \<open>The election of a node alone in its cluster\<close>

lemma BecomeCandidate_alone:
  "length (peers (config r)) = 1 \<Longrightarrow> role (BecomeCandidate r) = kLeader"
proof -
  assume *: "length (peers (config r)) = 1"
  have "role (foldl (\<lambda>r peer. r\<lparr>next_index := (next_index r)(peer := LastIndex r + 1),
      match_index := (match_index r)(peer := 0)\<rparr>) r ps) = role r" for r ps
    by (induction ps arbitrary: r) auto
  moreover have "role (foldl SendAppendEntries r ps) = role r" for r ps
    by (induction ps arbitrary: r) (auto simp: SendAppendEntries_def Send_def)
  ultimately show ?thesis using *
    by (simp add: BecomeCandidate_def BecomeLeader_def QuorumSize_def BroadcastAppendEntries_def Let_def)
qed

lemma elect_alone:
  assumes "length (peers (config r)) = 1"
  shows "\<exists>r'. elect r = Some r' \<and> role r' = kLeader"
  using assms
proof (induction "nat (election_timeout (config r) - election_elapsed r)" arbitrary: r rule: less_induct)
  case less
  show ?case
  proof (cases "role r = kLeader \<or> election_elapsed r + 1 \<ge> election_timeout (config r)")
    case True
    moreover have "role (Tick r) = kLeader" if "role r \<noteq> kLeader"
      using that True BecomeCandidate_alone [of "r\<lparr>election_elapsed := election_elapsed r + 1\<rparr>"] less.prems
      by (simp add: Tick_def Let_def)
    ultimately show ?thesis by (subst elect.simps, subst elect.simps) auto
  next
    case False
    let ?r = "r\<lparr>election_elapsed := election_elapsed r + 1\<rparr>"
    have "Tick r = ?r" using False by (simp add: Tick_def Let_def)
    moreover have "\<exists>r'. elect ?r = Some r' \<and> role r' = kLeader"
      using False less.prems by (intro less.hyps) auto
    ultimately show ?thesis using False by (subst elect.simps) auto
  qed
qed


subsection \<open>Applying and proposing\<close>

lemma apply_range:
  assumes "log_ok l" "c < length l" "Suc a < 2 ^ 64"
  shows "foldl (\<lambda>t i. apply_command t (le_data (l ! i))) t [Suc a ..< Suc c] =
    foldl apply_command t (map le_data (drop a (take c (tl l))))"
proof -
  have "map (\<lambda>i. le_data (l ! i)) [Suc a ..< Suc c] = map le_data (drop a (take c (tl l)))"
    using assms(1,2) by (intro nth_equalityI) (auto simp: nth_tl simp del: upt_Suc)
  moreover have "foldl (\<lambda>t i. apply_command t (le_data (l ! i))) t is =
      foldl apply_command t (map (\<lambda>i. le_data (l ! i)) is)" for "is" t
    by (induction "is" arbitrary: t) simp_all
  ultimately show ?thesis by (simp del: upt_Suc)
qed

lemma ApplyCommitted_table:
  assumes "log_ok (log (rdb_raft db))" "commit_index (rdb_raft db) \<le> LastIndex (rdb_raft db)"
    and "Suc (unat (applied_index db)) < 2 ^ 64"
  shows "rdb_table (ApplyCommitted db) = foldl apply_command (rdb_table db)
    (map le_data (drop (unat (applied_index db)) (take (unat (commit_index (rdb_raft db))) (tl (log (rdb_raft db))))))"
proof -
  have "unat (commit_index (rdb_raft db)) < length (log (rdb_raft db))"
    using assms(1,2) by (rule index_less)
  moreover have "unat (applied_index db + 1) = Suc (unat (applied_index db))" using assms(3) by (rule unat_Suc_u64)
  ultimately show ?thesis
    using apply_range [OF assms(1) _ assms(3), of "unat (commit_index (rdb_raft db))" "rdb_table db"]
    by (simp add: ApplyCommitted_def del: upt_Suc)
qed

lemma ApplyCommitted_none:
  assumes "commit_index (rdb_raft db) = 0" "log (rdb_raft db) = sentinel # es"
  shows "rdb_table (ApplyCommitted db) = rdb_table db"
proof -
  have "apply_command t [] = t" for t by (simp add: apply_command_def DecodeCommand_def)
  then show ?thesis
    using assms by (cases "unat (applied_index db + 1)") (simp_all add: ApplyCommitted_def sentinel_def)
qed

text \<open>On a node alone in its cluster a proposal is committed at once.\<close>

lemma Propose_alone:
  assumes "role r = kLeader" "log_ok (log r)" "Suc (length (log r)) < 2 ^ 64" "peers (config r) = [raft_id r]"
    and "commit_index r \<le> LastIndex r"
  shows "snd (Propose r d) = r\<lparr>log := log r @ [\<lparr>le_term = current_term r, le_index = LastIndex r + 1, le_data = d\<rparr>],
    commit_index := LastIndex r + 1\<rparr>"
proof -
  let ?r = "r\<lparr>log := log r @ [\<lparr>le_term = current_term r, le_index = LastIndex r + 1, le_data = d\<rparr>]\<rparr>"
  have len: "0 < length (log r)" by (rule log_ok_length(1) [OF assms(2)])
  have last: "LastIndex ?r = LastIndex r + 1" by (simp add: LastIndex_def)
  have "unat (LastIndex r) = length (log r) - 1" by (rule unat_LastIndex [OF assms(2)])
  then have un: "unat (LastIndex r + 1) = length (log r)" using len assms(3) unat_Suc_u64 [of "LastIndex r"] by simp
  have "unat (commit_index r) < length (log r)"
    using assms(5) len \<open>unat (LastIndex r) = _\<close> unfolding word_le_nat_alt by linarith
  with un have "commit_index ?r < LastIndex ?r" unfolding last by (simp add: word_less_nat_alt)
  moreover have "TermAt ?r (LastIndex ?r) = current_term ?r" using un by (simp add: TermAt_def last)
  moreover have "QuorumSize ?r \<le> replicas ?r k" for k using assms(4) by (simp add: QuorumSize_def replicas_def)
  ultimately have "MaybeCommit ?r = ?r\<lparr>commit_index := LastIndex ?r\<rparr>"
    unfolding MaybeCommit_def by (subst MaybeCommit_loop.simps) simp
  with assms(1) show ?thesis by (simp add: Propose_def last)
qed


subsection \<open>Opening a node alone in its cluster\<close>

definition raft_file :: "string \<Rightarrow> string" where
  "raft_file dir = dir @ ''/raft.log''"

text \<open>
  Where the storage opens and no call fails behind that, the node elects itself, saves its new
  term and comes up with the table of the recovered log.
\<close>

lemma ReplicatedDB_Open_alone:
  fixes nid :: NodeId
  assumes st: "RaftStorage_Open (raft_file dir) os = Some (s, Some st, os1)" "calm os1"
    "posix_opened (rs_file st, os1)" "writer_ok (rs_writer st)"
  defines "raft0 \<equiv> Restore (Raft_new (node_config nid [nid])) (hs_term (recovered_hs st)) (hs_vote (recovered_hs st)) (recovered_entries st)"
  shows "\<exists>db os2 st' raft'. ReplicatedDB_Open dir nid [nid] os = Some (OK, Some db, os2) \<and> calm os2 \<and>
    Save st (Tick raft0) os1 = (OK, st', raft', os2) \<and> rdb_raft db = raft' \<and> rdb_storage db = st' \<and>
    role (Tick raft0) = kLeader \<and> applied_index db = commit_index raft' \<and>
    raft' = (Tick raft0)\<lparr>hard_state_dirty := False, stable_index := LastIndex raft0\<rparr> \<and>
    rdb_table db = foldl apply_command Map.empty (map le_data (recovered_entries st))"
proof -
  let ?db = "recovered_db (node_config nid [nid]) st (recovered_hs st) (recovered_entries st)"
  have r0: "rdb_raft ?db = raft0" "rdb_storage ?db = st" by (simp_all add: recovered_db_def raft0_def)
  have f: "role raft0 = kFollower" "config raft0 = node_config nid [nid]" "commit_index raft0 = 0"
    "log raft0 = sentinel # recovered_entries st"
    "election_elapsed raft0 = 0"
    by (simp_all add: raft0_def Restore_def Raft_new_def Let_def)
  have lead: "role (Tick raft0) = kLeader"
    using BecomeCandidate_alone [of "raft0\<lparr>election_elapsed := 1\<rparr>"] f by (simp add: Tick_def Let_def node_config_def)
  have el: "elect raft0 = Some (Tick raft0)"
    by (subst elect.simps, subst elect.simps) (simp add: f(1) lead)
  from Save_calm [OF st(3,4,2), of "Tick raft0"] obtain st' raft' os2 where
    sv: "Save st (Tick raft0) os1 = (OK, st', raft', os2)" "calm os2"
      "raft' = (Tick raft0)\<lparr>hard_state_dirty := False, stable_index := LastIndex (Tick raft0)\<rparr>" by blast
  note log = Tick_log [of raft0]
  have last: "LastIndex (Tick raft0) = LastIndex raft0" by (simp add: LastIndex_def log)
  have raft': "raft' = (Tick raft0)\<lparr>hard_state_dirty := False, stable_index := LastIndex raft0\<rparr>"
    using sv(3) last by simp
  let ?db' = "?db\<lparr>rdb_storage := st', rdb_raft := raft'\<rparr>"
  have "rdb_table (ApplyCommitted ?db') = rdb_table ?db"
    using ApplyCommitted_none [of ?db'] raft' Tick_commit [of raft0] f log by simp
  also have "\<dots> = foldl apply_command Map.empty (map le_data (recovered_entries st))"
    by (simp add: recovered_db_def foldl_map)
  finally have tab: "rdb_table (ApplyCommitted ?db') = foldl apply_command Map.empty (map le_data (recovered_entries st))" .
  have "ReplicatedDB_Open dir nid [nid] os = Some (OK, Some (ApplyCommitted ?db'), os2)"
    using st(1) el sv(1) by (simp add: ReplicatedDB_Open_def raft_file_def RaftStorage_Recover_def r0 Let_def
        ReplicatedDB_Sync_def)
  with sv(1,2) tab raft' lead show ?thesis by (auto simp: ApplyCommitted_def)
qed


subsection \<open>A node alone in its cluster, in use\<close>

text \<open>The log holds the commands so far, and the table is theirs.\<close>

definition alone_ok :: "string \<Rightarrow> NodeId \<Rightarrow> kv_op list \<Rightarrow> ReplicatedDB \<Rightarrow> os_state \<Rightarrow> bool" where
  "alone_ok dir nid ops db os \<longleftrightarrow>
     node_ok (raft_file dir) \<lparr>dn_raft = rdb_raft db, dn_store = rdb_storage db, dn_os = os\<rparr> \<and>
     role (rdb_raft db) = kLeader \<and> config (rdb_raft db) = node_config nid [nid] \<and>
     commit_index (rdb_raft db) \<le> LastIndex (rdb_raft db) \<and> applied_index db = commit_index (rdb_raft db) \<and>
     map le_data (tl (log (rdb_raft db))) = map command ops \<and> list_all kv_fits ops \<and> rdb_table db = kv_replay ops"

text \<open>Commands that fit the length fields of their own format and of the storage's records.\<close>

definition cmd_fits :: "kv_op \<Rightarrow> bool" where
  "cmd_fits op \<longleftrightarrow> kv_fits op \<and> length (command op) < 2 ^ 32"

lemma node_ok_log: "node_ok p d \<Longrightarrow> log_ok (log (dn_raft d)) \<and> stable_within (dn_raft d) \<and>
    list_all (\<lambda>e. length (le_data e) < 2 ^ 32) (log (dn_raft d))"
  by (auto simp: node_ok_def stored_def mirrors_def stable_within_def)

lemma Tick_config: "config (Tick r) = config r"
proof -
  have "config (BroadcastAppendEntries v) = config v" "config (BecomeCandidate v) = config v" for v
    using Broadcast_frame [of v] BecomeCandidate_frame [of v] by auto
  then show ?thesis by (simp add: Tick_def Let_def)
qed

lemma alone_open:
  assumes d: "start_node (node_config nid [nid]) (raft_file dir) os = Some d" "node_ok (raft_file dir) d" "calm (dn_os d)"
    and ops: "map le_data (tl (log (dn_raft d))) = map command ops" "list_all kv_fits ops"
  shows "\<exists>db os2. ReplicatedDB_Open dir nid [nid] os = Some (OK, Some db, os2) \<and> alone_ok dir nid ops db os2"
proof -
  obtain s st os1 where st: "RaftStorage_Open (raft_file dir) os = Some (s, Some st, os1)"
    "d = \<lparr>dn_raft = Restore (Raft_new (node_config nid [nid])) (hs_term (recovered_hs st)) (hs_vote (recovered_hs st))
       (recovered_entries st), dn_store = st, dn_os = os1\<rparr>"
    using d(1) by (auto simp: start_node_def RaftStorage_Recover_def split: option.splits)
  let ?r = "dn_raft d"
  have r: "role ?r = kFollower" "config ?r = node_config nid [nid]" "commit_index ?r = 0"
    "log ?r = sentinel # recovered_entries st"
    by (simp_all add: st(2) Restore_def Raft_new_def Let_def)
  have "posix_opened (rs_file st, os1)" "writer_ok (rs_writer st)" "calm os1"
    using d(2,3) st(2) by (auto simp: node_ok_def store_inv_def store_written_def)
  from ReplicatedDB_Open_alone [OF st(1) this(3,1,2), of nid] st(2) obtain db os2 st' raft' where
    op: "ReplicatedDB_Open dir nid [nid] os = Some (OK, Some db, os2)" "Save st (Tick ?r) os1 = (OK, st', raft', os2)"
      "rdb_raft db = raft'" "rdb_storage db = st'" "role (Tick ?r) = kLeader" "applied_index db = commit_index raft'"
      "raft' = (Tick ?r)\<lparr>hard_state_dirty := False, stable_index := LastIndex ?r\<rparr>"
      "rdb_table db = foldl apply_command Map.empty (map le_data (recovered_entries st))"
    by auto
  note log = Tick_log [of ?r] and ok = node_ok_log [OF d(2)]
  have "Save (dn_store d) (Tick ?r) ((dn_os d)\<lparr>os_script := os_script (dn_os d)\<rparr>) = (OK, st', raft', os2)"
    using op(2) st(2) by simp
  from node_ok_work(2) [OF d(2) Tick_stable Tick_noted _ this, of "out_msgs raft'"] ok log
  have "node_ok (raft_file dir) \<lparr>dn_raft = raft', dn_store = st', dn_os = os2\<rparr>" by simp
  moreover have "map le_data (recovered_entries st) = map command ops" using ops(1) r(4) by simp
  moreover have "commit_index raft' \<le> LastIndex raft'" using op(7) Tick_commit [of ?r] r(3) by simp
  moreover have "map le_data (tl (log raft')) = map command ops" using op(7) log ops(1) by simp
  ultimately have "alone_ok dir nid ops db os2"
    using op r(2) Tick_config [of ?r] ops(2) rdb_codec.replay_encoded [OF ops(2), of Map.empty]
    by (simp add: alone_ok_def kv_replay_def)
  with op(1) show ?thesis by blast
qed

lemma alone_create:
  assumes "blank_disk (raft_file dir) os"
  shows "\<exists>db os'. ReplicatedDB_Open dir nid [nid] os = Some (OK, Some db, os') \<and> alone_ok dir nid [] db os'"
proof -
  from blank_disk_starts [OF assms, of "node_config nid [nid]"] obtain d where
    "start_node (node_config nid [nid]) (raft_file dir) os = Some d" "node_ok (raft_file dir) d"
    "dn_raft d = Raft_new (node_config nid [nid])" "calm (dn_os d)" by blast
  with alone_open [of nid dir os d "[]"] show ?thesis by (simp add: Raft_new_def)
qed

lemma alone_reopen:
  assumes "alone_ok dir nid ops db os" "crash os os1" "calm os1"
  shows "\<exists>db' os2. ReplicatedDB_Open dir nid [nid] os1 = Some (OK, Some db', os2) \<and> alone_ok dir nid ops db' os2"
proof -
  let ?d = "\<lparr>dn_raft = rdb_raft db, dn_store = rdb_storage db, dn_os = os\<rparr>"
  have ok: "node_ok (raft_file dir) ?d" "list_all kv_fits ops" "map le_data (tl (log (rdb_raft db))) = map command ops"
    using assms(1) by (simp_all add: alone_ok_def)
  have "crash (dn_os ?d) os1" using assms(2) by simp
  from node_ok_crash [OF ok(1) this assms(3), of "node_config nid [nid]"] obtain d' where
    d': "start_node (node_config nid [nid]) (raft_file dir) os1 = Some d'" "node_ok (raft_file dir) d'" "calm (dn_os d')"
      "dn_raft d' = reboot (node_config nid [nid]) (rdb_raft db)" by auto
  have "tl (log (dn_raft d')) = tl (log (rdb_raft db))"
    by (simp add: d'(4) reboot_def Restore_def Raft_new_def Let_def)
  with alone_open [OF d'(1-3) _ ok(2)] ok(3) show ?thesis by simp
qed

text \<open>The core after a write has been proposed, and what the write then saves.\<close>

lemma alone_propose:
  assumes "alone_ok dir nid ops db os" "cmd_fits op" "Suc (length (log (rdb_raft db))) < 2 ^ 64"
  defines "r \<equiv> rdb_raft db"
  defines "e \<equiv> \<lparr>le_term = current_term r, le_index = LastIndex r + 1, le_data = command op\<rparr>"
  defines "r1 \<equiv> snd (Propose r (command op))"
  shows "r1 = r\<lparr>log := log r @ [e], commit_index := LastIndex r + 1\<rparr>" "stable_kept r r1" "hard_state_noted r r1"
    "list_all (\<lambda>e. length (le_data e) < 2 ^ 32) (log r1)" "LastIndex r1 = LastIndex r + 1"
    "save_records (rdb_storage db) r1 = [entry_record e]"
proof -
  from assms(1) have ok: "node_ok (raft_file dir) \<lparr>dn_raft = r, dn_store = rdb_storage db, dn_os = os\<rparr>"
    and r: "role r = kLeader" "peers (config r) = [raft_id r]" "commit_index r \<le> LastIndex r"
    by (simp_all add: alone_ok_def r_def raft_id_def node_config_def)
  note lo = node_ok_log [OF ok, simplified]
  have len: "Suc (length (log r)) < 2 ^ 64" using assms(3) by (simp add: r_def)
  show r1: "r1 = r\<lparr>log := log r @ [e], commit_index := LastIndex r + 1\<rparr>"
    unfolding r1_def e_def using lo len by (intro Propose_alone r) simp_all
  show sk: "stable_kept r r1" unfolding r1_def using lo len by (intro Propose_stable) simp_all
  show "hard_state_noted r r1" by (simp add: r1 hard_state_noted_def)
  show "list_all (\<lambda>e. length (le_data e) < 2 ^ 32) (log r1)"
    using lo assms(2) by (simp add: r1 e_def cmd_fits_def)
  show last: "LastIndex r1 = LastIndex r + 1" by (simp add: r1 LastIndex_def)
  have st: "persisted_index (rdb_storage db) = LastIndex r" "stable_index r = LastIndex r" "\<not> hard_state_dirty r"
    using ok by (auto simp: node_ok_def stored_def)
  have "0 < length (log r)" "unat (LastIndex r) = length (log r) - 1"
    using lo log_ok_length(1) unat_LastIndex by blast+
  moreover have "log_ok (log r1)" using sk by (simp add: stable_kept_def stable_within_def)
  ultimately have "unsaved ((rdb_storage db)\<lparr>persisted_index := LastIndex r\<rparr>) r1 = [e]"
    by (subst unsaved_drop) (simp_all add: r1)
  then show "save_records (rdb_storage db) r1 = [entry_record e]"
    using st by (simp add: save_records_def r1)
qed

lemma alone_write:
  assumes inv: "alone_ok dir nid ops db os" and op: "cmd_fits op" "Suc (length (log (rdb_raft db))) < 2 ^ 64"
    and w: "rdb_write db op (os\<lparr>os_script := sc\<rparr>) = (OK, db', os')"
  shows "alone_ok dir nid (ops @ [op]) db' os'"
proof -
  let ?r = "rdb_raft db" and ?d = "\<lparr>dn_raft = rdb_raft db, dn_store = rdb_storage db, dn_os = os\<rparr>"
  let ?r1 = "snd (Propose ?r (command op))"
  let ?e = "\<lparr>le_term = current_term ?r, le_index = LastIndex ?r + 1, le_data = command op\<rparr>"
  note p = alone_propose [OF inv op]
  from inv have ok: "node_ok (raft_file dir) ?d" and r: "role ?r = kLeader" "config ?r = node_config nid [nid]"
    "commit_index ?r \<le> LastIndex ?r" "applied_index db = commit_index ?r" "map le_data (tl (log ?r)) = map command ops"
    "list_all kv_fits ops" "rdb_table db = kv_replay ops"
    by (simp_all add: alone_ok_def)
  obtain s st' r' where sv: "Save (rdb_storage db) ?r1 (os\<lparr>os_script := sc\<rparr>) = (s, st', r', os')"
    and db': "ok s" "db' = ApplyCommitted (db\<lparr>rdb_raft := ?r1, rdb_storage := st', rdb_raft := r'\<rparr>)"
    using w r(1) by (auto simp: rdb_write_unfold is_leader_def ReplicatedDB_Sync_def Let_def split: prod.splits if_splits)
  then have sv': "Save (dn_store ?d) ?r1 ((dn_os ?d)\<lparr>os_script := sc\<rparr>) = (OK, st', r', os')"
    using Save_status by simp
  have pd: "stable_kept (dn_raft ?d) ?r1" "hard_state_noted (dn_raft ?d) ?r1" using p(2,3) by simp_all
  note k = node_ok_work [OF ok pd p(4) sv']
  have ok': "node_ok (raft_file dir) \<lparr>dn_raft = r', dn_store = st', dn_os = os'\<rparr>" using k(2) [of "out_msgs r'"] by simp
  note lo = node_ok_log [OF ok', simplified] and lo0 = node_ok_log [OF ok, simplified]
  have r': "log r' = log ?r @ [?e]" "commit_index r' = LastIndex r'" "role r' = kLeader" "config r' = config ?r"
    using k(1) p(1,5) r(1) by (simp_all add: LastIndex_def)
  have len: "0 < length (log ?r)" "unat (LastIndex r') = length (tl (log r'))" "unat (commit_index ?r) < length (log ?r)"
    using lo0 lo log_ok_length(1) unat_LastIndex [of r'] index_less [OF _ r(3)] by auto
  have data: "map le_data (tl (log r')) = map command (ops @ [op])"
    using r(5) len(1) by (simp add: r'(1))
  have fits: "list_all kv_fits (ops @ [op])" using r(6) op(1) by (simp add: cmd_fits_def)
  let ?c = "unat (commit_index ?r)"
  have "length ops = length (log ?r) - 1" using r(5) by (metis length_map length_tl)
  then have c: "?c \<le> length ops" using len by linarith
  have "rdb_table db' = foldl apply_command (kv_replay ops) (map le_data (drop ?c (take (unat (commit_index r')) (tl (log r')))))"
    unfolding db'(2) using lo r' r(4,7) len(3) op(2) by (subst ApplyCommitted_table) simp_all
  also have "\<dots> = foldl apply_command (kv_replay ops) (map command (drop ?c (ops @ [op])))"
    using data len(2) by (simp add: r'(2) flip: drop_map)
  also have "\<dots> = foldl kv_apply (kv_replay ops) (drop ?c (ops @ [op]))"
    using fits by (intro rdb_codec.replay_encoded) (auto simp: list_all_iff dest: in_set_dropD)
  also have "\<dots> = kv_replay (ops @ [op])" by (rule kv_replay_from [OF c])
  finally have tab: "rdb_table db' = kv_replay (ops @ [op])" .
  have "rdb_raft db' = r'" "rdb_storage db' = st'" "applied_index db' = commit_index r'"
    by (simp_all add: db'(2) ApplyCommitted_def)
  with ok' r' r(2) data fits tab show ?thesis by (simp add: alone_ok_def)
qed

text \<open>A write cut short by a power failure that leaves whole records: it is in the log, or it is not.\<close>

lemma alone_interrupted:
  assumes inv: "alone_ok dir nid ops db os" and op: "cmd_fits op" "Suc (length (log (rdb_raft db))) < 2 ^ 64"
    and w: "rdb_write db op (os\<lparr>os_script := sc\<rparr>) = (s, db', os1)"
    and cr: "crash os1 os2" "calm os2" "whole_file (raft_file dir) os2"
  shows "\<exists>db'' os3. ReplicatedDB_Open dir nid [nid] os2 = Some (OK, Some db'', os3) \<and>
    alone_ok dir nid (if length (log (rdb_raft db'')) = length (log (rdb_raft db)) then ops else ops @ [op]) db'' os3"
proof -
  let ?r = "rdb_raft db" and ?d = "\<lparr>dn_raft = rdb_raft db, dn_store = rdb_storage db, dn_os = os\<rparr>"
  let ?r1 = "snd (Propose ?r (command op))" and ?cfg = "node_config nid [nid]"
  note p = alone_propose [OF inv op]
  from inv have ok: "node_ok (raft_file dir) ?d" and r: "role ?r = kLeader" "map le_data (tl (log ?r)) = map command ops"
    "list_all kv_fits ops"
    by (simp_all add: alone_ok_def)
  obtain s' st' r' where "Save (dn_store ?d) ?r1 ((dn_os ?d)\<lparr>os_script := sc\<rparr>) = (s', st', r', os1)"
    using w r(1) by (auto simp: rdb_write_unfold is_leader_def ReplicatedDB_Sync_def Let_def split: prod.splits if_splits)
  from node_ok_interrupted [OF ok _ _ p(4) this cr, of ?cfg] p(2,3) obtain d' l where
    d': "start_node ?cfg (raft_file dir) os2 = Some d'" "node_ok (raft_file dir) d'" "calm (dn_os d')"
      "dn_raft d' = reboot ?cfg ?r \<or>
       halfway ?r ?r1 l \<and> dn_raft d' = Restore (Raft_new ?cfg) (current_term ?r1) (voted_for ?r1) (tl l)" by auto
  have lo: "log_ok (log ?r)" using node_ok_log [OF ok] by simp
  have "stable_index ?r1 = LastIndex ?r" using ok p(1) by (auto simp: node_ok_def stored_def)
  then have "l = log ?r \<or> l = log ?r1" if "halfway ?r ?r1 l"
    using halfway_snoc [OF lo _ _ that] p(1) by simp
  then have lg: "tl (log (dn_raft d')) = tl (log ?r) \<or> tl (log (dn_raft d')) = tl (log ?r1)"
    using d'(4) by (auto simp: reboot_def Restore_def Raft_new_def Let_def)
  have len: "0 < length (log ?r)" "0 < length (log (dn_raft d'))"
    using log_ok_length(1) [OF lo] node_ok_log [OF d'(2)] log_ok_length(1) by blast+
  let ?ops = "if length (log (dn_raft d')) = length (log ?r) then ops else ops @ [op]"
  have "map le_data (tl (log (dn_raft d'))) = map command ?ops"
    using lg
  proof
    assume *: "tl (log (dn_raft d')) = tl (log ?r)"
    have "length (log (dn_raft d')) = length (log ?r)"
      using len arg_cong [OF *, of length, unfolded length_tl] by linarith
    with * r(2) show ?thesis by simp
  next
    assume *: "tl (log (dn_raft d')) = tl (log ?r1)"
    have "length (log ?r1) = Suc (length (log ?r))" by (simp add: p(1))
    then have "length (log (dn_raft d')) = Suc (length (log ?r))"
      using len arg_cong [OF *, of length, unfolded length_tl] by linarith
    with * p(1) r(2) len(1) show ?thesis by simp
  qed
  moreover have "list_all kv_fits ?ops" using r(3) op(1) by (simp add: cmd_fits_def)
  ultimately obtain db'' os3 where db'': "ReplicatedDB_Open dir nid [nid] os2 = Some (OK, Some db'', os3)"
    "alone_ok dir nid ?ops db'' os3"
    using alone_open [OF d'(1-3), of ?ops] by blast
  have "length (map le_data (tl (log (rdb_raft db'')))) = length (map le_data (tl (log (dn_raft d'))))"
    using db''(2) \<open>map le_data (tl (log (dn_raft d'))) = map command ?ops\<close> by (simp only: alone_ok_def)
  moreover have "0 < length (log (rdb_raft db''))"
    using db''(2) node_ok_log log_ok_length(1) by (fastforce simp: alone_ok_def)
  ultimately have "length (log (rdb_raft db'')) = length (log (dn_raft d'))"
    using len(2) by (simp only: length_map length_tl)
  with db'' show ?thesis by auto
qed

lemma alone_write_crash:
  assumes inv: "alone_ok dir nid ops db os" and op: "cmd_fits op" "Suc (length (log (rdb_raft db))) < 2 ^ 64"
    and w: "rdb_write db op (os\<lparr>os_script := sc\<rparr>) = (s, db', os1)" and cr: "crash os1 os2" "calm os2"
  shows "\<exists>db3 os3. ReplicatedDB_Open dir nid [nid] os2 = Some (OK, Some db3, os3) \<and>
    (rdb_table db3 = kv_replay (ops @ [op]) \<or> \<not> ok s \<and> rdb_table db3 = kv_replay ops)"
proof -
  let ?r = "rdb_raft db" and ?d = "\<lparr>dn_raft = rdb_raft db, dn_store = rdb_storage db, dn_os = os\<rparr>"
  let ?r1 = "snd (Propose ?r (command op))" and ?st = "rdb_storage db"
  note p = alone_propose [OF inv op]
  from inv have ok: "node_ok (raft_file dir) ?d" and r: "role ?r = kLeader" "map le_data (tl (log ?r)) = map command ops"
    "list_all kv_fits ops"
    by (simp_all add: alone_ok_def)
  from ok obtain recs where st: "store_inv recs ?st os" "stored recs ?st ?r" "rs_path ?st = raft_file dir"
    "raft_file dir \<notin> os_dirs os" "raft_file dir \<noteq> ParentDir (raft_file dir)" by (auto simp: node_ok_def)
  obtain s' st' r' where sv: "Save ?st ?r1 (os\<lparr>os_script := sc\<rparr>) = (s', st', r', os1)" "ok s = ok s'"
    using w r(1) by (auto simp: rdb_write_unfold is_leader_def ReplicatedDB_Sync_def Let_def split: prod.splits if_splits)
  have mir: "mirrors recs ?st ?r1"
    using st(2) by (intro mirrors_kept [OF _ p(2-4)]) (simp add: stored_def)
  let ?new = "save_records ?st ?r1"
  have "store_inv recs ?st (os\<lparr>os_script := sc\<rparr>)" "rs_path ?st \<notin> os_dirs (os\<lparr>os_script := sc\<rparr>)"
    "rs_path ?st \<noteq> ParentDir (rs_path ?st)" using st by simp_all
  from Save_crash_open [OF this(1) mir sv(1) cr this(2,3), unfolded st(3)] obtain st3 os4 j where
    j: "RaftStorage_Open (raft_file dir) os2 = Some (OK, Some st3, os4)" "length recs \<le> j" "j \<le> length (recs @ ?new)"
      "ok s' \<Longrightarrow> j = length (recs @ ?new)" "calm os4" "posix_opened (rs_file st3, os4)" "writer_ok (rs_writer st3)"
      "(recovered_hs st3, recovered_entries st3) = replayed (take j (recs @ ?new))"
    by blast
  from ReplicatedDB_Open_alone [OF j(1,5-7), of nid] obtain db3 os3 where
    db3: "ReplicatedDB_Open dir nid [nid] os2 = Some (OK, Some db3, os3)"
      "rdb_table db3 = foldl apply_command Map.empty (map le_data (recovered_entries st3))" by blast
  have fits: "list_all kv_fits (ops @ [op])" using r(3) op(1) by (simp add: cmd_fits_def)
  have "rdb_table db3 = kv_replay (ops @ [op]) \<or> \<not> ok s \<and> rdb_table db3 = kv_replay ops"
  proof (cases "j = length (recs @ ?new)")
    case True
    then have "recovered_entries st3 = tl (log ?r1)" using j(8) replay_saved [OF mir] by simp
    moreover have "0 < length (log ?r)" using node_ok_log [OF ok] log_ok_length(1) by simp
    ultimately have "map le_data (recovered_entries st3) = map command (ops @ [op])"
      using r(2) p(1) by simp
    with db3(2) rdb_codec.replay_encoded [OF fits, of Map.empty] show ?thesis by (simp add: kv_replay_def)
  next
    case False
    then have "j = length recs" using j(2,3) p(6) by simp
    then have "recovered_entries st3 = tl (log ?r)" using j(8) st(2) by (simp add: stored_def)
    with db3(2) r(2) rdb_codec.replay_encoded [OF r(3), of Map.empty] False j(4) sv(2) show ?thesis
      by (auto simp: kv_replay_def)
  qed
  with db3(1) show ?thesis by blast
qed

text \<open>
  The life of such a node: created on a blank disk, written to, whatever the operating system
  does to each write that succeeds, restarted after power failures, and also after one that cut a
  write short, where whole records are left. Whether the write counts then is seen from the log.
\<close>

inductive rdb_history :: "string \<Rightarrow> NodeId \<Rightarrow> kv_op list \<Rightarrow> ReplicatedDB \<Rightarrow> os_state \<Rightarrow> bool" for dir nid where
  create: "blank_disk (raft_file dir) os \<Longrightarrow> ReplicatedDB_Open dir nid [nid] os = Some (OK, Some db, os') \<Longrightarrow>
    rdb_history dir nid [] db os'"
| written: "rdb_history dir nid ops db os \<Longrightarrow> cmd_fits op \<Longrightarrow> Suc (length (log (rdb_raft db))) < 2 ^ 64 \<Longrightarrow>
    rdb_write db op (os\<lparr>os_script := sc\<rparr>) = (OK, db', os') \<Longrightarrow> rdb_history dir nid (ops @ [op]) db' os'"
| interrupted: "rdb_history dir nid ops db os \<Longrightarrow> cmd_fits op \<Longrightarrow> Suc (length (log (rdb_raft db))) < 2 ^ 64 \<Longrightarrow>
    rdb_write db op (os\<lparr>os_script := sc\<rparr>) = (s, db', os1) \<Longrightarrow> crash os1 os2 \<Longrightarrow> calm os2 \<Longrightarrow>
    whole_file (raft_file dir) os2 \<Longrightarrow> ReplicatedDB_Open dir nid [nid] os2 = Some (OK, Some db'', os3) \<Longrightarrow>
    rdb_history dir nid (if length (log (rdb_raft db'')) = length (log (rdb_raft db)) then ops else ops @ [op]) db'' os3"
| restarted: "rdb_history dir nid ops db os \<Longrightarrow> crash os os1 \<Longrightarrow> calm os1 \<Longrightarrow>
    ReplicatedDB_Open dir nid [nid] os1 = Some (OK, Some db', os2) \<Longrightarrow> rdb_history dir nid ops db' os2"

lemma rdb_history_ok: "rdb_history dir nid ops db os \<Longrightarrow> alone_ok dir nid ops db os"
proof (induction rule: rdb_history.induct)
  case (create os db os')
  with alone_create [of dir os nid] show ?case by auto
next
  case (written ops db os op sc db' os')
  then show ?case by (blast intro: alone_write)
next
  case (interrupted ops db os op sc s db' os1 os2 db'' os3)
  with alone_interrupted [OF interrupted.IH interrupted.hyps(2-7)] show ?case by auto
next
  case (restarted ops db os os1 db' os2)
  with alone_reopen [of dir nid ops db os os1] show ?case by auto
qed

text \<open>
  The same life from the side of the client, who knows which writes were issued and which of them
  returned OK, and nothing of the log. The power may fail at any point of a write, after any
  failures of system calls in it, and also when it has returned. A write that fails while the node
  goes on running ends what is followed here, as a repeated \<open>Save\<close> stores entries twice; and so does
  a torn record, behind which the code does not append safely (\<open>whole_file\<close>).
\<close>

inductive rdb_life :: "string \<Rightarrow> NodeId \<Rightarrow> (kv_op \<times> bool) list \<Rightarrow> ReplicatedDB \<Rightarrow> os_state \<Rightarrow> bool" for dir nid where
  created: "blank_disk (raft_file dir) os \<Longrightarrow> ReplicatedDB_Open dir nid [nid] os = Some (OK, Some db, os') \<Longrightarrow>
    rdb_life dir nid [] db os'"
| acknowledged: "rdb_life dir nid ws db os \<Longrightarrow> cmd_fits op \<Longrightarrow> Suc (length (log (rdb_raft db))) < 2 ^ 64 \<Longrightarrow>
    rdb_write db op (os\<lparr>os_script := sc\<rparr>) = (OK, db', os') \<Longrightarrow> rdb_life dir nid (ws @ [(op, True)]) db' os'"
| power_failed: "rdb_life dir nid ws db os \<Longrightarrow> cmd_fits op \<Longrightarrow> Suc (length (log (rdb_raft db))) < 2 ^ 64 \<Longrightarrow>
    rdb_write db op (os\<lparr>os_script := sc\<rparr>) = (s, db', os1) \<Longrightarrow> crash os1 os2 \<Longrightarrow> calm os2 \<Longrightarrow>
    whole_file (raft_file dir) os2 \<Longrightarrow> ReplicatedDB_Open dir nid [nid] os2 = Some (OK, Some db'', os3) \<Longrightarrow>
    rdb_life dir nid (ws @ [(op, ok s)]) db'' os3"
| reopened: "rdb_life dir nid ws db os \<Longrightarrow> crash os os1 \<Longrightarrow> calm os1 \<Longrightarrow>
    ReplicatedDB_Open dir nid [nid] os1 = Some (OK, Some db', os2) \<Longrightarrow> rdb_life dir nid ws db' os2"

text \<open>A sequence of writes that leaves out only such as were not acknowledged, and keeps the order.\<close>

fun accounts :: "(kv_op \<times> bool) list \<Rightarrow> kv_op list \<Rightarrow> bool" where
  "accounts [] ops \<longleftrightarrow> ops = []"
| "accounts ((op, acked) # ws) ops \<longleftrightarrow>
     \<not> acked \<and> accounts ws ops \<or> (case ops of [] \<Rightarrow> False | x # xs \<Rightarrow> x = op \<and> accounts ws xs)"

lemma accounts_kept: "accounts ws ops \<Longrightarrow> accounts (ws @ [(op, b)]) (ops @ [op])"
  by (induction ws ops rule: accounts.induct) (auto split: list.splits)

lemma accounts_lost: "accounts ws ops \<Longrightarrow> accounts (ws @ [(op, False)]) ops"
  by (induction ws ops rule: accounts.induct) (auto split: list.splits)

lemma rdb_write_ok: "rdb_write db op os = (s, db', os') \<Longrightarrow> ok s \<Longrightarrow> s = OK"
  by (auto simp: rdb_write_unfold ReplicatedDB_Sync_def InvalidArgument_def ok_def Let_def split: if_splits prod.splits)

lemma rdb_life_history: "rdb_life dir nid ws db os \<Longrightarrow> \<exists>ops. accounts ws ops \<and> rdb_history dir nid ops db os"
proof (induction rule: rdb_life.induct)
  case (created os db os')
  then show ?case using rdb_history.create by (intro exI [of _ "[]"]) simp
next
  case (acknowledged ws db os op sc db' os')
  then obtain ops where "accounts ws ops" "rdb_history dir nid ops db os" by blast
  with acknowledged.hyps(2-4) accounts_kept rdb_history.written show ?case by blast
next
  case (power_failed ws db os op sc s db' os1 os2 db'' os3)
  then obtain ops where ops: "accounts ws ops" "rdb_history dir nid ops db os" by blast
  show ?case
  proof (cases "ok s")
    case True
    with rdb_write_ok power_failed.hyps(4) have "rdb_write db op (os\<lparr>os_script := sc\<rparr>) = (OK, db', os1)" by blast
    from rdb_history.restarted [OF rdb_history.written [OF ops(2) power_failed.hyps(2,3) this] power_failed.hyps(5,6,8)]
    show ?thesis using accounts_kept [OF ops(1)] by blast
  next
    case False
    from rdb_history.interrupted [OF ops(2) power_failed.hyps(2-8)] accounts_kept [OF ops(1)] accounts_lost [OF ops(1)] False
    show ?thesis by (auto split: if_splits)
  qed
next
  case (reopened ws db os os1 db' os2)
  then show ?case using rdb_history.restarted by blast
qed

text \<open>Where no call fails, a write succeeds.\<close>

lemma alone_write_calm:
  assumes "alone_ok dir nid ops db os" "calm os"
  shows "\<exists>db' os'. rdb_write db op os = (OK, db', os') \<and> calm os'"
proof -
  let ?r1 = "snd (Propose (rdb_raft db) (command op))"
  have "posix_opened (rs_file (rdb_storage db), os)" "writer_ok (rs_writer (rdb_storage db))" "role (rdb_raft db) = kLeader"
    using assms(1) by (auto simp: alone_ok_def node_ok_def store_inv_def store_written_def)
  with Save_calm [OF this(1,2) assms(2), of ?r1] show ?thesis
    by (auto simp: rdb_write_unfold is_leader_def ReplicatedDB_Sync_def Let_def)
qed


lemma alone_ok_script: "alone_ok dir nid ops db os \<Longrightarrow> alone_ok dir nid ops db (os\<lparr>os_script := sc\<rparr>)"
  by (auto simp: alone_ok_def node_ok_def)

text \<open>A node with one entry written.\<close>

lemma demo_history:
  "\<exists>db os. rdb_history ''d'' 1 [KvPut [1] [2]] db os \<and> rdb_life ''d'' 1 [(KvPut [1] [2], True)] db os \<and> calm os \<and> length (log (rdb_raft db)) = 2"
proof -
  have blank: "blank_disk (raft_file ''d'') fresh_os" using solo_blank by (simp add: raft_file_def solo_path_def)
  from alone_create [OF this, of 1] obtain db os where
    db: "ReplicatedDB_Open ''d'' 1 [1] fresh_os = Some (OK, Some db, os)" "alone_ok ''d'' 1 [] db os" by blast
  then have h: "rdb_history ''d'' 1 [] db os" "rdb_life ''d'' 1 [] db os"
    using rdb_history.create rdb_life.created blank by blast+
  have "length (tl (log (rdb_raft db))) = 0" using db(2) by (simp add: alone_ok_def)
  moreover have "node_ok (raft_file ''d'') \<lparr>dn_raft = rdb_raft db, dn_store = rdb_storage db, dn_os = os\<rparr>"
    using db(2) by (simp add: alone_ok_def)
  from node_ok_log [OF this] log_ok_length(1) have "0 < length (log (rdb_raft db))" by simp
  ultimately have len: "length (log (rdb_raft db)) = 1" by (cases "log (rdb_raft db)") simp_all
  have "alone_ok ''d'' 1 [] db (os\<lparr>os_script := []\<rparr>)" by (rule alone_ok_script [OF db(2)])
  then obtain db' os' where w: "rdb_write db (KvPut [1] [2]) (os\<lparr>os_script := []\<rparr>) = (OK, db', os')" "calm os'"
    using alone_write_calm [of "''d''" 1 "[]" db "os\<lparr>os_script := []\<rparr>" "KvPut [1] [2]"] by (auto simp: calm_def)
  have "cmd_fits (KvPut [1] [2])" by (simp add: cmd_fits_def EncodeCommand_def Let_def kPut_def)
  with rdb_history.written [OF h(1) _ _ w(1)] rdb_life.acknowledged [OF h(2) _ _ w(1)] len
  have h': "rdb_history ''d'' 1 ([] @ [KvPut [1] [2]]) db' os'" "rdb_life ''d'' 1 ([] @ [(KvPut [1] [2], True)]) db' os'" by simp_all
  have "map le_data (tl (log (rdb_raft db'))) = map command [KvPut [1] [2]]"
    using rdb_history_ok [OF h'(1)] by (simp add: alone_ok_def del: list.map)
  then have "length (tl (log (rdb_raft db'))) = 1" by (metis length_Cons length_map list.size(3) One_nat_def)
  then have "length (log (rdb_raft db')) = 2" by simp
  with h' w(2) show ?thesis by auto
qed

subsection \<open>Properties\<close>

text \<open>
  \<^bold>\<open>C13\<close> A replicated database on a node alone in its cluster implements the key-value state
  machine. Whatever its life so far, acknowledged writes, power failures between them, and power
  failures within or right after a write that leave whole records: its table is that of a sequence of
  writes with all the acknowledged ones in it, in the order in which they were issued; the only
  others in it are writes that a power failure cut short. And it is ready to write.
\<close>

theorem ReplicatedDB_table_is_history:
  assumes "rdb_life dir nid ws db os"
  shows "\<exists>ops. accounts ws ops \<and> rdb_table db = kv_replay ops \<and> is_leader db \<and> applied_index db = commit_index (rdb_raft db)"
  using rdb_life_history [OF assms] rdb_history_ok by (fastforce simp: alone_ok_def is_leader_def)

theorem ReplicatedDB_table_is_history_witness:
  "\<exists>db os. rdb_life ''d'' 1 [(KvPut [1] [2], True)] db os \<and> rdb_table db = kv_replay [KvPut [1] [2]] \<and> is_leader db \<and>
     applied_index db = commit_index (rdb_raft db)"
proof -
  obtain db os where l: "rdb_life ''d'' 1 [(KvPut [1] [2], True)] db os" using demo_history by blast
  from ReplicatedDB_table_is_history [OF l] obtain ops where
    ops: "accounts [(KvPut [1] [2], True)] ops" "rdb_table db = kv_replay ops" "is_leader db"
      "applied_index db = commit_index (rdb_raft db)" by blast
  from ops(1) have "ops = [KvPut [1] [2]]" by (cases ops) simp_all
  with l ops(2-4) show ?thesis by blast
qed

text \<open>
  \<^bold>\<open>C12\<close> Acknowledged writes survive. At any point in the life of such a node a write is
  issued, the operating system does what it likes, and power fails at any byte behind the synced
  part: the node opens again, and the table is that of the writes in its log so far (all the
  acknowledged ones, and those that an earlier power failure cut short but left whole); the
  last one is among them if it returned OK, and otherwise it is there as a whole or not at all.
\<close>

theorem ReplicatedDB_acknowledged_writes_survive:
  assumes "rdb_history dir nid ops db os" "cmd_fits op" "Suc (length (log (rdb_raft db))) < 2 ^ 64"
    and "rdb_write db op (os\<lparr>os_script := sc\<rparr>) = (s, db', os1)" "crash os1 os2" "calm os2"
  shows "\<exists>db3 os3. ReplicatedDB_Open dir nid [nid] os2 = Some (OK, Some db3, os3) \<and>
    (rdb_table db3 = kv_replay (ops @ [op]) \<or> \<not> ok s \<and> rdb_table db3 = kv_replay ops)"
  by (rule alone_write_crash [OF rdb_history_ok [OF assms(1)] assms(2-6)])

theorem ReplicatedDB_acknowledged_writes_survive_witness:
  "\<exists>db os s db' os1 db3 os3. rdb_history ''d'' 1 [KvPut [1] [2]] db os \<and>
     rdb_write db (KvDelete [1]) (os\<lparr>os_script := [Proceed 3, Fails EIO]\<rparr>) = (s, db', os1) \<and>
     ReplicatedDB_Open ''d'' 1 [1] (spared os1) = Some (OK, Some db3, os3) \<and>
     (rdb_table db3 = kv_replay ([KvPut [1] [2]] @ [KvDelete [1]]) \<or> \<not> ok s \<and> rdb_table db3 = kv_replay [KvPut [1] [2]])"
proof -
  obtain db os where h: "rdb_history ''d'' 1 [KvPut [1] [2]] db os" "length (log (rdb_raft db)) = 2"
    using demo_history by blast
  obtain s db' os1 where w: "rdb_write db (KvDelete [1]) (os\<lparr>os_script := [Proceed 3, Fails EIO]\<rparr>) = (s, db', os1)"
    by (metis prod_cases3)
  have "cmd_fits (KvDelete [1])" by (simp add: cmd_fits_def EncodeCommand_def Let_def kPut_def kDelete_def)
  from ReplicatedDB_acknowledged_writes_survive [OF h(1) this _ w conjunct1 [OF crash_spared] conjunct2 [OF crash_spared]]
  have "\<exists>db3 os3. ReplicatedDB_Open ''d'' 1 [1] (spared os1) = Some (OK, Some db3, os3) \<and>
     (rdb_table db3 = kv_replay ([KvPut [1] [2]] @ [KvDelete [1]]) \<or> \<not> ok s \<and> rdb_table db3 = kv_replay [KvPut [1] [2]])"
    by (simp add: h(2))
  with h(1) w show ?thesis by blast
qed

text \<open>
  \<^bold>\<open>C28\<close> Progress. On such a node, with no call of the operating system failing, every write
  returns OK, and the next reads see it: the key has the new value, or is not found after a
  delete, and every other key reads as before.
\<close>

theorem ReplicatedDB_writes_succeed:
  assumes "rdb_history dir nid ops db os" "calm os" "cmd_fits op" "Suc (length (log (rdb_raft db))) < 2 ^ 64"
  shows "\<exists>db' os'. rdb_write db op os = (OK, db', os') \<and>
    (\<forall>k. ReplicatedDB_Get db' k = (case kv_effect op k of
       None \<Rightarrow> ReplicatedDB_Get db k | Some None \<Rightarrow> (NotFound (text_of k), None) | Some (Some v) \<Rightarrow> (OK, Some v)))"
proof -
  note ok = rdb_history_ok [OF assms(1)]
  from alone_write_calm [OF ok assms(2), of op] obtain db' os' where w: "rdb_write db op os = (OK, db', os')" by blast
  then have "rdb_write db op (os\<lparr>os_script := os_script os\<rparr>) = (OK, db', os')" by simp
  from alone_write [OF ok assms(3,4) this] have "rdb_table db' = kv_apply (rdb_table db) op"
    using ok by (simp add: alone_ok_def kv_replay_snoc)
  with w show ?thesis
    by (intro exI [of _ db'] exI [of _ os'])
       (auto simp: ReplicatedDB_Get_def kv_apply_effect split: option.splits)
qed

theorem ReplicatedDB_writes_succeed_witness:
  "\<exists>db os db' os'. rdb_history ''d'' 1 [KvPut [1] [2]] db os \<and> rdb_write db (KvDelete [1]) os = (OK, db', os') \<and>
    ReplicatedDB_Get db' [1] = (NotFound (text_of [1]), None)"
proof -
  obtain db os where h: "rdb_history ''d'' 1 [KvPut [1] [2]] db os" "calm os" "length (log (rdb_raft db)) = 2"
    using demo_history by blast
  have "cmd_fits (KvDelete [1])" by (simp add: cmd_fits_def EncodeCommand_def Let_def kPut_def kDelete_def)
  from ReplicatedDB_writes_succeed [OF h(1,2) this] h(3) obtain db' os' where
    "rdb_write db (KvDelete [1]) os = (OK, db', os')"
    "ReplicatedDB_Get db' [1] = (case kv_effect (KvDelete [1]) [1] of None \<Rightarrow> ReplicatedDB_Get db [1]
       | Some None \<Rightarrow> (NotFound (text_of [1]), None) | Some (Some v) \<Rightarrow> (OK, Some v))" by auto
  with h(1) show ?thesis by auto
qed

text \<open>
  \<^bold>\<open>C29\<close> The election loop of \<^verbatim>\<open>Open\<close> ends: a node alone in its cluster becomes leader,
  whatever its role, its timeouts and its clock, after at most as many ticks as its timeout
  asks for.
\<close>

theorem ReplicatedDB_election_ends:
  assumes "length (peers (config r)) = 1"
  shows "\<exists>r'. elect r = Some r' \<and> role r' = kLeader"
  by (rule elect_alone [OF assms])

theorem ReplicatedDB_election_ends_witness:
  "\<exists>r'. elect (Raft_new \<lparr>cfg_id = 4, peers = [4], election_timeout = 10, heartbeat_timeout = 1\<rparr>) = Some r' \<and>
     role r' = kLeader"
  by (rule ReplicatedDB_election_ends) (simp add: Raft_new_def)

text \<open>
  \<^bold>\<open>C30\<close> Errors. A write on a node that is not the leader returns InvalidArgument and does nothing,
  to the database and to the disk; a write on a leader returns OK, or no read sees a difference.
\<close>

theorem ReplicatedDB_failed_write_invisible:
  "(case ReplicatedDB_Put db key value os of (s, db', os') \<Rightarrow>
      if is_leader db then s = OK \<or> ReplicatedDB_Get db' k = ReplicatedDB_Get db k
      else s = InvalidArgument ''not leader'' \<and> db' = db \<and> os' = os) \<and>
   (case ReplicatedDB_Delete db key os of (s, db', os') \<Rightarrow>
      if is_leader db then s = OK \<or> ReplicatedDB_Get db' k = ReplicatedDB_Get db k
      else s = InvalidArgument ''not leader'' \<and> db' = db \<and> os' = os)"
  by (simp add: ReplicatedDB_Put_def ReplicatedDB_Delete_def ReplicatedDB_Sync_def ReplicatedDB_Get_def Let_def
      split: prod.splits)

text \<open>
  \<^bold>\<open>C31\<close> The command format is that of the database's write-ahead log, byte for byte, as
  replicated_db.cc says: both encoders give the same bytes, both decoders accept the same
  records, and applying a command is what the replay of the log does with it.
\<close>

theorem EncodeCommand_is_EncodeRecord:
  "EncodeCommand type key value = EncodeRecord type key value \<and> DecodeCommand record = DecodeRecord record \<and>
   apply_command t record = ReplayBody t record"
  by (simp add: EncodeCommand_record DecodeCommand_record apply_command_body)

end
