(* ===== verification/Replicated_Cluster.thy ===== *)
theory Replicated_Cluster
  imports Replicated_Db
begin

section \<open>Clusters of replicated databases\<close>

text \<open>
  Several nodes of ReplicatedDB, driven as replicated_db.h describes: a message, a tick or a
  command goes into the Raft core of a node (\<^verbatim>\<open>raft()\<close>), then \<^verbatim>\<open>Sync\<close> saves and applies,
  and then the messages go out. A write of a client is the case of a proposal. Underneath, this
  is the durable cluster; here the tables are added.

  A node can lose power and open again. What it then shows is not claimed: \<^verbatim>\<open>Open\<close> applies
  every recovered entry of a node in a larger cluster, committed or not, which replicated_db.cc
  notes as out of its scope. \<open>unbroken\<close> is the set of the nodes that have not restarted yet.
\<close>

record rcluster =
  rdb :: "NodeId \<Rightarrow> ReplicatedDB"
  ros :: "NodeId \<Rightarrow> os_state"
  rwire :: "Message set"
  unbroken :: "NodeId set"

definition as_durable :: "rcluster \<Rightarrow> dcluster" where
  "as_durable S = \<lparr>dn = (\<lambda>n. \<lparr>dn_raft = rdb_raft (rdb S n), dn_store = rdb_storage (rdb S n), dn_os = ros S n\<rparr>),
     wire = rwire S\<rparr>"

inductive replicated_step ::
  "(NodeId \<Rightarrow> NodeId list) \<Rightarrow> NodeId set \<Rightarrow> (NodeId \<Rightarrow> string) \<Rightarrow> bytes set \<Rightarrow> rcluster \<Rightarrow> rcluster \<Rightarrow> bool"
  for ps M dir D where
  sync: "n \<in> M \<Longrightarrow> handles D (rwire S) n (rdb_raft (rdb S n)) r \<Longrightarrow>
    ReplicatedDB_Sync ((rdb S n)\<lparr>rdb_raft := r\<rparr>) ((ros S n)\<lparr>os_script := sc\<rparr>) = (OK, db', os') \<Longrightarrow>
    TakeMessages (rdb_raft db') = (msgs, r') \<Longrightarrow>
    replicated_step ps M dir D S
      (S\<lparr>rdb := (rdb S)(n := db'\<lparr>rdb_raft := r'\<rparr>), ros := (ros S)(n := os'), rwire := rwire S \<union> set msgs\<rparr>)"
| interrupted: "n \<in> M \<Longrightarrow> handles D (rwire S) n (rdb_raft (rdb S n)) r \<Longrightarrow>
    ReplicatedDB_Sync ((rdb S n)\<lparr>rdb_raft := r\<rparr>) ((ros S n)\<lparr>os_script := sc\<rparr>) = (s, db1, os1) \<Longrightarrow>
    crash os1 os \<Longrightarrow> calm os \<Longrightarrow> whole_file (raft_file (dir n)) os \<Longrightarrow>
    ReplicatedDB_Open (dir n) n (ps n) os = Some (OK, Some db', os') \<Longrightarrow>
    replicated_step ps M dir D S
      (S\<lparr>rdb := (rdb S)(n := db'), ros := (ros S)(n := os'), unbroken := unbroken S - {n}\<rparr>)"
| restart: "n \<in> M \<Longrightarrow> crash (ros S n) os \<Longrightarrow> calm os \<Longrightarrow>
    ReplicatedDB_Open (dir n) n (ps n) os = Some (OK, Some db', os') \<Longrightarrow>
    replicated_step ps M dir D S
      (S\<lparr>rdb := (rdb S)(n := db'), ros := (ros S)(n := os'), unbroken := unbroken S - {n}\<rparr>)"

inductive replicated_reachable ::
  "(NodeId \<Rightarrow> NodeId list) \<Rightarrow> NodeId set \<Rightarrow> (NodeId \<Rightarrow> string) \<Rightarrow> bytes set \<Rightarrow> rcluster \<Rightarrow> bool"
  for ps M dir D where
  start: "(\<And>n. n \<in> M \<Longrightarrow> blank_disk (raft_file (dir n)) (os n) \<and>
      ReplicatedDB_Open (dir n) n (ps n) (os n) = Some (OK, Some (f n), os' n)) \<Longrightarrow>
    replicated_reachable ps M dir D \<lparr>rdb = f, ros = os', rwire = {}, unbroken = M\<rparr>"
| step: "replicated_reachable ps M dir D S \<Longrightarrow> replicated_step ps M dir D S S' \<Longrightarrow>
    replicated_reachable ps M dir D S'"

text \<open>The table of the first \<open>k\<close> commands of a log.\<close>

definition kv_state :: "LogEntry list \<Rightarrow> nat \<Rightarrow> kv" where
  "kv_state l k = foldl apply_command Map.empty (map le_data (take k (tl l)))"

text \<open>A cluster of more than one node, known to each.\<close>

definition members :: "(NodeId \<Rightarrow> NodeId list) \<Rightarrow> NodeId set \<Rightarrow> bool" where
  "members ps M \<longleftrightarrow> membership (\<lambda>n. node_config n (ps n)) M \<and> (\<forall>n\<in>M. length (ps n) \<noteq> 1)"


subsection \<open>The commit index of a node in a cluster\<close>

lemma handles_commit:
  assumes h: "handles D (net C) n r r'" and mem: "membership cfg M" "cluster_reachable cfg M C" and st: "stable_within r"
  shows "commit_index r \<le> commit_index r'"
proof -
  obtain s where sim: "sim cfg M C s" using cluster_refines [OF mem] by blast
  have wf: "wf_append m \<and> wf_commit m" if "m \<in> net C" "msg_type m = kAppendEntries" for m
  proof -
    have "append_ok s m" using sim that by (auto simp: sim_def msg_ok_def)
    then show ?thesis by (auto simp: append_ok_def wf_append_def wf_commit_def Let_def)
  qed
  show ?thesis
    using h
  proof cases
    case (deliver m)
    then show ?thesis using Step_commit [OF st] wf by simp
  qed (simp_all add: Tick_commit Propose_commit TakeCommitted_def)
qed


subsection \<open>The cluster of databases is a durable cluster\<close>

lemma Open_start:
  assumes "length ps \<noteq> 1" "start_node (node_config nid ps) (raft_file dir) os = Some d"
    and "ReplicatedDB_Open dir nid ps os = Some (OK, Some db, os')"
  shows "rdb_raft db = dn_raft d \<and> rdb_storage db = dn_store d \<and> os' = dn_os d \<and>
    rdb_table db = foldl apply_command Map.empty (map le_data (tl (log (dn_raft d)))) \<and>
    (tl (log (dn_raft d)) = [] \<longrightarrow> applied_index db = 0)"
  using assms
  by (auto simp: start_node_def ReplicatedDB_Open_def raft_file_def RaftStorage_Recover_def recovered_db_def
      Restore_def Raft_new_def Let_def foldl_map split: option.splits prod.splits)

lemma Open_started:
  assumes "length ps \<noteq> 1" "ReplicatedDB_Open dir nid ps os = Some (OK, Some db, os')"
  shows "\<exists>d. start_node (node_config nid ps) (raft_file dir) os = Some d \<and>
    d = \<lparr>dn_raft = rdb_raft db, dn_store = rdb_storage db, dn_os = os'\<rparr>"
  using assms
  by (auto simp: start_node_def ReplicatedDB_Open_def raft_file_def RaftStorage_Recover_def recovered_db_def
      Let_def split: option.splits prod.splits if_splits)

lemma as_durable_node: "dn (as_durable S) n = \<lparr>dn_raft = rdb_raft (rdb S n), dn_store = rdb_storage (rdb S n), dn_os = ros S n\<rparr>"
  by (simp add: as_durable_def)

lemma as_durable_start:
  assumes "\<And>n. n \<in> M \<Longrightarrow> blank_disk (raft_file (dir n)) (os n) \<and>
      ReplicatedDB_Open (dir n) n (ps n) (os n) = Some (OK, Some (f n), os' n)"
    and "members ps M"
  shows "durable_reachable (\<lambda>n. node_config n (ps n)) M (raft_file \<circ> dir) D
      (as_durable \<lparr>rdb = f, ros = os', rwire = {}, unbroken = U\<rparr>)"
    "n \<in> M \<Longrightarrow> rdb_raft (f n) = Raft_new (node_config n (ps n)) \<and> rdb_table (f n) = Map.empty \<and> applied_index (f n) = 0"
proof -
  let ?cfg = "\<lambda>n. node_config n (ps n)"
  have o: "\<exists>d. start_node (?cfg n) (raft_file (dir n)) (os n) = Some d \<and> dn_raft d = Raft_new (?cfg n) \<and>
      d = \<lparr>dn_raft = rdb_raft (f n), dn_store = rdb_storage (f n), dn_os = os' n\<rparr> \<and>
      rdb_table (f n) = Map.empty \<and> applied_index (f n) = 0" if n: "n \<in> M" for n
  proof -
    from assms(1) [OF n] have b: "blank_disk (raft_file (dir n)) (os n)"
      "ReplicatedDB_Open (dir n) n (ps n) (os n) = Some (OK, Some (f n), os' n)" by auto
    from blank_disk_starts [OF b(1), of "?cfg n"] obtain d where
      d: "start_node (?cfg n) (raft_file (dir n)) (os n) = Some d" "dn_raft d = Raft_new (?cfg n)" by blast
    have "length (ps n) \<noteq> 1" using assms(2) n by (simp add: members_def)
    from Open_start [OF this d(1) b(2)] d show ?thesis by (cases d) (simp add: Raft_new_def)
  qed
  show "durable_reachable ?cfg M (raft_file \<circ> dir) D (as_durable \<lparr>rdb = f, ros = os', rwire = {}, unbroken = U\<rparr>)"
    unfolding as_durable_def using assms(1) o by (auto intro!: durable_reachable.start [of _ _ os])
  show "n \<in> M \<Longrightarrow> rdb_raft (f n) = Raft_new (?cfg n) \<and> rdb_table (f n) = Map.empty \<and> applied_index (f n) = 0"
    using o by fastforce
qed

lemma ReplicatedDB_Sync_cases:
  assumes "ReplicatedDB_Sync db os = (OK, db', os')"
  obtains st' r' where "Save (rdb_storage db) (rdb_raft db) os = (OK, st', r', os')"
    "db' = ApplyCommitted (db\<lparr>rdb_storage := st', rdb_raft := r'\<rparr>)"
  using assms Save_status that by (fastforce simp: ReplicatedDB_Sync_def Let_def split: prod.splits if_splits)

lemma as_durable_step:
  assumes "replicated_step ps M dir D S S'" "members ps M" "\<forall>d\<in>D. length d < 2 ^ 32"
    and reach: "durable_reachable (\<lambda>n. node_config n (ps n)) M (raft_file \<circ> dir) D (as_durable S)"
  shows "durable_step (\<lambda>n. node_config n (ps n)) M (raft_file \<circ> dir) D (as_durable S) (as_durable S')"
  using assms(1)
proof cases
  case (sync n r sc db' os' msgs r')
  obtain st' r1 where sv: "Save (rdb_storage (rdb S n)) r ((ros S n)\<lparr>os_script := sc\<rparr>) = (OK, st', r1, os')"
    and db': "db' = ApplyCommitted ((rdb S n)\<lparr>rdb_raft := r, rdb_storage := st', rdb_raft := r1\<rparr>)"
    using ReplicatedDB_Sync_cases [OF sync(4)] by auto
  have h: "handles D (wire (as_durable S)) n (dn_raft (dn (as_durable S) n)) r"
    and sv': "Save (dn_store (dn (as_durable S) n)) r ((dn_os (dn (as_durable S) n))\<lparr>os_script := sc\<rparr>) = (OK, st', r1, os')"
    and tm: "TakeMessages r1 = (msgs, r')"
    using sync(3,5) sv by (simp_all add: as_durable_def db' ApplyCommitted_def)
  have "as_durable S' = (as_durable S)\<lparr>dn := (dn (as_durable S))(n := \<lparr>dn_raft = r', dn_store = st', dn_os = os'\<rparr>),
      wire := wire (as_durable S) \<union> set msgs\<rparr>"
    by (auto simp: sync(1) as_durable_def db' ApplyCommitted_def)
  with durable_step.work [OF sync(2) h sv' tm] show ?thesis by simp
next
  case (interrupted n r sc s db1 os1 os db' os')
  let ?d = "dn (as_durable S) n" and ?cfg = "node_config n (ps n)"
  obtain st' r1 where sv: "Save (dn_store ?d) r ((dn_os ?d)\<lparr>os_script := sc\<rparr>) = (s, st', r1, os1)"
    using interrupted(4) Save_status
    by (fastforce simp: ReplicatedDB_Sync_def as_durable_def Let_def split: prod.splits if_splits)
  have h: "handles D (wire (as_durable S)) n (dn_raft ?d) r" using interrupted(3) by (simp add: as_durable_def)
  have wh: "whole_file ((raft_file \<circ> dir) n) os" using interrupted(7) by simp
  from Open_started [OF _ interrupted(8)] assms(2) interrupted(2) obtain d' where
    d': "start_node ?cfg (raft_file (dir n)) os = Some d'"
      "d' = \<lparr>dn_raft = rdb_raft db', dn_store = rdb_storage db', dn_os = os'\<rparr>"
    by (auto simp: members_def)
  then have "as_durable S' = (as_durable S)\<lparr>dn := (dn (as_durable S))(n := d')\<rparr>"
    by (auto simp: interrupted(1) as_durable_def)
  with durable_step.interrupted [where path = "raft_file \<circ> dir" and cfg = "\<lambda>n. node_config n (ps n)",
      OF interrupted(2) h sv interrupted(5,6) wh, of d'] d'
  show ?thesis by simp
next
  case (restart n os db' os')
  let ?d = "dn (as_durable S) n" and ?cfg = "node_config n (ps n)"
  have cr: "crash (dn_os ?d) os" using restart(3) by (simp add: as_durable_def)
  from Open_started [OF _ restart(5)] assms(2) restart(2) obtain d' where
    d': "start_node ?cfg (raft_file (dir n)) os = Some d'"
      "d' = \<lparr>dn_raft = rdb_raft db', dn_store = rdb_storage db', dn_os = os'\<rparr>"
    by (auto simp: members_def)
  then have "as_durable S' = (as_durable S)\<lparr>dn := (dn (as_durable S))(n := d')\<rparr>"
    by (auto simp: restart(1) as_durable_def)
  with durable_step.power_failure [OF restart(2) cr restart(4), of "\<lambda>n. node_config n (ps n)" "raft_file \<circ> dir" d' D] d'
  show ?thesis by simp
qed


subsection \<open>The tables\<close>

definition tables_ok :: "rcluster \<Rightarrow> bool" where
  "tables_ok S \<longleftrightarrow> (\<forall>n\<in>unbroken S. applied_index (rdb S n) = commit_index (rdb_raft (rdb S n)) \<and>
     rdb_table (rdb S n) = kv_state (log (rdb_raft (rdb S n))) (unat (commit_index (rdb_raft (rdb S n)))))"

lemma kv_state_extend:
  assumes "take (Suc c) l = take (Suc c) l'" "c \<le> c'"
  shows "foldl apply_command (kv_state l c) (map le_data (drop c (take c' (tl l')))) = kv_state l' c'"
proof -
  have t: "take c (tl l) = take c (tl l')"
    using assms(1) tl_take [of "Suc c" l] tl_take [of "Suc c" l'] by simp
  have "take c' (tl l') = take c (tl l') @ drop c (take c' (tl l'))"
    using append_take_drop_id [of c "take c' (tl l')"] assms(2) by (simp add: min_absorb1)
  from arg_cong [OF this, of "map le_data"]
  have "map le_data (take c' (tl l')) = map le_data (take c (tl l')) @ map le_data (drop c (take c' (tl l')))"
    by (simp only: map_append)
  then show ?thesis by (simp only: kv_state_def t foldl_append)
qed

lemma tables_ok_step:
  assumes step: "replicated_step ps M dir D S S'" and mem: "members ps M" and D: "\<forall>d\<in>D. length d < 2 ^ 32"
    and reach: "durable_reachable (\<lambda>n. node_config n (ps n)) M (raft_file \<circ> dir) D (as_durable S)"
    and inv: "tables_ok S"
  shows "tables_ok S'"
  using step
proof cases
  case (sync n r sc db' os' msgs r')
  let ?cfg = "\<lambda>n. node_config n (ps n)" and ?db = "rdb S n"
  let ?C = "cores ?cfg M (as_durable S)" and ?C' = "cores ?cfg M (as_durable S')"
  have m: "membership ?cfg M" using mem by (simp add: members_def)
  note dinv = durable_inv_reachable [OF D m reach] and dstep = as_durable_step [OF step mem D reach]
  have C: "cluster_reachable ?cfg M ?C" "(cluster_step ?cfg M)\<^sup>*\<^sup>* ?C ?C'" "cluster_reachable ?cfg M ?C'"
    using durable_inv_step [OF D m dinv dstep] dinv by (simp_all add: durable_inv_def)
  obtain st' r1 where sv: "Save (rdb_storage ?db) r ((ros S n)\<lparr>os_script := sc\<rparr>) = (OK, st', r1, os')"
    and db': "db' = ApplyCommitted (?db\<lparr>rdb_raft := r, rdb_storage := st', rdb_raft := r1\<rparr>)"
    using ReplicatedDB_Sync_cases [OF sync(4)] by auto
  have r': "r' = r1\<lparr>out_msgs := []\<rparr>" using sync(5) by (auto simp: db' ApplyCommitted_def TakeMessages_def)
  have n0: "node ?C n = rdb_raft ?db" "net ?C = rwire S" using sync(2) by (simp_all add: cores_def as_durable_def)
  have n1: "node ?C' n = r'" using sync(2) by (simp add: cores_def as_durable_def sync(1))
  have h: "handles D (wire (as_durable S)) n (dn_raft (dn (as_durable S) n)) r" using sync(3) by (simp add: as_durable_def)
  note hd = durable_handles [OF D m dinv sync(2) h]
  have sv': "Save (dn_store (dn (as_durable S) n)) r ((dn_os (dn (as_durable S) n))\<lparr>os_script := sc\<rparr>) = (OK, st', r1, os')"
    using sv by (simp add: as_durable_def)
  note r1 = node_ok_work(1) [OF hd(2-5) sv']
  have "stable_within (rdb_raft ?db)" using node_ok_log [OF hd(2)] by (simp add: as_durable_def)
  then have up: "commit_index (rdb_raft ?db) \<le> commit_index r1"
    using handles_commit [OF _ m C(1), of D n "rdb_raft ?db" r] sync(3) n0(2) r1 by simp
  have "take (Suc (unat (commit_index (rdb_raft ?db)))) (log (node ?C n)) =
      take (Suc (unat (commit_index (rdb_raft ?db)))) (log (node ?C' n))"
    using up n0(1) n1 r' by (intro committed_prefixes_agree [OF m C(1,2) sync(2,2)]) simp_all
  then have pre: "take (Suc (unat (commit_index (rdb_raft ?db)))) (log (rdb_raft ?db)) =
      take (Suc (unat (commit_index (rdb_raft ?db)))) (log r1)" using n0(1) n1 r' by simp
  have bound: "commit_index r1 \<le> LastIndex r1" "log_ok (log r1)"
    using node_commit_bound [OF m C(3) sync(2)] n1 r' by (simp_all add: LastIndex_def)
  have "applied_index db' = commit_index r1" by (simp add: db' ApplyCommitted_def)
  moreover have "rdb_table db' = kv_state (log r1) (unat (commit_index r1))" if "n \<in> unbroken S"
  proof -
    have a: "applied_index ?db = commit_index (rdb_raft ?db)"
      "rdb_table ?db = kv_state (log (rdb_raft ?db)) (unat (commit_index (rdb_raft ?db)))"
      using inv that by (simp_all add: tables_ok_def)
    have "Suc (unat (commit_index (rdb_raft ?db))) < 2 ^ 64"
      using index_less [OF bound(2,1)] log_ok_length(2) [OF bound(2)] up by (simp add: word_le_nat_alt)
    then show ?thesis
      unfolding db' using bound a kv_state_extend [OF pre] up
      by (subst ApplyCommitted_table) (simp_all add: word_le_nat_alt)
  qed
  moreover have "rdb_raft db' = r1" by (simp add: db' ApplyCommitted_def)
  ultimately show ?thesis using inv by (auto simp: tables_ok_def sync(1) r')
next
  case (interrupted n r sc s db1 os1 os db' os')
  then show ?thesis using inv by (auto simp: tables_ok_def)
next
  case (restart n os db' os')
  then show ?thesis using inv by (auto simp: tables_ok_def)
qed

lemma replicated_inv:
  assumes "replicated_reachable ps M dir D S" "members ps M" "\<forall>d\<in>D. length d < 2 ^ 32"
  shows "durable_reachable (\<lambda>n. node_config n (ps n)) M (raft_file \<circ> dir) D (as_durable S) \<and> tables_ok S \<and> unbroken S \<subseteq> M"
  using assms(1)
proof induction
  case (start os f os')
  have t: "tables_ok \<lparr>rdb = f, ros = os', rwire = {}, unbroken = M\<rparr>"
    using as_durable_start(2) [OF start assms(2)] by (auto simp: tables_ok_def kv_state_def Raft_new_def)
  show ?case by (intro conjI as_durable_start(1) [OF start assms(2)] t) simp_all
next
  case (step S S')
  then have i: "durable_reachable (\<lambda>n. node_config n (ps n)) M (raft_file \<circ> dir) D (as_durable S)" "tables_ok S" "unbroken S \<subseteq> M"
    by blast+
  have "unbroken S' \<subseteq> M" using step.hyps(2) i(3) by cases auto
  with as_durable_step [OF step.hyps(2) assms(2,3) i(1)] tables_ok_step [OF step.hyps(2) assms(2,3) i(1,2)]
    durable_reachable.step [OF i(1)] show ?case by blast
qed

lemma replicated_steps_durable:
  assumes "(replicated_step ps M dir D)\<^sup>*\<^sup>* S S'" "members ps M" "\<forall>d\<in>D. length d < 2 ^ 32" "replicated_reachable ps M dir D S"
  shows "replicated_reachable ps M dir D S' \<and>
    (cluster_step (\<lambda>n. node_config n (ps n)) M)\<^sup>*\<^sup>* (cores (\<lambda>n. node_config n (ps n)) M (as_durable S))
      (cores (\<lambda>n. node_config n (ps n)) M (as_durable S'))"
  using assms(1)
proof induction
  case base
  show ?case using assms(4) by blast
next
  case (step S1 S2)
  let ?cfg = "\<lambda>n. node_config n (ps n)"
  have m: "membership ?cfg M" using assms(2) by (simp add: members_def)
  have r: "replicated_reachable ps M dir D S1"
    "durable_reachable ?cfg M (raft_file \<circ> dir) D (as_durable S1)"
    using step.IH replicated_inv [OF _ assms(2,3)] by blast+
  from durable_inv_step [OF assms(3) m durable_inv_reachable [OF assms(3) m r(2)]
      as_durable_step [OF step.hyps(2) assms(2,3) r(2)]] step.IH
    replicated_reachable.step [OF r(1) step.hyps(2)] show ?case by (meson rtranclp_trans)
qed


subsection \<open>A run\<close>

text \<open>
  Schedules as for the clusters of cores, with every call into a core followed by its \<open>Sync\<close>, and
  with restarts on a disk that has kept everything. The storage has no part in what such a run does
  to the cores, the tables and the network, so the run is on these alone.
\<close>

definition synced :: "Raft \<Rightarrow> Raft" where
  "synced r = r\<lparr>hard_state_dirty := False, stable_index := LastIndex r\<rparr>"

definition sync_node :: "ReplicatedDB \<Rightarrow> Raft \<Rightarrow> ReplicatedDB" where
  "sync_node db r = (ApplyCommitted (db\<lparr>rdb_raft := synced r\<rparr>))\<lparr>rdb_raft := (synced r)\<lparr>out_msgs := []\<rparr>\<rparr>"

definition reopened :: "NodeId list \<Rightarrow> NodeId \<Rightarrow> ReplicatedDB \<Rightarrow> ReplicatedDB" where
  "reopened ps n db = recovered_db (node_config n ps) (rdb_storage db)
     \<lparr>hs_term = current_term (rdb_raft db), hs_vote = voted_for (rdb_raft db)\<rparr> (tl (log (rdb_raft db)))"

type_synonym rrun = "(NodeId \<Rightarrow> ReplicatedDB) \<times> Message list \<times> NodeId list"

fun sync_post :: "rrun \<Rightarrow> NodeId \<Rightarrow> Raft \<Rightarrow> rrun" where
  "sync_post (g, msgs, up) n r = (g(n := sync_node (g n) r), msgs @ out_msgs r, up)"

fun sync_act :: "NodeId list \<Rightarrow> rrun \<Rightarrow> action \<Rightarrow> rrun" where
  "sync_act M (g, msgs, up) (DoTick n) =
     (if n \<in> set M \<and> current_term (rdb_raft (g n)) < 100 then sync_post (g, msgs, up) n (Tick (rdb_raft (g n)))
      else (g, msgs, up))"
| "sync_act M (g, msgs, up) (DoDeliver k) =
     (if k < length msgs \<and> msg_to (msgs ! k) \<in> set M
      then sync_post (g, msgs, up) (msg_to (msgs ! k)) (Step (rdb_raft (g (msg_to (msgs ! k)))) (msgs ! k))
      else (g, msgs, up))"
| "sync_act M (g, msgs, up) (DoPropose n d) =
     (if n \<in> set M \<and> length (log (rdb_raft (g n))) < 10
      then sync_post (g, msgs, up) n (snd (Propose (rdb_raft (g n)) d)) else (g, msgs, up))"
| "sync_act M (g, msgs, up) (DoRestart n) =
     (if n \<in> set M then (g(n := reopened M n (g n)), msgs, removeAll n up) else (g, msgs, up))"

fun in_step :: "NodeId list \<Rightarrow> rcluster \<Rightarrow> rrun \<Rightarrow> bool" where
  "in_step M S (g, msgs, up) \<longleftrightarrow> (\<forall>n\<in>set M. rdb S n = (g n)\<lparr>rdb_storage := rdb_storage (rdb S n)\<rparr>) \<and>
     rwire S = set msgs \<and> unbroken S = set up"

lemma in_step_raft: "in_step M S (g, msgs, up) \<Longrightarrow> n \<in> set M \<Longrightarrow> rdb_raft (rdb S n) = rdb_raft (g n)"
  by (simp, metis ReplicatedDB.select_convs(1) ReplicatedDB.surjective ReplicatedDB.update_convs(2))

text \<open>Where no call of the operating system fails, every turn is synced.\<close>

lemma sync_calm:
  assumes D: "\<forall>d\<in>D. length d < 2 ^ 32" and mem: "members ps M" and reach: "replicated_reachable ps M dir D S"
    and n: "n \<in> M" "handles D (rwire S) n (rdb_raft (rdb S n)) r"
  shows "\<exists>st' os'. ReplicatedDB_Sync ((rdb S n)\<lparr>rdb_raft := r\<rparr>) ((ros S n)\<lparr>os_script := []\<rparr>) =
    (OK, ApplyCommitted ((rdb S n)\<lparr>rdb_storage := st', rdb_raft := synced r\<rparr>), os')"
proof -
  let ?cfg = "\<lambda>n. node_config n (ps n)" and ?os = "(ros S n)\<lparr>os_script := []\<rparr>" and ?st = "rdb_storage (rdb S n)"
  have m: "membership ?cfg M" using mem by (simp add: members_def)
  have dr: "durable_reachable ?cfg M (raft_file \<circ> dir) D (as_durable S)" using replicated_inv [OF reach mem D] by blast
  have "handles D (wire (as_durable S)) n (dn_raft (dn (as_durable S) n)) r" using n by (simp add: as_durable_def)
  note hd = durable_handles [OF D m durable_inv_reachable [OF D m dr] n(1) this]
  have "posix_opened (rs_file ?st, ?os)" "writer_ok (rs_writer ?st)"
    using hd(2) by (auto simp: node_ok_def as_durable_def store_inv_def store_written_def posix_opened_def)
  moreover have "calm ?os" by (simp add: calm_def)
  ultimately obtain st' os' where "Save ?st r ?os = (OK, st', synced r, os')"
    using Save_calm [of ?st ?os r] by (auto simp: synced_def)
  then show ?thesis by (auto simp: ReplicatedDB_Sync_def)
qed

lemma replicated_progress:
  assumes D: "\<forall>d\<in>D. length d < 2 ^ 32" and mem: "members ps (set M)" and reach: "replicated_reachable ps (set M) dir D S"
    and x: "in_step M S (g, msgs, up)" and n: "n \<in> set M" "handles D (set msgs) n (rdb_raft (g n)) r"
  shows "\<exists>S'. replicated_reachable ps (set M) dir D S' \<and> in_step M S' (sync_post (g, msgs, up) n r)"
proof -
  have db: "rdb S n = (g n)\<lparr>rdb_storage := rdb_storage (rdb S n)\<rparr>" using x n(1) by simp
  have h: "handles D (rwire S) n (rdb_raft (rdb S n)) r" using n x in_step_raft [OF x n(1)] by simp
  from sync_calm [OF D mem reach n(1) h] obtain st' os' where
    sy: "ReplicatedDB_Sync ((rdb S n)\<lparr>rdb_raft := r\<rparr>) ((ros S n)\<lparr>os_script := []\<rparr>) =
      (OK, ApplyCommitted ((rdb S n)\<lparr>rdb_storage := st', rdb_raft := synced r\<rparr>), os')" by blast
  let ?db = "ApplyCommitted ((rdb S n)\<lparr>rdb_storage := st', rdb_raft := synced r\<rparr>)"
  have tm: "TakeMessages (rdb_raft ?db) = (out_msgs r, (synced r)\<lparr>out_msgs := []\<rparr>)"
    by (simp add: ApplyCommitted_def TakeMessages_def synced_def)
  let ?S = "S\<lparr>rdb := (rdb S)(n := ?db\<lparr>rdb_raft := (synced r)\<lparr>out_msgs := []\<rparr>\<rparr>), ros := (ros S)(n := os'), rwire := rwire S \<union> set (out_msgs r)\<rparr>"
  have "?db\<lparr>rdb_raft := (synced r)\<lparr>out_msgs := []\<rparr>\<rparr> = (sync_node (g n) r)\<lparr>rdb_storage := st'\<rparr>"
    by (subst db) (simp add: sync_node_def ApplyCommitted_def)
  then have "in_step M ?S (sync_post (g, msgs, up) n r)" using x by auto
  with replicated_reachable.step [OF reach replicated_step.sync [OF n(1) h sy tm]] show ?thesis by blast
qed

lemma replicated_reopen:
  assumes D: "\<forall>d\<in>D. length d < 2 ^ 32" and mem: "members ps (set M)" and reach: "replicated_reachable ps (set M) dir D S"
    and x: "in_step M S (g, msgs, up)" and n: "n \<in> set M" "ps n = M"
  shows "\<exists>S'. replicated_reachable ps (set M) dir D S' \<and> in_step M S' (sync_act M (g, msgs, up) (DoRestart n))"
proof -
  let ?cfg = "\<lambda>n. node_config n (ps n)" and ?os = "spared (ros S n)" and ?r = "rdb_raft (rdb S n)"
  have m: "membership ?cfg (set M)" and many: "length (ps n) \<noteq> 1" using mem n(1) by (simp_all add: members_def)
  have "durable_reachable ?cfg (set M) (raft_file \<circ> dir) D (as_durable S)" using replicated_inv [OF reach mem D] by blast
  from durable_inv_reachable [OF D m this] n(1)
  have ok: "node_ok (raft_file (dir n)) \<lparr>dn_raft = ?r, dn_store = rdb_storage (rdb S n), dn_os = ros S n\<rparr>"
    by (auto simp: durable_inv_def as_durable_def)
  from node_ok_crash [OF ok, of ?os "?cfg n"] crash_spared [of "ros S n"] obtain d where
    d: "start_node (?cfg n) (raft_file (dir n)) ?os = Some d" "dn_raft d = reboot (?cfg n) ?r" by auto
  then obtain s st os1 where st: "RaftStorage_Open (raft_file (dir n)) ?os = Some (s, Some st, os1)"
    "dn_raft d = Restore (Raft_new (?cfg n)) (hs_term (recovered_hs st)) (hs_vote (recovered_hs st)) (recovered_entries st)"
    by (auto simp: start_node_def RaftStorage_Recover_def split: option.splits)
  have "recovered_entries st = tl (log ?r)" "hs_term (recovered_hs st) = current_term ?r"
    "hs_vote (recovered_hs st) = voted_for ?r"
    using d(2) unfolding st(2) by (simp_all add: reboot_def Restore_def Raft_new_def Let_def)
  then have hs: "recovered_hs st = \<lparr>hs_term = current_term ?r, hs_vote = voted_for ?r\<rparr>" "recovered_entries st = tl (log ?r)"
    by (simp_all)
  let ?db = "recovered_db (?cfg n) st (recovered_hs st) (recovered_entries st)"
  have op: "ReplicatedDB_Open (dir n) n (ps n) ?os = Some (OK, Some ?db, os1)"
    using st(1) many by (simp add: ReplicatedDB_Open_def RaftStorage_Recover_def raft_file_def Let_def)
  let ?S = "S\<lparr>rdb := (rdb S)(n := ?db), ros := (ros S)(n := os1), unbroken := unbroken S - {n}\<rparr>"
  have "?db = (reopened M n (g n))\<lparr>rdb_storage := st\<rparr>"
    using hs in_step_raft [OF x n(1)] n(2) by (simp add: reopened_def recovered_db_def)
  then have "in_step M ?S (sync_act M (g, msgs, up) (DoRestart n))" using x n(1) by auto
  with replicated_reachable.step [OF reach replicated_step.restart [where dir = dir and ps = ps and S = S, OF n(1) conjunct1 [OF crash_spared]
      conjunct2 [OF crash_spared] op]] show ?thesis by blast
qed

lemma sync_act_reachable:
  assumes "\<forall>d\<in>D. length d < 2 ^ 32" "members ps (set M)" "replicated_reachable ps (set M) dir D S" "in_step M S x"
    and "\<And>n d. a = DoPropose n d \<Longrightarrow> d \<in> D" "\<And>n. ps n = M"
  shows "\<exists>S'. replicated_reachable ps (set M) dir D S' \<and> in_step M S' (sync_act M x a)"
proof (cases x)
  case (fields g msgs up)
  note progress = replicated_progress [OF assms(1-3) assms(4) [unfolded fields]]
  have stay: "\<exists>S'. replicated_reachable ps (set M) dir D S' \<and> in_step M S' (g, msgs, up)" using assms(3,4) fields by blast
  have t: "Suc (unat t) < 2 ^ 64" if "t < 100" for t :: u64 using that by (simp add: word_less_nat_alt)
  show ?thesis
  proof (cases a)
    case (DoTick n)
    with stay progress [OF _ handles.tick, of n] t show ?thesis by (simp add: fields del: sync_post.simps in_step.simps)
  next
    case (DoDeliver k)
    with stay progress [OF _ handles.deliver, of "msg_to (msgs ! k)" "msgs ! k"] show ?thesis
      by (simp add: fields del: sync_post.simps in_step.simps)
  next
    case (DoPropose n d)
    with stay progress [OF _ handles.propose, of n d] assms(5) show ?thesis
      by (simp add: fields del: sync_post.simps in_step.simps)
  next
    case (DoRestart n)
    with stay replicated_reopen [OF assms(1-3) assms(4) [unfolded fields] _ assms(6)] show ?thesis
      by (cases "n \<in> set M") (simp_all add: fields del: in_step.simps)
  qed
qed

lemma sync_run_reachable:
  assumes "\<forall>d\<in>D. length d < 2 ^ 32" "members ps (set M)" "replicated_reachable ps (set M) dir D S" "in_step M S x"
    and "\<And>n d. DoPropose n d \<in> set acts \<Longrightarrow> d \<in> D" "\<And>n. ps n = M"
  shows "\<exists>S'. replicated_reachable ps (set M) dir D S' \<and> in_step M S' (foldl (sync_act M) x acts)"
  using assms(5)
proof (induction acts rule: rev_induct)
  case Nil
  then show ?case using assms(3,4) by auto
next
  case (snoc a acts)
  then obtain S' where "replicated_reachable ps (set M) dir D S'" "in_step M S' (foldl (sync_act M) x acts)" by auto
  moreover have "\<And>n d. a = DoPropose n d \<Longrightarrow> d \<in> D" using snoc.prems by auto
  ultimately show ?case using sync_act_reachable [OF assms(1,2) _ _ _ assms(6), of dir S' _ a] by simp
qed

text \<open>
  Three nodes. In \<open>trio_run\<close> node 1 wins an election, a client puts a key, the command is replicated
  to node 2 and committed, and node 2 learns so. In \<open>split_run\<close> node 1 stores the command alone and
  restarts; nodes 2 and 3 elect node 2 and commit another command, and node 1 follows.
\<close>

definition trio :: "NodeId \<Rightarrow> NodeId list" where
  "trio n = [1, 2, 3]"

definition trio_dir :: "NodeId \<Rightarrow> string" where
  "trio_dir n = ''d''"

definition no_store :: RaftStorage where
  "no_store = \<lparr>rs_path = [], rs_file = \<lparr>pf_path = [], pf_fd = 0\<rparr>, rs_writer = \<lparr>block_offset = 0, type_crc = []\<rparr>,
     persisted_index = 0, recovered_hs = \<lparr>hs_term = 0, hs_vote = 0\<rparr>, recovered_entries = []\<rparr>"

definition trio_new :: "NodeId \<Rightarrow> ReplicatedDB" where
  "trio_new n = \<lparr>rdb_raft = Raft_new (node_config n [1, 2, 3]), rdb_storage = no_store, rdb_table = Map.empty, applied_index = 0\<rparr>"

definition trio_run :: rrun where
  "trio_run = foldl (sync_act [1, 2, 3]) (trio_new, [], [1, 2, 3])
     [DoTick 1, DoDeliver 0, DoDeliver 2, DoPropose 1 (command (KvPut [1] [2])), DoTick 1, DoDeliver 5, DoDeliver 7,
      DoTick 1, DoDeliver 8]"

definition split_run :: rrun where
  "split_run = foldl (sync_act [1, 2, 3]) (trio_new, [], [1, 2, 3])
     [DoTick 1, DoDeliver 0, DoDeliver 2, DoPropose 1 (command (KvPut [1] [2])), DoRestart 1,
      DoTick 2, DoDeliver 6, DoDeliver 7, DoPropose 2 (command (KvPut [3] [4])), DoTick 2, DoDeliver 11, DoDeliver 12,
      DoTick 2, DoDeliver 13]"

lemma trio_values:
  "commit_index (rdb_raft (fst trio_run 1)) = 1 \<and> commit_index (rdb_raft (fst trio_run 2)) = 1 \<and>
   map le_data (tl (log (rdb_raft (fst trio_run 1)))) = [command (KvPut [1] [2])] \<and> snd (snd trio_run) = [1, 2, 3]"
  by code_simp

lemma split_values:
  "applied_index (fst split_run 1) = 1 \<and> applied_index (fst split_run 2) = 1 \<and>
   commit_index (rdb_raft (fst split_run 1)) = 1 \<and> commit_index (rdb_raft (fst split_run 2)) = 1 \<and>
   log (rdb_raft (fst split_run 1)) = log (rdb_raft (fst split_run 2)) \<and>
   rdb_table (fst split_run 1) [1] = Some [2] \<and> rdb_table (fst split_run 1) [3] = None \<and>
   rdb_table (fst split_run 2) [1] = None \<and> rdb_table (fst split_run 2) [3] = Some [4]"
  by code_simp

lemma trio_members: "members trio (set [1, 2, 3])"
  by (auto simp: members_def membership_def node_config_def trio_def)

definition trio_commands :: "bytes set" where
  "trio_commands = {command (KvPut [1] [2]), command (KvPut [3] [4])}"

lemma trio_data: "\<forall>d\<in>trio_commands. length d < 2 ^ 32"
  by (simp add: trio_commands_def EncodeCommand_def Let_def kPut_def)

lemma trio_start:
  "\<exists>S. replicated_reachable trio (set [1, 2, 3]) trio_dir trio_commands S \<and> in_step [1, 2, 3] S (trio_new, [], [1, 2, 3])"
proof -
  have blank: "blank_disk (raft_file (trio_dir n)) fresh_os" for n
    using solo_blank by (simp add: raft_file_def trio_dir_def solo_path_def)
  have "\<exists>db os'. ReplicatedDB_Open (trio_dir n) n (trio n) fresh_os = Some (OK, Some db, os')" for n
  proof -
    from blank_disk_starts [OF blank, of "node_config n (trio n)"] obtain d where
      "start_node (node_config n (trio n)) (raft_file (trio_dir n)) fresh_os = Some d" by blast
    then obtain s st os1 where "RaftStorage_Open (trio_dir n @ ''/raft.log'') fresh_os = Some (s, Some st, os1)"
      by (auto simp: start_node_def raft_file_def split: option.splits)
    then show ?thesis by (simp add: ReplicatedDB_Open_def RaftStorage_Recover_def trio_def Let_def)
  qed
  then obtain f os' where op: "ReplicatedDB_Open (trio_dir n) n (trio n) fresh_os = Some (OK, Some (f n), os' n)" for n
    by metis
  let ?S = "\<lparr>rdb = f, ros = os', rwire = {}, unbroken = set [1, 2, 3]\<rparr>"
  have start: "\<And>n. n \<in> set [1, 2, 3] \<Longrightarrow> blank_disk (raft_file (trio_dir n)) fresh_os \<and>
      ReplicatedDB_Open (trio_dir n) n (trio n) fresh_os = Some (OK, Some (f n), os' n)" using blank op by blast
  have "replicated_reachable trio (set [1, 2, 3]) trio_dir trio_commands ?S"
    by (rule replicated_reachable.start [OF start])
  moreover have "in_step [1, 2, 3] ?S (trio_new, [], [1, 2, 3])"
    using as_durable_start(2) [OF start trio_members] by (simp add: trio_def trio_new_def)
  ultimately show ?thesis by blast
qed

lemma trio_reachable:
  "\<exists>S. replicated_reachable trio (set [1, 2, 3]) trio_dir trio_commands S \<and> in_step [1, 2, 3] S trio_run"
  "\<exists>S. replicated_reachable trio (set [1, 2, 3]) trio_dir trio_commands S \<and> in_step [1, 2, 3] S split_run"
proof -
  obtain S where S: "replicated_reachable trio (set [1, 2, 3]) trio_dir trio_commands S"
    "in_step [1, 2, 3] S (trio_new, [], [1, 2, 3])" using trio_start by blast
  note run = sync_run_reachable [OF trio_data trio_members S]
  show "\<exists>S. replicated_reachable trio (set [1, 2, 3]) trio_dir trio_commands S \<and> in_step [1, 2, 3] S trio_run"
    unfolding trio_run_def by (rule run) (auto simp: trio_commands_def trio_def)
  show "\<exists>S. replicated_reachable trio (set [1, 2, 3]) trio_dir trio_commands S \<and> in_step [1, 2, 3] S split_run"
    unfolding split_run_def by (rule run) (auto simp: trio_commands_def trio_def)
qed


subsection \<open>Properties\<close>

text \<open>
  \<^bold>\<open>C10\<close> State machine replication. In a cluster of replicated databases, over a network that
  loses, delays, reorders and duplicates messages and with nodes that lose power between their
  saves, or within one where whole records are left, and restart, take two nodes that have not restarted, one now and one any number of steps later. The table
  of either is the one the first commands of the log give, in their order, up to its applied
  index; where the first has applied no more than the second, its table is that of the
  second's own log up to there; and if both have applied equally much, they are equal.
\<close>

theorem Replicated_tables_agree:
  assumes "\<forall>d\<in>D. length d < 2 ^ 32" "members ps M" "replicated_reachable ps M dir D S"
    and "(replicated_step ps M dir D)\<^sup>*\<^sup>* S S'" "n \<in> unbroken S" "m \<in> unbroken S'"
    and "applied_index (rdb S n) \<le> applied_index (rdb S' m)"
  shows "rdb_table (rdb S n) = kv_state (log (rdb_raft (rdb S' m))) (unat (applied_index (rdb S n))) \<and>
    rdb_table (rdb S' m) = kv_state (log (rdb_raft (rdb S' m))) (unat (applied_index (rdb S' m))) \<and>
    (applied_index (rdb S n) = applied_index (rdb S' m) \<longrightarrow> rdb_table (rdb S n) = rdb_table (rdb S' m))"
proof -
  let ?cfg = "\<lambda>n. node_config n (ps n)" and ?a = "applied_index (rdb S n)"
  have mem: "membership ?cfg M" using assms(2) by (simp add: members_def)
  note steps = replicated_steps_durable [OF assms(4,2,1,3)]
  note i = replicated_inv [OF assms(3,2,1)] and i' = replicated_inv [OF conjunct1 [OF steps] assms(2,1)]
  have nm: "n \<in> M" "m \<in> M" using i i' assms(5,6) by blast+
  have a: "?a = commit_index (rdb_raft (rdb S n))" "applied_index (rdb S' m) = commit_index (rdb_raft (rdb S' m))"
    and t: "rdb_table (rdb S n) = kv_state (log (rdb_raft (rdb S n))) (unat ?a)"
      "rdb_table (rdb S' m) = kv_state (log (rdb_raft (rdb S' m))) (unat (applied_index (rdb S' m)))"
    using i i' assms(5,6) by (simp_all add: tables_ok_def)
  have "cluster_reachable ?cfg M (cores ?cfg M (as_durable S))"
    using durable_inv_reachable [OF assms(1) mem conjunct1 [OF i]] by (simp add: durable_inv_def)
  from committed_prefixes_agree [OF mem this conjunct2 [OF steps] nm, of ?a] a assms(7) nm
  have "take (Suc (unat ?a)) (log (rdb_raft (rdb S n))) = take (Suc (unat ?a)) (log (rdb_raft (rdb S' m)))"
    by (simp add: cores_def as_durable_def)
  then have "take (unat ?a) (tl (log (rdb_raft (rdb S n)))) = take (unat ?a) (tl (log (rdb_raft (rdb S' m))))"
    using tl_take [of "Suc (unat ?a)" "log (rdb_raft (rdb S n))"] tl_take [of "Suc (unat ?a)" "log (rdb_raft (rdb S' m))"] by simp
  with t show ?thesis by (simp add: kv_state_def)
qed

theorem Replicated_tables_agree_witness:
  "\<exists>S :: rcluster. rdb_table (rdb S 1) = kv_replay [KvPut [1] [2]] \<and> rdb_table (rdb S 1) = rdb_table (rdb S 2)"
proof -
  obtain S where S: "replicated_reachable trio (set [1, 2, 3]) trio_dir trio_commands S" "in_step [1, 2, 3] S trio_run"
    using trio_reachable(1) by blast
  obtain g msgs up where x: "trio_run = (g, msgs, up)" by (rule prod_cases3)
  have "tables_ok S" using replicated_inv [OF S(1) trio_members trio_data] by blast
  with S(2) [unfolded x] trio_values [unfolded x] in_step_raft [OF S(2) [unfolded x]]
  have a: "applied_index (rdb S 1) = 1" "applied_index (rdb S 2) = 1"
    "map le_data (tl (log (rdb_raft (rdb S 1)))) = [command (KvPut [1] [2])]" "1 \<in> unbroken S" "2 \<in> unbroken S"
    by (auto simp: tables_ok_def)
  have le: "applied_index (rdb S 2) \<le> applied_index (rdb S 1)" by (simp add: a)
  from Replicated_tables_agree [OF trio_data trio_members S(1) rtranclp.rtrancl_refl a(5,4) le]
  have eq: "rdb_table (rdb S 1) = rdb_table (rdb S 2)" "rdb_table (rdb S 1) = kv_state (log (rdb_raft (rdb S 1))) 1"
    using a(1,2) by simp_all
  have "map le_data (take 1 (tl (log (rdb_raft (rdb S 1))))) = map command [KvPut [1] [2]]"
    using a(3) by (simp add: take_map [symmetric])
  then have "rdb_table (rdb S 1) = kv_replay [KvPut [1] [2]]"
    using eq(2) rdb_codec.replay_encoded [of "[KvPut [1] [2]]" Map.empty] by (simp add: kv_state_def kv_replay_def)
  with eq(1) show ?thesis by blast
qed

text \<open>
  \<^bold>\<open>C34\<close> The limit of this: restarted nodes. A node of a cluster of several that opens applies its
  whole log, of which the last entries need not be committed. There is a run of three nodes after
  which nodes 1 and 2 have the same log, have committed and applied the same index, and disagree:
  node 1, which restarted with an entry that was never committed, still has its effect, and lacks
  that of the committed entry in its place.
\<close>

theorem Replicated_restart_diverges:
  "\<exists>S. replicated_reachable trio {1, 2, 3} trio_dir trio_commands S \<and>
     log (rdb_raft (rdb S 1)) = log (rdb_raft (rdb S 2)) \<and>
     commit_index (rdb_raft (rdb S 1)) = 1 \<and> commit_index (rdb_raft (rdb S 2)) = 1 \<and>
     applied_index (rdb S 1) = 1 \<and> applied_index (rdb S 2) = 1 \<and>
     ReplicatedDB_Get (rdb S 1) [1] = (OK, Some [2]) \<and> ReplicatedDB_Get (rdb S 1) [3] = (NotFound (text_of [3]), None) \<and>
     ReplicatedDB_Get (rdb S 2) [1] = (NotFound (text_of [1]), None) \<and> ReplicatedDB_Get (rdb S 2) [3] = (OK, Some [4])"
proof -
  obtain S where S: "replicated_reachable trio (set [1, 2, 3]) trio_dir trio_commands S" "in_step [1, 2, 3] S split_run"
    using trio_reachable(2) by blast
  obtain g msgs up where x: "split_run = (g, msgs, up)" by (rule prod_cases3)
  have "rdb_raft (rdb S n) = rdb_raft (g n) \<and> rdb_table (rdb S n) = rdb_table (g n) \<and> applied_index (rdb S n) = applied_index (g n)"
    if "n = 1 \<or> n = 2" for n
  proof -
    have "rdb S n = (g n)\<lparr>rdb_storage := rdb_storage (rdb S n)\<rparr>" using S(2) [unfolded x] that by auto
    then show ?thesis by (cases "g n") (metis ReplicatedDB.select_convs ReplicatedDB.update_convs(2))
  qed
  from this [of 1] this [of 2] split_values [unfolded x] S(1) show ?thesis
    by (intro exI [of _ S]) (simp add: ReplicatedDB_Get_def)
qed

end
