(* ===== verification/Raft_Progress.thy ===== *)
theory Raft_Progress
  imports Raft_Durable "HOL-Library.Product_Lexorder"
begin

section \<open>Progress of clusters\<close>

text \<open>
  That a cluster is safe says nothing about its ever committing anything. Here it is shown that no
  cluster gets stuck: from every state it can reach, whatever was lost and whoever restarted, there
  is a schedule of ticks and deliveries, with no further failure, after which a new command is
  committed at every node. The schedule is the one a network that has become reliable leads to: the
  node with the most advanced log stands for election until its term is the highest, the others
  vote for it, and then each of them is brought up to date, back one index at a time until
  the logs match, and told of the commit.

  The argument is made once, in the locale \<open>drivable\<close>, for everything that runs the cores of a
  cluster and can give each of them a turn; it is interpreted on the clusters of cores here, and
  on those of replicated databases in the theory of their progress.
\<close>

subsection \<open>The turns of a schedule, at one node\<close>

lemma Broadcast_eq:
  "BroadcastAppendEntries r = r\<lparr>out_msgs := out_msgs r @ map (AppendEntries_for r) (other_peers r)\<rparr>"
proof -
  have out: "AppendEntries_for (r\<lparr>out_msgs := ms\<rparr>) = AppendEntries_for r" for r ms
    by (simp add: AppendEntries_for_def fun_eq_iff raft_id_def TermAt_def LastIndex_def Let_def)
  have "foldl SendAppendEntries r ps = r\<lparr>out_msgs := out_msgs r @ map (AppendEntries_for r) ps\<rparr>" for ps
    by (induction ps arbitrary: r) (simp_all add: SendAppendEntries_def Send_def out)
  then show ?thesis by (simp add: BroadcastAppendEntries_def)
qed

lemma RequestVotes_eq:
  "foldl (\<lambda>r peer. Send r (RequestVote_for r peer)) r ps = r\<lparr>out_msgs := out_msgs r @ map (RequestVote_for r) ps\<rparr>"
proof -
  have out: "RequestVote_for (r\<lparr>out_msgs := ms\<rparr>) = RequestVote_for r" for r ms
    by (simp add: RequestVote_for_def fun_eq_iff raft_id_def LastTerm_def LastIndex_def)
  show ?thesis by (induction ps arbitrary: r) (simp_all add: Send_def out)
qed

lemma Tick_leader:
  assumes "role r = kLeader"
  shows "heartbeat_elapsed r + 1 < heartbeat_timeout (config r) \<and> Tick r = r\<lparr>heartbeat_elapsed := heartbeat_elapsed r + 1\<rparr> \<or>
    Tick r = r\<lparr>heartbeat_elapsed := 0, out_msgs := out_msgs r @ map (AppendEntries_for r) (other_peers r)\<rparr>"
proof -
  have "AppendEntries_for (r\<lparr>heartbeat_elapsed := k\<rparr>) = AppendEntries_for r" "other_peers (r\<lparr>heartbeat_elapsed := k\<rparr>) = other_peers r" for k
    by (simp_all add: AppendEntries_for_def fun_eq_iff raft_id_def TermAt_def LastIndex_def Let_def other_peers_def)
  with assms show ?thesis by (auto simp: Tick_def Let_def Broadcast_eq)
qed

lemma Tick_election:
  assumes "role r \<noteq> kLeader"
  shows "election_elapsed r + 1 < election_timeout (config r) \<and> Tick r = r\<lparr>election_elapsed := election_elapsed r + 1\<rparr> \<or>
    Tick r = BecomeCandidate r"
proof -
  have "BecomeCandidate (r\<lparr>election_elapsed := k\<rparr>) = BecomeCandidate r" for k
    by (simp add: BecomeCandidate_def raft_id_def Let_def)
  with assms show ?thesis by (auto simp: Tick_def Let_def)
qed

lemma BecomeCandidate_many:
  assumes "1 < QuorumSize r"
  shows "BecomeCandidate r = (let r' = r\<lparr>current_term := current_term r + 1, voted_for := raft_id r, hard_state_dirty := True,
      role := kCandidate, leader := 0, election_elapsed := 0, votes_granted := [raft_id r]\<rparr>
    in r'\<lparr>out_msgs := out_msgs r @ map (RequestVote_for r') (other_peers r)\<rparr>)"
  using assms by (simp add: BecomeCandidate_def Let_def RequestVotes_eq QuorumSize_def other_peers_def raft_id_def)

lemma BecomeCandidate_one:
  assumes "QuorumSize r = 1"
  shows "role (BecomeCandidate r) = kLeader"
  using assms by (simp add: BecomeCandidate_def Let_def QuorumSize_def BecomeLeader_def Broadcast_eq set_peers_foldl)

lemma MaybeCommit_all:
  assumes "TermAt r (LastIndex r) = current_term r" "commit_index r \<le> LastIndex r"
    and "\<forall>q\<in>set (other_peers r). match_index r q = LastIndex r" "QuorumSize r \<le> Suc (length (other_peers r))"
  shows "commit_index (MaybeCommit r) = LastIndex r"
proof -
  have "replicas r (LastIndex r) = Suc (length (other_peers r))" using assms(3) by (simp add: replicas_def)
  with assms show ?thesis
    unfolding MaybeCommit_def by (subst MaybeCommit_loop.simps) (simp add: not_less)
qed

lemma MaybeCommit_eq: "MaybeCommit r = r\<lparr>commit_index := commit_index (MaybeCommit r)\<rparr>"
  using MaybeCommit_loop_result [of r "LastIndex r"] by (auto simp: MaybeCommit_def)

text \<open>A peer that is not ahead gives its vote to a candidate with a log no worse than its own.\<close>

lemma Step_vote:
  assumes "msg_type m = kRequestVote" "current_term r < msg_term m"
    and "LastTerm r < last_log_term m \<or> LastTerm r = last_log_term m \<and> LastIndex r \<le> last_log_index m"
  shows "current_term (Step r m) = msg_term m \<and> log (Step r m) = log r \<and>
    (\<exists>v\<in>set (out_msgs (Step r m)). msg_type v = kRequestVoteResp \<and> msg_from v = raft_id r \<and> msg_to v = msg_from m \<and>
       msg_term v = msg_term m \<and> vote_granted v)"
  using assms
  by (auto simp: Step_def StepRole_def BecomeFollower_def StepFollower_def HandleRequestVote_def Send_def new_Message_def
      LastTerm_def LastIndex_def raft_id_def Let_def)

text \<open>An election in which this vote is the last one needed, and one in which it is not.\<close>

lemma Step_granted:
  assumes "role r = kCandidate" "msg_type v = kRequestVoteResp" "msg_term v = current_term r" "vote_granted v"
    and "msg_from v \<notin> set (votes_granted r)"
  shows "log (Step r v) = log r \<and> current_term (Step r v) = current_term r \<and>
    (role (Step r v) = kLeader \<or>
     role (Step r v) = kCandidate \<and> votes_granted (Step r v) = votes_granted r @ [msg_from v] \<and>
     Suc (length (votes_granted r)) < QuorumSize r)"
proof -
  let ?r = "r\<lparr>votes_granted := votes_granted r @ [msg_from v]\<rparr>"
  have st: "Step r v = (if length (votes_granted ?r) \<ge> QuorumSize ?r then BecomeLeader ?r else ?r)"
    using assms by (simp add: Step_def StepRole_def StepCandidate_def Let_def)
  obtain ni mi ms where "BecomeLeader ?r = ?r\<lparr>role := kLeader, leader := raft_id ?r, heartbeat_elapsed := 0,
      next_index := ni, match_index := mi, out_msgs := ms\<rparr>" using BecomeLeader_frame by blast
  then show ?thesis using assms(1) unfolding st by (simp add: QuorumSize_def)
qed

text \<open>
  A peer that is not ahead answers the leader: it has taken the entries and knows as much of the
  commit as the message tells, or its log does not fit in front of them.
\<close>

definition append_wf :: "Message \<Rightarrow> bool" where
  "append_wf m \<longleftrightarrow> msg_type m = kAppendEntries \<and> consecutive (unat (prev_log_index m)) (entries m) \<and>
     Suc (unat (prev_log_index m) + length (entries m)) < 2 ^ 64 \<and>
     unat (leader_commit m) \<le> unat (prev_log_index m) + length (entries m)"

definition answers :: "Raft \<Rightarrow> Message \<Rightarrow> Raft \<Rightarrow> Message \<Rightarrow> bool" where
  "answers r m r' v \<longleftrightarrow> v \<in> set (out_msgs r') \<and> current_term r' = msg_term m \<and>
     msg_type v = kAppendEntriesResp \<and> msg_from v = raft_id r \<and> msg_to v = msg_from m \<and> msg_term v = msg_term m \<and>
     (if success v then msg_match_index v = prev_log_index m + of_nat (length (entries m)) \<and> leader_commit m \<le> commit_index r'
      else prev_log_index m > LastIndex r \<or> TermAt r (prev_log_index m) \<noteq> prev_log_term m)"

lemma merge_length: "p \<le> length l \<Longrightarrow> p + length es \<le> length (merge p l es)"
  by (induction p l es rule: merge.induct) (auto simp: min_def)

lemma HandleAppendEntries_answers:
  assumes "append_wf m" "log_ok (log r)" "current_term r = msg_term m"
  shows "\<exists>v. answers r m (HandleAppendEntries r m) v"
proof -
  let ?r = "r\<lparr>leader := msg_from m, election_elapsed := 0\<rparr>"
  let ?k = "unat (prev_log_index m) + length (entries m)"
  have eq: "LastIndex ?r = LastIndex r" "TermAt ?r = TermAt r" by (simp_all add: LastIndex_def TermAt_def fun_eq_iff)
  show ?thesis
  proof (cases "prev_log_index m > LastIndex ?r \<or> TermAt ?r (prev_log_index m) \<noteq> prev_log_term m")
    case True
    show ?thesis
      using True assms(3) unfolding HandleAppendEntries_def Let_def if_P [OF True]
      by (intro exI [of _ "(new_Message kAppendEntriesResp)\<lparr>msg_from := raft_id r, msg_to := msg_from m,
        msg_term := current_term r, success := False\<rparr>"]) (simp add: answers_def Send_def new_Message_def raft_id_def eq)
  next
    case False
    obtain l st where f: "foldl append_entry ?r (entries m) = ?r\<lparr>log := l, stable_index := st\<rparr>"
      using append_entries_frame [of ?r "entries m"] by blast
    have p: "unat (prev_log_index m) \<le> length (abs_log (log ?r))"
      using False unat_LastIndex [of ?r] assms(2) by (simp add: length_abs_log word_less_nat_alt)
    from append_entries_merge [OF _ _ p, of "entries m"] assms(1,2) f
    have l: "abs_log l = merge (unat (prev_log_index m)) (abs_log (log r)) (map abs_entry (entries m))" "log_ok l"
      by (simp_all add: append_wf_def)
    have "?k \<le> length (abs_log l)"
      using merge_length [of "unat (prev_log_index m)" "abs_log (log r)" "map abs_entry (entries m)"] p l(1) by simp
    then have "leader_commit m \<le> LastIndex (?r\<lparr>log := l, stable_index := st\<rparr>)"
      using assms(1) unat_LastIndex [of "?r\<lparr>log := l, stable_index := st\<rparr>"] l(2)
      by (auto simp: append_wf_def word_le_nat_alt length_abs_log)
    then show ?thesis
      using assms(3) unfolding HandleAppendEntries_def Let_def if_not_P [OF False] f
      by (intro exI [of _ "(new_Message kAppendEntriesResp)\<lparr>msg_from := raft_id r, msg_to := msg_from m, msg_term := current_term r,
        success := True, msg_match_index := prev_log_index m + of_nat (length (entries m))\<rparr>"])
        (auto simp: answers_def Send_def new_Message_def raft_id_def min_absorb1)
  qed
qed

lemma Step_answers:
  assumes "append_wf m" "log_ok (log r)" "current_term r \<le> msg_term m" "\<not> (role r = kLeader \<and> current_term r = msg_term m)"
  shows "\<exists>v. answers r m (Step r m) v"
proof -
  let ?f = "BecomeFollower r (msg_term m) (msg_from m)"
  have f: "log ?f = log r" "raft_id ?f = raft_id r" "LastIndex ?f = LastIndex r" "TermAt ?f = TermAt r"
    "current_term ?f = msg_term m" "role ?f = kFollower"
    using assms(3) by (auto simp: BecomeFollower_def Let_def raft_id_def LastIndex_def TermAt_def fun_eq_iff)
  have "Step r m = HandleAppendEntries ?f m \<or> Step r m = HandleAppendEntries r m \<and> current_term r = msg_term m"
    using assms by (cases "role r")
      (auto simp: append_wf_def Step_def StepRole_def StepFollower_def StepCandidate_def f(6) not_less)
  moreover have "answers ?f m r' v \<longleftrightarrow> answers r m r' v" for r' v by (simp add: answers_def f)
  ultimately show ?thesis
    using HandleAppendEntries_answers [OF assms(1), of ?f] HandleAppendEntries_answers [OF assms(1,2)] assms(2) f by auto
qed

text \<open>The leader hears it.\<close>

lemma Step_leader_answer:
  assumes "role r = kLeader" "msg_type v = kAppendEntriesResp" "msg_term v = current_term r"
  shows "Step r v = HandleAppendEntriesResp r v"
  using assms by (simp add: Step_def StepRole_def StepLeader_def)

lemma Resp_success:
  assumes "success v" "msg_match_index v = LastIndex r" "commit_index r \<le> LastIndex r"
    and "TermAt r (LastIndex r) = current_term r" "QuorumSize r \<le> Suc (length (other_peers r))"
  shows "\<exists>ni c. HandleAppendEntriesResp r v =
      r\<lparr>match_index := (match_index r)(msg_from v := LastIndex r), next_index := ni, commit_index := c\<rparr> \<and> commit_index r \<le> c \<and>
      ((\<forall>q\<in>set (other_peers r). ((match_index r)(msg_from v := LastIndex r)) q = LastIndex r) \<longrightarrow> c = LastIndex r)"
proof -
  let ?r = "r\<lparr>match_index := (match_index r)(msg_from v := LastIndex r), next_index := (next_index r)(msg_from v := LastIndex r + 1)\<rparr>"
  have eq: "LastIndex ?r = LastIndex r" "TermAt ?r = TermAt r" "QuorumSize ?r = QuorumSize r" "other_peers ?r = other_peers r"
    by (simp_all add: LastIndex_def TermAt_def fun_eq_iff QuorumSize_def other_peers_def raft_id_def)
  have "HandleAppendEntriesResp r v = ?r\<lparr>commit_index := commit_index (MaybeCommit ?r)\<rparr>"
    using MaybeCommit_eq [of ?r] assms(1,2) by (simp add: HandleAppendEntriesResp_def)
  moreover have "commit_index r \<le> commit_index (MaybeCommit ?r)" using MaybeCommit_commit [of ?r] by simp
  moreover have "commit_index (MaybeCommit ?r) = LastIndex r"
    if "\<forall>q\<in>set (other_peers r). ((match_index r)(msg_from v := LastIndex r)) q = LastIndex r"
    using MaybeCommit_all [of ?r] assms(3-5) that by (simp add: eq)
  ultimately show ?thesis by blast
qed

lemma AppendEntries_cong:
  assumes "config a = config b" "current_term a = current_term b" "log a = log b" "commit_index a = commit_index b"
    "next_index a = next_index b"
  shows "AppendEntries_for a = AppendEntries_for b"
  using assms by (simp add: AppendEntries_for_def fun_eq_iff raft_id_def TermAt_def LastIndex_def Let_def)

lemma net_append_wf:
  assumes "membership cfg M" "cluster_reachable cfg M C" "m \<in> net C" "msg_type m = kAppendEntries"
  shows "append_wf m"
proof -
  obtain s where "sim cfg M C s" using cluster_refines [OF assms(1,2)] by blast
  with assms(3,4) have "append_ok s m" by (auto simp: sim_def msg_ok_def)
  with assms(4) show ?thesis by (auto simp: append_wf_def append_ok_def Let_def)
qed

text \<open>What is sent to a peer, and what a success of it means.\<close>

lemma AppendEntries_for_fields:
  "msg_type (AppendEntries_for r p) = kAppendEntries" "msg_from (AppendEntries_for r p) = raft_id r"
  "msg_to (AppendEntries_for r p) = p" "msg_term (AppendEntries_for r p) = current_term r"
  "leader_commit (AppendEntries_for r p) = commit_index r" "prev_log_index (AppendEntries_for r p) = next_index r p - 1"
  "prev_log_term (AppendEntries_for r p) = TermAt r (next_index r p - 1)"
  by (simp_all add: AppendEntries_for_def new_Message_def Let_def)

lemma AppendEntries_for_end:
  assumes "log_ok (log r)" "0 < unat (next_index r p)" "unat (next_index r p) \<le> length (log r)"
  shows "prev_log_index (AppendEntries_for r p) + of_nat (length (entries (AppendEntries_for r p))) = LastIndex r"
proof -
  let ?next = "next_index r p"
  have "Suc (unat (LastIndex r)) = length (log r)"
    using unat_LastIndex [OF assms(1)] log_ok_length(1) [OF assms(1)] by simp
  then have "length (entries (AppendEntries_for r p)) = length (log r) - unat ?next"
    by (simp add: AppendEntries_for_def Let_def del: upt_Suc)
  then have "?next + of_nat (length (entries (AppendEntries_for r p))) = of_nat (unat ?next + (length (log r) - unat ?next))"
    by (simp only: of_nat_add) simp
  then show ?thesis using assms(3) by (simp add: AppendEntries_for_fields LastIndex_def algebra_simps)
qed


lemma answer_fits:
  assumes "log_ok (log r)" "log_ok (log q)" "0 < unat (next_index r p)" "answers q (AppendEntries_for r p) q' v" "\<not> success v"
  shows "1 < next_index r p"
proof (rule ccontr)
  assume "\<not> 1 < next_index r p"
  with assms(3) have "unat (next_index r p) = 1" by (simp add: word_less_nat_alt)
  then have "next_index r p = 1" by (simp add: word_unat_eq_iff)
  moreover have "TermAt r 0 = 0" "TermAt q 0 = 0"
    using log_ok_sentinel [OF assms(1)] log_ok_sentinel [OF assms(2)] by (simp_all add: TermAt_def sentinel_def)
  ultimately show False using assms(4,5) by (simp add: answers_def AppendEntries_for_fields)
qed

lemma TermAt_LastIndex: "log_ok (log r) \<Longrightarrow> TermAt r (LastIndex r) = le_term (last (log r))"
  using unat_LastIndex [of r] log_ok_length(1) [of "log r"] by (simp add: TermAt_def last_conv_nth)

lemma quorum_of_all:
  assumes "membership cfg M" "n \<in> M" "config r = cfg n"
  shows "QuorumSize r \<le> Suc (length (other_peers r))"
proof -
  note m = member_facts [OF assms]
  have "length (other_peers r) = card (M - {n})" using distinct_card [OF m(3)] m(2) by simp
  moreover have "0 < card M" using m(5) assms(2) by (auto simp: card_gt_0_iff)
  ultimately show ?thesis using m(4,5) assms(2) by simp
qed


text \<open>A candidate's request to a peer is under way; a log is no worse than that of a peer.\<close>

definition requested :: "Message set \<Rightarrow> Raft \<Rightarrow> NodeId \<Rightarrow> bool" where
  "requested N r p \<longleftrightarrow> (\<exists>m\<in>N. msg_type m = kRequestVote \<and> msg_to m = p \<and> msg_from m = raft_id r \<and>
     msg_term m = current_term r \<and> last_log_index m = LastIndex r \<and> last_log_term m = LastTerm r)"

definition ahead :: "Raft \<Rightarrow> Raft \<Rightarrow> bool" where
  "ahead r q \<longleftrightarrow> LastTerm q < LastTerm r \<or> LastTerm q = LastTerm r \<and> LastIndex q \<le> LastIndex r"

lemma BecomeCandidate_stands:
  assumes "membership cfg M" "n \<in> M" "config r = cfg n"
  shows "log (BecomeCandidate r) = log r \<and> current_term (BecomeCandidate r) = current_term r + 1 \<and>
    (role (BecomeCandidate r) = kLeader \<and> M = {n} \<or>
     role (BecomeCandidate r) = kCandidate \<and> votes_granted (BecomeCandidate r) = [n] \<and> 1 < QuorumSize (BecomeCandidate r) \<and>
     (\<forall>p\<in>M - {n}. requested (set (out_msgs (BecomeCandidate r))) (BecomeCandidate r) p))"
proof -
  note mn = member_facts [OF assms]
  have "log (BecomeCandidate r) = log r \<and> current_term (BecomeCandidate r) = current_term r + 1"
    using BecomeCandidate_frame [of r] by auto
  moreover have "role (BecomeCandidate r) = kLeader \<and> M = {n}" if "QuorumSize r = 1"
  proof -
    have "card M \<le> Suc 0" using mn(4) that by simp
    then have "M = {n}" using assms(2) card_le_Suc0_iff_eq [OF mn(5)] by auto
    with BecomeCandidate_one [OF that] show ?thesis by simp
  qed
  moreover have "role (BecomeCandidate r) = kCandidate \<and> votes_granted (BecomeCandidate r) = [n] \<and> 1 < QuorumSize (BecomeCandidate r) \<and>
     (\<forall>p\<in>M - {n}. requested (set (out_msgs (BecomeCandidate r))) (BecomeCandidate r) p)" if "QuorumSize r \<noteq> 1"
  proof -
    let ?r = "r\<lparr>current_term := current_term r + 1, voted_for := raft_id r, hard_state_dirty := True,
      role := kCandidate, leader := 0, election_elapsed := 0, votes_granted := [raft_id r]\<rparr>"
    have q: "1 < QuorumSize r" using that mn(4) by simp
    note c = BecomeCandidate_many [OF q, unfolded Let_def]
    have "requested (set (out_msgs (BecomeCandidate r))) (BecomeCandidate r) p" if "p \<in> M - {n}" for p
      unfolding requested_def
      by (rule bexI [of _ "RequestVote_for ?r p"])
        (use that mn(2) in \<open>simp_all add: c RequestVote_for_def new_Message_def raft_id_def LastIndex_def LastTerm_def\<close>)
    with q mn(1) show ?thesis by (simp add: c QuorumSize_def)
  qed
  ultimately show ?thesis by blast
qed

lemma requested_cong:
  "config a = config b \<Longrightarrow> current_term a = current_term b \<Longrightarrow> log a = log b \<Longrightarrow> N \<subseteq> N' \<Longrightarrow>
   requested N a p \<Longrightarrow> requested N' b p"
  by (auto simp: requested_def raft_id_def LastIndex_def LastTerm_def)

lemma ahead_cong: "log a = log b \<Longrightarrow> log q = log q' \<Longrightarrow> ahead a q = ahead b q'"
  by (simp add: ahead_def LastIndex_def LastTerm_def)

lemma most_ahead:
  assumes "finite M" "M \<noteq> {}"
  shows "\<exists>n\<in>M. \<forall>m\<in>M. ahead (f n) (f m)"
proof -
  let ?g = "\<lambda>m. (LastTerm (f m), LastIndex (f m))"
  have "Max (?g ` M) \<in> ?g ` M" using assms by (intro Max_in) auto
  then obtain n where n: "n \<in> M" "Max (?g ` M) = ?g n" by blast
  have "?g m \<le> ?g n" if "m \<in> M" for m using Max_ge [of "?g ` M" "?g m"] assms(1) that n(2) by simp
  then have "\<forall>m\<in>M. ahead (f n) (f m)" by (simp add: ahead_def) (metis antisym_conv2)
  with n(1) show ?thesis by blast
qed


subsection \<open>What can be driven\<close>

text \<open>
  Something that runs the cores of a cluster: \<open>view\<close> is that cluster, \<open>good\<close> what its states are
  like, \<open>steps\<close> what it can do. A node can be given a turn, and afterwards the storage has done its
  work and the messages have gone out.
\<close>

locale drivable =
  fixes cfg :: "NodeId \<Rightarrow> Config" and M :: "NodeId set" and D :: "bytes set"
    and view :: "'s \<Rightarrow> cluster" and good :: "'s \<Rightarrow> bool" and steps :: "'s \<Rightarrow> 's \<Rightarrow> bool"
  assumes member: "good s \<Longrightarrow> membership cfg M"
    and reachable: "good s \<Longrightarrow> cluster_reachable cfg M (view s)"
    and stay: "steps s s"
    and onward: "steps s s1 \<Longrightarrow> steps s1 s2 \<Longrightarrow> steps s s2"
    and turned: "good s \<Longrightarrow> n \<in> M \<Longrightarrow> handles D (net (view s)) n (node (view s) n) r \<Longrightarrow>
      \<exists>s' i b. steps s s' \<and> good s' \<and> net (view s') = net (view s) \<union> set (out_msgs r) \<and>
        node (view s') = (node (view s))(n := r\<lparr>stable_index := i, hard_state_dirty := b, out_msgs := []\<rparr>)"

text \<open>
  A leader at work: nobody is ahead of its term, its last entry is its own, and it
  has committed everything once it knows that everybody has it.
\<close>

definition leading :: "NodeId set \<Rightarrow> (NodeId \<Rightarrow> Raft) \<Rightarrow> NodeId \<Rightarrow> LogEntry list \<Rightarrow> bool" where
  "leading M f n l \<longleftrightarrow> n \<in> M \<and> role (f n) = kLeader \<and> log (f n) = l \<and> Suc (unat (current_term (f n))) < 2 ^ 64 \<and>
     le_term (last l) = current_term (f n) \<and> (\<forall>m\<in>M. current_term (f m) \<le> current_term (f n)) \<and>
     ((\<forall>q\<in>M - {n}. match_index (f n) q = LastIndex (f n)) \<longrightarrow> commit_index (f n) = LastIndex (f n))"

context drivable
begin

lemma heartbeat:
  assumes "good s" "n \<in> M" "role (node (view s) n) = kLeader" "Suc (unat (current_term (node (view s) n))) < 2 ^ 64"
  shows "\<exists>s' hb i b. steps s s' \<and> good s' \<and> AppendEntries_for (node (view s) n) ` (M - {n}) \<subseteq> net (view s') \<and>
    node (view s') = (node (view s))(n := (node (view s) n)\<lparr>heartbeat_elapsed := hb, stable_index := i,
      hard_state_dirty := b, out_msgs := []\<rparr>)"
  using assms
proof (induction "nat (heartbeat_timeout (config (node (view s) n)) - heartbeat_elapsed (node (view s) n))"
    arbitrary: s rule: less_induct)
  case less
  let ?r = "node (view s) n"
  have "config ?r = cfg n" using node_facts [OF member reachable] less.prems(1,2) by blast
  note peers = member_facts(2) [OF member [OF less.prems(1)] less.prems(2) this]
  from turned [OF less.prems(1,2) handles.tick [OF less.prems(4)]] obtain s1 i b where
    s1: "steps s s1" "good s1" "net (view s1) = net (view s) \<union> set (out_msgs (Tick ?r))"
      "node (view s1) = (node (view s))(n := (Tick ?r)\<lparr>stable_index := i, hard_state_dirty := b, out_msgs := []\<rparr>)" by blast
  from Tick_leader [OF less.prems(3)] show ?case
  proof (elim disjE conjE)
    assume t: "heartbeat_elapsed ?r + 1 < heartbeat_timeout (config ?r)" "Tick ?r = ?r\<lparr>heartbeat_elapsed := heartbeat_elapsed ?r + 1\<rparr>"
    let ?r1 = "node (view s1) n"
    have r1: "?r1 = ?r\<lparr>heartbeat_elapsed := heartbeat_elapsed ?r + 1, stable_index := i, hard_state_dirty := b, out_msgs := []\<rparr>"
      by (simp add: s1(4) t(2))
    have ae: "AppendEntries_for ?r1 = AppendEntries_for ?r" by (rule AppendEntries_cong) (simp_all add: r1)
    have "nat (heartbeat_timeout (config ?r1) - heartbeat_elapsed ?r1) < nat (heartbeat_timeout (config ?r) - heartbeat_elapsed ?r)"
      using t(1) by (simp add: r1)
    from less.hyps [OF this s1(2) less.prems(2)] less.prems(3,4) obtain s' hb j c where
      s': "steps s1 s'" "good s'" "AppendEntries_for ?r ` (M - {n}) \<subseteq> net (view s')"
      "node (view s') = (node (view s1))(n := ?r1\<lparr>heartbeat_elapsed := hb, stable_index := j, hard_state_dirty := c, out_msgs := []\<rparr>)"
      by (auto simp: r1 ae [unfolded r1])
    have "node (view s') = (node (view s))(n := ?r\<lparr>heartbeat_elapsed := hb, stable_index := j, hard_state_dirty := c, out_msgs := []\<rparr>)"
      unfolding s'(4) r1 by (simp add: s1(4))
    with onward [OF s1(1) s'(1)] s'(2,3) show ?thesis by blast
  next
    assume t: "Tick ?r = ?r\<lparr>heartbeat_elapsed := 0, out_msgs := out_msgs ?r @ map (AppendEntries_for ?r) (other_peers ?r)\<rparr>"
    have "AppendEntries_for ?r ` (M - {n}) \<subseteq> net (view s1)" using s1(3) peers by (auto simp: t)
    moreover have "node (view s1) = (node (view s))(n := ?r\<lparr>heartbeat_elapsed := 0, stable_index := i, hard_state_dirty := b, out_msgs := []\<rparr>)"
      unfolding s1(4) t by simp
    ultimately show ?thesis using s1(1,2) by blast
  qed
qed

text \<open>One exchange with a peer: the question and the answer, and what the leader makes of it.\<close>

lemma asks:
  assumes s: "good s" "leading M (node (view s)) n l" and p: "p \<in> M - {n}"
  shows "\<exists>s' v hb i b. steps s s' \<and> good s' \<and> v \<in> net (view s') \<and> msg_type v = kAppendEntriesResp \<and> msg_from v = p \<and> msg_to v = n \<and>
    msg_term v = current_term (node (view s) n) \<and> (\<forall>m. m \<noteq> n \<and> m \<noteq> p \<longrightarrow> node (view s') m = node (view s) m) \<and>
    node (view s') n = (node (view s) n)\<lparr>heartbeat_elapsed := hb, stable_index := i, hard_state_dirty := b, out_msgs := []\<rparr> \<and>
    current_term (node (view s') p) = current_term (node (view s) n) \<and>
    (if success v then msg_match_index v = LastIndex (node (view s) n) \<and> commit_index (node (view s) n) \<le> commit_index (node (view s') p)
     else 1 < next_index (node (view s) n) p)"
proof -
  let ?r = "node (view s) n" and ?q = "node (view s) p"
  let ?m = "AppendEntries_for ?r p"
  have ld: "n \<in> M" "role ?r = kLeader" "Suc (unat (current_term ?r)) < 2 ^ 64"
    "\<forall>m\<in>M. current_term (node (view s) m) \<le> current_term ?r" using s(2) by (auto simp: leading_def)
  have pM: "p \<in> M" "p \<noteq> n" using p by auto
  note nf = node_facts [OF member [OF s(1)] reachable [OF s(1)]]
  have cf: "config ?r = cfg n" "config ?q = cfg p" "log_ok (log ?r)" "log_ok (log ?q)" using nf ld(1) pM(1) by blast+
  note mn = member_facts [OF member [OF s(1)] ld(1) cf(1)] and mp = member_facts [OF member [OF s(1)] pM(1) cf(2)]
  have next_ok: "0 < unat (next_index ?r p)" "unat (next_index ?r p) \<le> length (log ?r)"
    using nf [OF ld(1)] ld(2) mn(2) p by blast+
  from heartbeat [OF s(1) ld(1-3)] obtain s1 hb i b where s1: "steps s s1" "good s1" "?m \<in> net (view s1)"
    "node (view s1) = (node (view s))(n := ?r\<lparr>heartbeat_elapsed := hb, stable_index := i, hard_state_dirty := b, out_msgs := []\<rparr>)"
    using p by blast
  have q1: "node (view s1) p = ?q" using pM(2) by (simp add: s1(4))
  from turned [OF s1(2) pM(1) handles.deliver [OF s1(3) AppendEntries_for_fields(3)]] obtain s2 j c where
    s2: "steps s1 s2" "good s2" "net (view s2) = net (view s1) \<union> set (out_msgs (Step ?q ?m))"
      "node (view s2) = (node (view s1))(p := (Step ?q ?m)\<lparr>stable_index := j, hard_state_dirty := c, out_msgs := []\<rparr>)"
    unfolding q1 by blast
  have "append_wf ?m"
    by (rule net_append_wf [OF member [OF s(1)] reachable [OF s1(2)] s1(3)]) (simp add: AppendEntries_for_fields)
  moreover have "\<not> (role ?q = kLeader \<and> current_term ?q = current_term ?r)"
    using leaders_unique [OF member [OF s(1)] reachable [OF s(1)] ld(1) pM(1) ld(2)] pM(2) by auto
  ultimately obtain v where v: "answers ?q ?m (Step ?q ?m) v"
    using Step_answers [of ?m ?q] cf(4) ld(4) pM(1) by (auto simp: AppendEntries_for_fields)
  then have vf: "v \<in> net (view s2)" "msg_type v = kAppendEntriesResp" "msg_from v = p" "msg_to v = n" "msg_term v = current_term ?r"
    "current_term (Step ?q ?m) = current_term ?r" using mn(1) mp(1) s2(3) by (auto simp: answers_def AppendEntries_for_fields)
  have q2: "node (view s2) p = (Step ?q ?m)\<lparr>stable_index := j, hard_state_dirty := c, out_msgs := []\<rparr>" by (simp add: s2(4))
  have "if success v then msg_match_index v = LastIndex ?r \<and> commit_index ?r \<le> commit_index (node (view s2) p)
      else 1 < next_index ?r p"
    using v answer_fits [OF cf(3,4) next_ok(1) v] AppendEntries_for_end [OF cf(3) next_ok]
    by (auto simp: answers_def q2 AppendEntries_for_fields(5))
  with onward [OF s1(1) s2(1)] s2(2) vf pM(2) show ?thesis
    by (intro exI [of _ s2] exI [of _ v] exI [of _ hb] exI [of _ i] exI [of _ b]) (simp add: q2 s2(4) s1(4))
qed

lemma asked:
  assumes s: "good s" "leading M (node (view s)) n l" and p: "p \<in> M - {n}"
  shows "\<exists>s' v hb i b j c. steps s s' \<and> good s' \<and> msg_from v = p \<and>
    (\<forall>m. m \<noteq> n \<and> m \<noteq> p \<longrightarrow> node (view s') m = node (view s) m) \<and>
    current_term (node (view s') p) = current_term (node (view s) n) \<and>
    node (view s') n = (HandleAppendEntriesResp ((node (view s) n)\<lparr>heartbeat_elapsed := hb, stable_index := i,
      hard_state_dirty := b, out_msgs := []\<rparr>) v)\<lparr>stable_index := j, hard_state_dirty := c, out_msgs := []\<rparr> \<and>
    (if success v then msg_match_index v = LastIndex (node (view s) n) \<and> commit_index (node (view s) n) \<le> commit_index (node (view s') p)
     else 1 < next_index (node (view s) n) p)"
proof -
  let ?r = "node (view s) n"
  have ld: "n \<in> M" "role ?r = kLeader" and pn: "p \<noteq> n" using s(2) p by (auto simp: leading_def)
  from asks [OF assms] obtain s2 v hb i b where s2: "steps s s2" "good s2" "v \<in> net (view s2)" "msg_type v = kAppendEntriesResp"
    "msg_from v = p" "msg_to v = n" "msg_term v = current_term ?r" "\<forall>m. m \<noteq> n \<and> m \<noteq> p \<longrightarrow> node (view s2) m = node (view s) m"
    "node (view s2) n = ?r\<lparr>heartbeat_elapsed := hb, stable_index := i, hard_state_dirty := b, out_msgs := []\<rparr>"
    "current_term (node (view s2) p) = current_term ?r"
    "if success v then msg_match_index v = LastIndex ?r \<and> commit_index ?r \<le> commit_index (node (view s2) p) else 1 < next_index ?r p"
    by blast
  let ?r2 = "?r\<lparr>heartbeat_elapsed := hb, stable_index := i, hard_state_dirty := b, out_msgs := []\<rparr>"
  have "Step ?r2 v = HandleAppendEntriesResp ?r2 v" using ld(2) s2(4,7) by (intro Step_leader_answer) simp_all
  with turned [OF s2(2) ld(1) handles.deliver [OF s2(3,6)]] obtain s3 j c where s3: "steps s2 s3" "good s3"
    "node (view s3) = (node (view s2))(n := (HandleAppendEntriesResp ?r2 v)\<lparr>stable_index := j, hard_state_dirty := c, out_msgs := []\<rparr>)"
    unfolding s2(9) by auto
  show ?thesis
    using onward [OF s2(1) s3(1)] s3(2) s2(5,8,10,11) pn
    by (intro exI [of _ s3] exI [of _ v] exI [of _ hb] exI [of _ i] exI [of _ b] exI [of _ j] exI [of _ c]) (simp add: s3(3))
qed

text \<open>The peer is up to date now, or the leader goes back by one entry.\<close>

lemma exchange:
  assumes s: "good s" "leading M (node (view s)) n l" and p: "p \<in> M - {n}"
  shows "\<exists>s'. steps s s' \<and> good s' \<and> leading M (node (view s')) n l \<and>
    (\<forall>m. m \<noteq> n \<and> m \<noteq> p \<longrightarrow> node (view s') m = node (view s) m) \<and>
    commit_index (node (view s) n) \<le> commit_index (node (view s') n) \<and>
    (match_index (node (view s') n) = (match_index (node (view s) n))(p := LastIndex (node (view s) n)) \<and>
       commit_index (node (view s) n) \<le> commit_index (node (view s') p) \<or>
     match_index (node (view s') n) = match_index (node (view s) n) \<and>
       unat (next_index (node (view s') n) p) < unat (next_index (node (view s) n) p))"
proof -
  let ?r = "node (view s) n"
  have ld: "n \<in> M" "role ?r = kLeader" "log ?r = l" "Suc (unat (current_term ?r)) < 2 ^ 64" "le_term (last l) = current_term ?r"
    "\<forall>m\<in>M. current_term (node (view s) m) \<le> current_term ?r"
    "(\<forall>q\<in>M - {n}. match_index ?r q = LastIndex ?r) \<longrightarrow> commit_index ?r = LastIndex ?r"
    using s(2) by (auto simp: leading_def)
  have cf: "config ?r = cfg n" "log_ok (log ?r)" "commit_index ?r \<le> LastIndex ?r"
    using node_facts [OF member [OF s(1)] reachable [OF s(1)] ld(1)] by blast+
  note mn = member_facts [OF member [OF s(1)] ld(1) cf(1)]
  from asked [OF assms] obtain s' v hb i b j c where
    s': "steps s s'" "good s'" "msg_from v = p" "\<forall>m. m \<noteq> n \<and> m \<noteq> p \<longrightarrow> node (view s') m = node (view s) m"
      "current_term (node (view s') p) = current_term ?r"
      "node (view s') n = (HandleAppendEntriesResp (?r\<lparr>heartbeat_elapsed := hb, stable_index := i,
         hard_state_dirty := b, out_msgs := []\<rparr>) v)\<lparr>stable_index := j, hard_state_dirty := c, out_msgs := []\<rparr>"
    and ok: "if success v then msg_match_index v = LastIndex ?r \<and> commit_index ?r \<le> commit_index (node (view s') p)
       else 1 < next_index ?r p" by blast
  let ?r2 = "?r\<lparr>heartbeat_elapsed := hb, stable_index := i, hard_state_dirty := b, out_msgs := []\<rparr>"
  have r2: "LastIndex ?r2 = LastIndex ?r" "TermAt ?r2 = TermAt ?r" "QuorumSize ?r2 = QuorumSize ?r" "other_peers ?r2 = other_peers ?r"
    by (simp_all add: LastIndex_def TermAt_def fun_eq_iff QuorumSize_def other_peers_def raft_id_def)
  have terms: "current_term (node (view s') m) \<le> current_term ?r" if "m \<in> M" "current_term (node (view s') n) = current_term ?r" for m
    using s'(4,5) ld(6) that by (cases "m = p"; cases "m = n") simp_all
  show ?thesis
  proof (cases "success v")
    case True
    from Resp_success [of v ?r2] True ok cf(3) TermAt_LastIndex [OF cf(2)] ld(3,5)
      quorum_of_all [OF member [OF s(1)] ld(1) cf(1)] s'(3)
    obtain ni k where k: "HandleAppendEntriesResp ?r2 v =
        ?r2\<lparr>match_index := (match_index ?r)(p := LastIndex ?r), next_index := ni, commit_index := k\<rparr>" "commit_index ?r \<le> k"
      "(\<forall>q\<in>set (other_peers ?r). ((match_index ?r)(p := LastIndex ?r)) q = LastIndex ?r) \<longrightarrow> k = LastIndex ?r"
      by (auto simp: r2)
    have n': "node (view s') n = ?r\<lparr>heartbeat_elapsed := hb, stable_index := j, hard_state_dirty := c, out_msgs := [],
        match_index := (match_index ?r)(p := LastIndex ?r), next_index := ni, commit_index := k\<rparr>"
      unfolding s'(6) k(1) by simp
    have "\<forall>m\<in>M. current_term (node (view s') m) \<le> current_term (node (view s') n)" using terms by (auto simp: n')
    then have "leading M (node (view s')) n l"
      using ld(1-5) k(3) mn(2) unfolding leading_def by (simp add: n' LastIndex_def)
    with s'(1-5) ok True k(2) show ?thesis by (intro exI [of _ s']) (simp add: n')
  next
    case False
    with ok have nx: "1 < next_index ?r p" by simp
    then have n': "node (view s') n = ?r\<lparr>heartbeat_elapsed := hb, stable_index := j, hard_state_dirty := c, out_msgs := [],
        next_index := (next_index ?r)(p := next_index ?r p - 1)\<rparr>"
      unfolding s'(6) using False s'(3) by (simp add: HandleAppendEntriesResp_def Let_def)
    have "\<forall>m\<in>M. current_term (node (view s') m) \<le> current_term (node (view s') n)" using terms by (auto simp: n')
    then have "leading M (node (view s')) n l" using ld unfolding leading_def by (simp add: n' LastIndex_def)
    moreover have "unat (next_index ?r p - 1) < unat (next_index ?r p)" using nx by (rule u64_pred_less)
    ultimately show ?thesis using s'(1-5) by (intro exI [of _ s']) (simp add: n')
  qed
qed

lemma replicate:
  assumes "good s" "leading M (node (view s)) n l" "p \<in> M - {n}"
  shows "\<exists>s'. steps s s' \<and> good s' \<and> leading M (node (view s')) n l \<and>
    (\<forall>m. m \<noteq> n \<and> m \<noteq> p \<longrightarrow> node (view s') m = node (view s) m) \<and>
    commit_index (node (view s) n) \<le> commit_index (node (view s') n) \<and>
    match_index (node (view s') n) = (match_index (node (view s) n))(p := LastIndex (node (view s) n)) \<and>
    commit_index (node (view s) n) \<le> commit_index (node (view s') p)"
  using assms(1,2)
proof (induction "unat (next_index (node (view s) n) p)" arbitrary: s rule: less_induct)
  case less
  from exchange [OF less.prems assms(3)] obtain s1 where s1: "steps s s1" "good s1" "leading M (node (view s1)) n l"
    "\<forall>m. m \<noteq> n \<and> m \<noteq> p \<longrightarrow> node (view s1) m = node (view s) m"
    "commit_index (node (view s) n) \<le> commit_index (node (view s1) n)"
    "match_index (node (view s1) n) = (match_index (node (view s) n))(p := LastIndex (node (view s) n)) \<and>
       commit_index (node (view s) n) \<le> commit_index (node (view s1) p) \<or>
     match_index (node (view s1) n) = match_index (node (view s) n) \<and>
       unat (next_index (node (view s1) n) p) < unat (next_index (node (view s) n) p)" by blast
  from s1(6) show ?case
  proof (elim disjE conjE)
    assume lower: "match_index (node (view s1) n) = match_index (node (view s) n)"
      "unat (next_index (node (view s1) n) p) < unat (next_index (node (view s) n) p)"
    have last: "LastIndex (node (view s1) n) = LastIndex (node (view s) n)"
      using s1(3) less.prems(2) by (simp add: leading_def LastIndex_def)
    from less.hyps [OF lower(2) s1(2,3)] obtain s' where "steps s1 s'" "good s'" "leading M (node (view s')) n l"
      "\<forall>m. m \<noteq> n \<and> m \<noteq> p \<longrightarrow> node (view s') m = node (view s) m"
      "commit_index (node (view s1) n) \<le> commit_index (node (view s') n)"
      "match_index (node (view s') n) = (match_index (node (view s) n))(p := LastIndex (node (view s) n))"
      "commit_index (node (view s1) n) \<le> commit_index (node (view s') p)"
      using s1(4) by (auto simp: lower(1) last)
    with s1(1,5) show ?thesis by (blast intro: onward order_trans)
  qed (use s1(1-5) in blast)
qed

text \<open>A round over several peers.\<close>

lemma replicate_all:
  assumes "good s" "leading M (node (view s)) n l" "set qs \<subseteq> M - {n}"
  shows "\<exists>s'. steps s s' \<and> good s' \<and> leading M (node (view s')) n l \<and>
    commit_index (node (view s) n) \<le> commit_index (node (view s') n) \<and>
    (\<forall>q\<in>set qs. match_index (node (view s') n) q = LastIndex (node (view s') n) \<and>
       commit_index (node (view s) n) \<le> commit_index (node (view s') q))"
  using assms(3)
proof (induction qs)
  case Nil
  then show ?case using assms(1,2) stay [of s] by auto
next
  case (Cons p qs)
  then obtain s1 where s1: "steps s s1" "good s1" "leading M (node (view s1)) n l"
    "commit_index (node (view s) n) \<le> commit_index (node (view s1) n)"
    "\<forall>q\<in>set qs. match_index (node (view s1) n) q = LastIndex (node (view s1) n) \<and>
       commit_index (node (view s) n) \<le> commit_index (node (view s1) q)" by auto
  have "p \<in> M - {n}" using Cons.prems by simp
  from replicate [OF s1(2,3) this] obtain s2 where s2: "steps s1 s2" "good s2" "leading M (node (view s2)) n l"
    "\<forall>m. m \<noteq> n \<and> m \<noteq> p \<longrightarrow> node (view s2) m = node (view s1) m"
    "commit_index (node (view s1) n) \<le> commit_index (node (view s2) n)"
    "match_index (node (view s2) n) = (match_index (node (view s1) n))(p := LastIndex (node (view s1) n))"
    "commit_index (node (view s1) n) \<le> commit_index (node (view s2) p)" by blast
  have last: "LastIndex (node (view s2) n) = LastIndex (node (view s1) n)"
    using s1(3) s2(3) by (simp add: leading_def LastIndex_def)
  have "match_index (node (view s2) n) q = LastIndex (node (view s2) n) \<and> commit_index (node (view s) n) \<le> commit_index (node (view s2) q)"
    if "q \<in> set (p # qs)" for q
  proof (cases "q = p")
    case True
    then show ?thesis using s2(6,7) s1(4) by (simp add: last)
  next
    case False
    with that Cons.prems have "q \<in> set qs" "q \<noteq> n" by auto
    with False s1(5) s2(4,6) show ?thesis by (simp add: last)
  qed
  moreover have "commit_index (node (view s) n) \<le> commit_index (node (view s2) n)" using s1(4) s2(5) by simp
  ultimately show ?case using onward [OF s1(1) s2(1)] s2(2,3) by blast
qed

text \<open>Two rounds commit everything everywhere: the first at the leader, the second at the others.\<close>

lemma leader_commits:
  assumes "good s" "leading M (node (view s)) n l"
  shows "\<exists>s'. steps s s' \<and> good s' \<and> leading M (node (view s')) n l \<and>
    (\<forall>m\<in>M. commit_index (node (view s') m) = LastIndex (node (view s') n))"
proof -
  let ?qs = "other_peers (node (view s) n)"
  have n: "n \<in> M" using assms(2) by (simp add: leading_def)
  have "config (node (view s) n) = cfg n" using node_facts [OF member reachable] assms(1) n by blast
  then have qs: "set ?qs = M - {n}" using member_facts(2) member assms(1) n by blast
  have le: "set ?qs \<subseteq> M - {n}" by (simp add: qs)
  from replicate_all [OF assms le] obtain s1 where s1: "steps s s1" "good s1" "leading M (node (view s1)) n l"
    "\<forall>q\<in>M - {n}. match_index (node (view s1) n) q = LastIndex (node (view s1) n)" unfolding qs by blast
  then have c1: "commit_index (node (view s1) n) = LastIndex (node (view s1) n)" by (simp add: leading_def)
  from replicate_all [OF s1(2,3) le] obtain s2 where s2: "steps s1 s2" "good s2" "leading M (node (view s2)) n l"
    "commit_index (node (view s1) n) \<le> commit_index (node (view s2) n)"
    "\<forall>q\<in>M - {n}. commit_index (node (view s1) n) \<le> commit_index (node (view s2) q)" unfolding qs by blast
  have last: "LastIndex (node (view s2) n) = LastIndex (node (view s1) n)"
    using s1(3) s2(3) by (simp add: leading_def LastIndex_def)
  have "commit_index (node (view s2) m) = LastIndex (node (view s2) n)" if "m \<in> M" for m
  proof (rule antisym)
    show "LastIndex (node (view s2) n) \<le> commit_index (node (view s2) m)"
      using s2(4,5) that c1 by (cases "m = n") (simp_all add: last)
    have "role (node (view s2) n) = kLeader" "current_term (node (view s2) m) \<le> current_term (node (view s2) n)"
      using s2(3) that by (simp_all add: leading_def)
    from leader_covers [OF member [OF s2(2)] reachable [OF s2(2)] n that this]
    show "commit_index (node (view s2) m) \<le> LastIndex (node (view s2) n)" .
  qed
  then show ?thesis using onward [OF s1(1) s2(1)] s2(2,3) by blast
qed

text \<open>A leader that nobody is ahead of takes a command.\<close>

lemma leader_proposes:
  assumes "good s" "n \<in> M" "role (node (view s) n) = kLeader" "d \<in> D"
    and "\<forall>m\<in>M. current_term (node (view s) m) \<le> current_term (node (view s) n)"
    and "Suc (unat (current_term (node (view s) n))) < 2 ^ 64" "Suc (length (log (node (view s) n))) < 2 ^ 64"
  shows "\<exists>s' l. steps s s' \<and> good s' \<and> leading M (node (view s')) n l \<and> le_data (last l) = d"
proof -
  let ?r = "node (view s) n"
  let ?e = "\<lparr>le_term = current_term ?r, le_index = LastIndex ?r + 1, le_data = d\<rparr>"
  let ?r1 = "?r\<lparr>log := log ?r @ [?e]\<rparr>"
  note nf = node_facts [OF member [OF assms(1)] reachable [OF assms(1)] assms(2)]
  then have cf: "config ?r = cfg n" "log_ok (log ?r)" "commit_index ?r \<le> LastIndex ?r" by blast+
  have pr: "snd (Propose ?r d) = ?r1\<lparr>commit_index := commit_index (MaybeCommit ?r1)\<rparr>"
    using MaybeCommit_eq [of ?r1] assms(3) by (simp add: Propose_def)
  from turned [OF assms(1,2) handles.propose [OF assms(4,7)]] obtain s1 i b where s1: "steps s s1" "good s1"
    "node (view s1) = (node (view s))(n := (snd (Propose ?r d))\<lparr>stable_index := i, hard_state_dirty := b, out_msgs := []\<rparr>)" by blast
  have ok1: "log_ok (log ?r1)" using node_facts [OF member [OF s1(2)] reachable [OF s1(2)] assms(2)] by (simp add: s1(3) pr)
  have "LastIndex ?r \<le> LastIndex ?r1"
    using unat_LastIndex [OF cf(2)] unat_LastIndex [OF ok1] by (simp add: word_le_nat_alt)
  then have all: "commit_index (MaybeCommit ?r1) = LastIndex ?r1" if "\<forall>q\<in>M - {n}. match_index ?r q = LastIndex ?r1"
    using MaybeCommit_all [of ?r1] TermAt_LastIndex [OF ok1] cf that quorum_of_all [of cfg M n ?r1] member [OF assms(1)]
      member_facts(2) [of cfg M n ?r1] assms(2) by simp
  have "\<forall>m\<in>M. current_term (node (view s1) m) \<le> current_term (node (view s1) n)"
    using assms(5) by (simp add: s1(3) pr)
  then have "leading M (node (view s1)) n (log ?r @ [?e])"
    using assms(2,3,6) all unfolding leading_def by (simp add: s1(3) pr LastIndex_def)
  with s1(1,2) show ?thesis by force
qed


text \<open>Elections. A leader of the past learns of it from a peer that is ahead.\<close>

lemma steps_down:
  assumes s: "good s" and n: "n \<in> M" "role (node (view s) n) = kLeader" "Suc (unat (current_term (node (view s) n))) < 2 ^ 64"
    and p: "p \<in> M" "current_term (node (view s) n) < current_term (node (view s) p)"
  shows "\<exists>s'. steps s s' \<and> good s' \<and> role (node (view s') n) \<noteq> kLeader \<and>
    (\<forall>m. log (node (view s') m) = log (node (view s) m)) \<and> current_term (node (view s') n) = current_term (node (view s) p) \<and>
    (\<forall>m. m \<noteq> n \<longrightarrow> current_term (node (view s') m) = current_term (node (view s) m))"
proof -
  let ?r = "node (view s) n" and ?q = "node (view s) p"
  let ?m = "AppendEntries_for ?r p"
  have pn: "p \<noteq> n" using p(2) by auto
  note nf = node_facts [OF member [OF s] reachable [OF s]]
  have id: "raft_id ?r = n" "raft_id ?q = p" using member_facts(1) [OF member [OF s]] nf n(1) p(1) by blast+
  from heartbeat [OF s n] obtain s1 hb i b where s1: "steps s s1" "good s1" "?m \<in> net (view s1)"
    "node (view s1) = (node (view s))(n := ?r\<lparr>heartbeat_elapsed := hb, stable_index := i, hard_state_dirty := b, out_msgs := []\<rparr>)"
    using p(1) pn by blast
  let ?v = "(new_Message kAppendEntriesResp)\<lparr>msg_from := p, msg_to := n, msg_term := current_term ?q, success := False\<rparr>"
  have q1: "node (view s1) p = ?q" using pn by (simp add: s1(4))
  have "\<not> current_term ?q < current_term ?r" using p(2) by simp
  then have st: "Step ?q ?m = Send ?q ?v" using p(2) id by (simp add: Step_def AppendEntries_for_fields Let_def)
  from turned [OF s1(2) p(1) handles.deliver [OF s1(3) AppendEntries_for_fields(3)]] obtain s2 j c where
    s2: "steps s1 s2" "good s2" "?v \<in> net (view s2)"
      "node (view s2) = (node (view s1))(p := ?q\<lparr>stable_index := j, hard_state_dirty := c, out_msgs := []\<rparr>)"
    unfolding q1 st by (auto simp: Send_def)
  let ?r2 = "node (view s2) n"
  have r2: "?r2 = ?r\<lparr>heartbeat_elapsed := hb, stable_index := i, hard_state_dirty := b, out_msgs := []\<rparr>"
    using pn by (simp add: s2(4) s1(4))
  have st2: "Step ?r2 ?v = BecomeFollower ?r2 (current_term ?q) 0"
    using p(2) by (simp add: Step_def r2 new_Message_def StepRole_def StepFollower_def BecomeFollower_def Let_def)
  have "msg_to ?v = n" by (simp add: new_Message_def)
  from turned [OF s2(2) n(1) handles.deliver [OF s2(3) this]] obtain s3 k d where s3: "steps s2 s3" "good s3"
    "node (view s3) = (node (view s2))(n := (BecomeFollower ?r2 (current_term ?q) 0)\<lparr>stable_index := k, hard_state_dirty := d, out_msgs := []\<rparr>)"
    unfolding st2 by blast
  have "role (node (view s3) n) = kFollower" "log (node (view s3) n) = log ?r" "current_term (node (view s3) n) = current_term ?q"
    using p(2) by (simp_all add: s3(3) r2 BecomeFollower_def Let_def)
  moreover have "log (node (view s3) m) = log (node (view s) m) \<and> current_term (node (view s3) m) = current_term (node (view s) m)"
    if "m \<noteq> n" for m using that by (simp add: s3(3) s2(4) s1(4))
  ultimately show ?thesis
    using onward [OF s1(1) onward [OF s2(1) s3(1)]] s3(2) by (intro exI [of _ s3]) (metis Role.distinct(3))
qed

text \<open>A node stands for election, and again until it is ahead of everybody's term.\<close>

lemma campaigns:
  assumes "good s" "n \<in> M" "role (node (view s) n) \<noteq> kLeader" "Suc (unat (current_term (node (view s) n))) < 2 ^ 64"
  shows "\<exists>s'. steps s s' \<and> good s' \<and> (\<forall>m. m \<noteq> n \<longrightarrow> node (view s') m = node (view s) m) \<and>
    log (node (view s') n) = log (node (view s) n) \<and>
    unat (current_term (node (view s') n)) = Suc (unat (current_term (node (view s) n))) \<and>
    (role (node (view s') n) = kLeader \<and> M = {n} \<or>
     role (node (view s') n) = kCandidate \<and> votes_granted (node (view s') n) = [n] \<and>
     1 < QuorumSize (node (view s') n) \<and> (\<forall>p\<in>M - {n}. requested (net (view s')) (node (view s') n) p))"
  using assms
proof (induction "nat (election_timeout (config (node (view s) n)) - election_elapsed (node (view s) n))"
    arbitrary: s rule: less_induct)
  case less
  let ?r = "node (view s) n"
  have cf: "config ?r = cfg n" using node_facts [OF member reachable] less.prems(1,2) by blast
  from turned [OF less.prems(1,2) handles.tick [OF less.prems(4)]] obtain s1 i b where
    s1: "steps s s1" "good s1" "net (view s1) = net (view s) \<union> set (out_msgs (Tick ?r))"
      "node (view s1) = (node (view s))(n := (Tick ?r)\<lparr>stable_index := i, hard_state_dirty := b, out_msgs := []\<rparr>)" by blast
  from Tick_election [OF less.prems(3)] show ?case
  proof (elim disjE conjE)
    assume t: "election_elapsed ?r + 1 < election_timeout (config ?r)" "Tick ?r = ?r\<lparr>election_elapsed := election_elapsed ?r + 1\<rparr>"
    let ?r1 = "node (view s1) n"
    have r1: "?r1 = ?r\<lparr>election_elapsed := election_elapsed ?r + 1, stable_index := i, hard_state_dirty := b, out_msgs := []\<rparr>"
      by (simp add: s1(4) t(2))
    have same: "node (view s1) m = node (view s) m" if "m \<noteq> n" for m using that by (simp add: s1(4))
    have "nat (election_timeout (config ?r1) - election_elapsed ?r1) < nat (election_timeout (config ?r) - election_elapsed ?r)"
      using t(1) by (simp add: r1)
    from less.hyps [OF this s1(2) less.prems(2)] less.prems(3,4) obtain s' where
      "steps s1 s'" "good s'" "\<forall>m. m \<noteq> n \<longrightarrow> node (view s') m = node (view s1) m"
      "log (node (view s') n) = log ?r" "unat (current_term (node (view s') n)) = Suc (unat (current_term ?r))"
      "role (node (view s') n) = kLeader \<and> M = {n} \<or>
       role (node (view s') n) = kCandidate \<and> votes_granted (node (view s') n) = [n] \<and>
       1 < QuorumSize (node (view s') n) \<and> (\<forall>p\<in>M - {n}. requested (net (view s')) (node (view s') n) p)"
      by (auto simp: r1)
    then show ?thesis using onward [OF s1(1)] same by (intro exI [of _ s']) simp
  next
    assume t: "Tick ?r = BecomeCandidate ?r"
    have up: "unat (current_term ?r + 1) = Suc (unat (current_term ?r))" using less.prems(4) by (rule unat_Suc_u64)
    let ?r1 = "node (view s1) n"
    have r1: "?r1 = (BecomeCandidate ?r)\<lparr>stable_index := i, hard_state_dirty := b, out_msgs := []\<rparr>" by (simp add: s1(4) t)
    have "requested (net (view s1)) ?r1 p" if "requested (set (out_msgs (BecomeCandidate ?r))) (BecomeCandidate ?r) p" for p
      by (rule requested_cong [OF _ _ _ _ that]) (simp_all add: r1 s1(3) t)
    with BecomeCandidate_stands [OF member [OF less.prems(1)] less.prems(2) cf] up s1(1,2) show ?thesis
      by (intro exI [of _ s1]) (auto simp: r1 s1(4) t QuorumSize_def)
  qed
qed

lemma campaigns_on:
  assumes "good s" "n \<in> M" "role (node (view s) n) \<noteq> kLeader" "\<forall>m\<in>M. unat (current_term (node (view s) m)) \<le> t" "Suc (Suc t) < 2 ^ 64"
  shows "\<exists>s'. steps s s' \<and> good s' \<and> (\<forall>m. m \<noteq> n \<longrightarrow> node (view s') m = node (view s) m) \<and>
    log (node (view s') n) = log (node (view s) n) \<and> unat (current_term (node (view s') n)) \<le> Suc t \<and>
    (role (node (view s') n) = kLeader \<and> M = {n} \<or>
     unat (current_term (node (view s') n)) = Suc t \<and> role (node (view s') n) = kCandidate \<and> votes_granted (node (view s') n) = [n] \<and>
     1 < QuorumSize (node (view s') n) \<and> (\<forall>p\<in>M - {n}. requested (net (view s')) (node (view s') n) p))"
  using assms(1-4)
proof (induction "Suc t - unat (current_term (node (view s) n))" arbitrary: s rule: less_induct)
  case less
  have le: "unat (current_term (node (view s) n)) \<le> t" using less.prems(2,4) by blast
  then have "Suc (unat (current_term (node (view s) n))) < 2 ^ 64" using assms(5) by simp
  from campaigns [OF less.prems(1-3) this] obtain s1 where s1: "steps s s1" "good s1"
    "\<forall>m. m \<noteq> n \<longrightarrow> node (view s1) m = node (view s) m" "log (node (view s1) n) = log (node (view s) n)"
    "unat (current_term (node (view s1) n)) = Suc (unat (current_term (node (view s) n)))"
    "role (node (view s1) n) = kLeader \<and> M = {n} \<or>
     role (node (view s1) n) = kCandidate \<and> votes_granted (node (view s1) n) = [n] \<and>
     1 < QuorumSize (node (view s1) n) \<and> (\<forall>p\<in>M - {n}. requested (net (view s1)) (node (view s1) n) p)" by blast
  show ?case
  proof (cases "role (node (view s1) n) = kLeader \<or> unat (current_term (node (view s1) n)) = Suc t")
    case True
    with s1 le show ?thesis by (intro exI [of _ s1]) auto
  next
    case False
    have "Suc t - unat (current_term (node (view s1) n)) < Suc t - unat (current_term (node (view s) n))" using s1(5) le by simp
    moreover have "\<forall>m\<in>M. unat (current_term (node (view s1) m)) \<le> t"
      using s1(3,5) le False less.prems(4) by (metis Suc_leI le_neq_implies_less less_Suc_eq_le)
    ultimately obtain s' where "steps s1 s'" "good s'" "\<forall>m. m \<noteq> n \<longrightarrow> node (view s') m = node (view s1) m"
      "log (node (view s') n) = log (node (view s1) n)" "unat (current_term (node (view s') n)) \<le> Suc t"
      "role (node (view s') n) = kLeader \<and> M = {n} \<or>
       unat (current_term (node (view s') n)) = Suc t \<and> role (node (view s') n) = kCandidate \<and> votes_granted (node (view s') n) = [n] \<and>
       1 < QuorumSize (node (view s') n) \<and> (\<forall>p\<in>M - {n}. requested (net (view s')) (node (view s') n) p)"
      using less.hyps [OF _ s1(2) less.prems(2)] False by blast
    then show ?thesis using onward [OF s1(1)] s1(3,4) by (intro exI [of _ s']) simp
  qed
qed

text \<open>The votes come in one by one, until they are enough.\<close>

lemma vote:
  assumes s: "good s" and n: "n \<in> M" "role (node (view s) n) = kCandidate" and p: "p \<in> M - {n}" "p \<notin> set (votes_granted (node (view s) n))"
    and q: "current_term (node (view s) p) < current_term (node (view s) n)" "ahead (node (view s) n) (node (view s) p)"
      "requested (net (view s)) (node (view s) n) p"
  shows "\<exists>s'. steps s s' \<and> good s' \<and> net (view s) \<subseteq> net (view s') \<and> (\<forall>q. q \<noteq> n \<and> q \<noteq> p \<longrightarrow> node (view s') q = node (view s) q) \<and>
    log (node (view s') n) = log (node (view s) n) \<and> current_term (node (view s') n) = current_term (node (view s) n) \<and>
    current_term (node (view s') p) = current_term (node (view s) n) \<and>
    (role (node (view s') n) = kLeader \<or>
     role (node (view s') n) = kCandidate \<and> votes_granted (node (view s') n) = votes_granted (node (view s) n) @ [p] \<and>
     Suc (length (votes_granted (node (view s) n))) < QuorumSize (node (view s) n))"
proof -
  let ?r = "node (view s) n" and ?q = "node (view s) p"
  have pM: "p \<in> M" "p \<noteq> n" using p(1) by auto
  note nf = node_facts [OF member [OF s] reachable [OF s]]
  have id: "raft_id ?r = n" "raft_id ?q = p" using member_facts(1) [OF member [OF s]] nf n(1) pM(1) by blast+
  from q(3) obtain m where m: "m \<in> net (view s)" "msg_type m = kRequestVote" "msg_to m = p" "msg_from m = n"
    "msg_term m = current_term ?r" "last_log_index m = LastIndex ?r" "last_log_term m = LastTerm ?r"
    by (auto simp: requested_def id(1))
  have "current_term ?q < msg_term m" "LastTerm ?q < last_log_term m \<or> LastTerm ?q = last_log_term m \<and> LastIndex ?q \<le> last_log_index m"
    using q(1,2) m(5-7) by (auto simp: ahead_def)
  note sv = Step_vote [OF m(2) this]
  from turned [OF s pM(1) handles.deliver [OF m(1,3)]] obtain s1 i b where
    s1: "steps s s1" "good s1" "net (view s1) = net (view s) \<union> set (out_msgs (Step ?q m))"
      "node (view s1) = (node (view s))(p := (Step ?q m)\<lparr>stable_index := i, hard_state_dirty := b, out_msgs := []\<rparr>)" by blast
  from sv obtain v where v: "v \<in> net (view s1)" "msg_type v = kRequestVoteResp" "msg_from v = p" "msg_to v = n"
    "msg_term v = current_term ?r" "vote_granted v" using s1(3) m(4,5) id(2) by auto
  have r1: "node (view s1) n = ?r" using pM(2) by (simp add: s1(4))
  from turned [OF s1(2) n(1) handles.deliver [OF v(1,4)]] obtain s2 j c where
    s2: "steps s1 s2" "good s2" "net (view s1) \<subseteq> net (view s2)"
      "node (view s2) = (node (view s1))(n := (Step ?r v)\<lparr>stable_index := j, hard_state_dirty := c, out_msgs := []\<rparr>)"
    unfolding r1 by blast
  have "msg_from v \<notin> set (votes_granted ?r)" using p(2) v(3) by simp
  note sg = Step_granted [OF n(2) v(2,5,6) this]
  have "current_term (node (view s2) p) = current_term ?r" using sv m(5) pM(2) by (simp add: s2(4) s1(4))
  with onward [OF s1(1) s2(1)] s2(2,3) s1(3) sg v(3) show ?thesis
    by (intro exI [of _ s2]) (auto simp: s2(4) s1(4))
qed

lemma wins:
  assumes "good s" "n \<in> M" "role (node (view s) n) = kCandidate" "length (votes_granted (node (view s) n)) < QuorumSize (node (view s) n)"
    and "QuorumSize (node (view s) n) \<le> length (votes_granted (node (view s) n)) + length qs"
    and "set qs \<subseteq> M - {n}" "distinct qs" "set (votes_granted (node (view s) n)) \<inter> set qs = {}"
    and "\<forall>m\<in>M. current_term (node (view s) m) \<le> current_term (node (view s) n)"
    and "\<forall>q\<in>set qs. current_term (node (view s) q) < current_term (node (view s) n) \<and> ahead (node (view s) n) (node (view s) q) \<and>
       requested (net (view s)) (node (view s) n) q"
  shows "\<exists>s'. steps s s' \<and> good s' \<and> role (node (view s') n) = kLeader \<and>
    current_term (node (view s') n) = current_term (node (view s) n) \<and> log (node (view s') n) = log (node (view s) n) \<and>
    (\<forall>m\<in>M. current_term (node (view s') m) \<le> current_term (node (view s) n))"
  using assms
proof (induction qs arbitrary: s)
  case Nil
  then show ?case by simp
next
  case (Cons p qs)
  note pr = Cons.prems
  let ?r = "node (view s) n"
  have p: "p \<in> M - {n}" "p \<notin> set (votes_granted ?r)" using pr(6,8) by auto
  from vote [OF pr(1-3) p] pr(10) obtain s2 where s2: "steps s s2" "good s2" "net (view s) \<subseteq> net (view s2)"
    and same: "\<forall>q. q \<noteq> n \<and> q \<noteq> p \<longrightarrow> node (view s2) q = node (view s) q"
    and r2: "log (node (view s2) n) = log ?r" "current_term (node (view s2) n) = current_term ?r" "current_term (node (view s2) p) = current_term ?r"
    and won: "role (node (view s2) n) = kLeader \<or>
     role (node (view s2) n) = kCandidate \<and> votes_granted (node (view s2) n) = votes_granted ?r @ [p] \<and>
     Suc (length (votes_granted ?r)) < QuorumSize ?r" by auto
  let ?r2 = "node (view s2) n"
  have terms: "\<forall>q\<in>M. current_term (node (view s2) q) \<le> current_term ?r" using pr(9) r2(2,3) same by (metis order_refl)
  from won show ?case
  proof (elim conjE disjE)
    assume "role ?r2 = kLeader"
    with s2(1,2) r2 terms show ?thesis by blast
  next
    assume g: "role ?r2 = kCandidate" "votes_granted ?r2 = votes_granted ?r @ [p]" "Suc (length (votes_granted ?r)) < QuorumSize ?r"
    have cf2: "config ?r2 = config ?r"
      using node_facts [OF member [OF s2(2)] reachable [OF s2(2)] pr(2)] node_facts [OF member [OF pr(1)] reachable [OF pr(1)] pr(2)] by simp
    then have quorum: "QuorumSize ?r2 = QuorumSize ?r" by (simp add: QuorumSize_def)
    have "current_term (node (view s2) q) < current_term ?r2 \<and> ahead ?r2 (node (view s2) q) \<and> requested (net (view s2)) ?r2 q"
      if "q \<in> set qs" for q
    proof -
      have q: "node (view s2) q = node (view s) q" using that pr(6,7) same by auto
      have "requested (net (view s2)) ?r2 q"
        by (rule requested_cong [OF cf2 [symmetric] r2(2) [symmetric] r2(1) [symmetric] s2(3)]) (use that pr(10) in simp)
      then show ?thesis using that pr(10) r2 ahead_cong [OF r2(1) refl] by (simp add: q)
    qed
    moreover have "set (votes_granted ?r2) \<inter> set qs = {}" "set qs \<subseteq> M - {n}" "distinct qs" using pr(6-8) by (auto simp: g(2))
    ultimately obtain s' where "steps s2 s'" "good s'" "role (node (view s') n) = kLeader"
      "current_term (node (view s') n) = current_term ?r2" "log (node (view s') n) = log ?r2"
      "\<forall>m\<in>M. current_term (node (view s') m) \<le> current_term ?r2"
      using Cons.IH [OF s2(2) pr(2) g(1)] g(3) pr(5) terms by (auto simp: g(2) quorum r2(2))
    then show ?thesis using onward [OF s2(1)] r2 by (intro exI [of _ s']) simp
  qed
qed

text \<open>A node whose log is no worse than any other is elected.\<close>

lemma is_elected:
  assumes s: "good s" and n: "n \<in> M" "role (node (view s) n) \<noteq> kLeader" "\<forall>m\<in>M. ahead (node (view s) n) (node (view s) m)"
    and t: "\<forall>m\<in>M. unat (current_term (node (view s) m)) \<le> t" "Suc (Suc t) < 2 ^ 64"
  shows "\<exists>s'. steps s s' \<and> good s' \<and> role (node (view s') n) = kLeader \<and> log (node (view s') n) = log (node (view s) n) \<and>
    unat (current_term (node (view s') n)) \<le> Suc t \<and>
    (\<forall>m\<in>M. current_term (node (view s') m) \<le> current_term (node (view s') n))"
proof -
  from campaigns_on [OF s n(1,2) t] obtain s1 where s1: "steps s s1" "good s1"
    "\<forall>m. m \<noteq> n \<longrightarrow> node (view s1) m = node (view s) m" "log (node (view s1) n) = log (node (view s) n)"
    "unat (current_term (node (view s1) n)) \<le> Suc t"
    "role (node (view s1) n) = kLeader \<and> M = {n} \<or>
     unat (current_term (node (view s1) n)) = Suc t \<and> role (node (view s1) n) = kCandidate \<and> votes_granted (node (view s1) n) = [n] \<and>
     1 < QuorumSize (node (view s1) n) \<and> (\<forall>p\<in>M - {n}. requested (net (view s1)) (node (view s1) n) p)" by blast
  from s1(6) show ?thesis
  proof (elim disjE conjE)
    assume "role (node (view s1) n) = kLeader" "M = {n}"
    with s1(1,2,4,5) show ?thesis by (intro exI [of _ s1]) simp
  next
    let ?r = "node (view s1) n"
    assume c: "unat (current_term ?r) = Suc t" "role ?r = kCandidate" "votes_granted ?r = [n]" "1 < QuorumSize ?r"
      "\<forall>p\<in>M - {n}. requested (net (view s1)) ?r p"
    have "config ?r = cfg n" using node_facts [OF member reachable] s1(2) n(1) by blast
    note mn = member_facts [OF member [OF s] n(1) this] and qu = quorum_of_all [OF member [OF s] n(1) this]
    have lower: "current_term (node (view s1) m) < current_term ?r" if "m \<in> M - {n}" for m
      using that s1(3) t(1) c(1) by (simp add: word_less_nat_alt less_Suc_eq_le)
    have "ahead ?r (node (view s1) m)" if "m \<in> M - {n}" for m
      using that s1(3,4) n(3) ahead_cong [OF s1(4) refl] by simp
    moreover have "\<forall>m\<in>M. current_term (node (view s1) m) \<le> current_term ?r" using lower by (metis Diff_iff empty_iff insert_iff less_imp_le order_refl)
    ultimately obtain s2 where "steps s1 s2" "good s2" "role (node (view s2) n) = kLeader"
      "current_term (node (view s2) n) = current_term ?r" "log (node (view s2) n) = log ?r"
      "\<forall>m\<in>M. current_term (node (view s2) m) \<le> current_term ?r"
      using wins [OF s1(2) n(1) c(2), of "other_peers ?r"] c(3-5) qu lower mn(2,3) by auto
    then show ?thesis using onward [OF s1(1)] s1(4) c(1) by (intro exI [of _ s2]) simp
  qed
qed

lemma some_leader:
  assumes s: "good s" "M \<noteq> {}" and t: "\<forall>m\<in>M. unat (current_term (node (view s) m)) \<le> t" "Suc (Suc t) < 2 ^ 64"
  shows "\<exists>s' n. steps s s' \<and> good s' \<and> n \<in> M \<and> role (node (view s') n) = kLeader \<and> log (node (view s') n) = log (node (view s) n) \<and>
    unat (current_term (node (view s') n)) \<le> Suc t \<and>
    (\<forall>m\<in>M. current_term (node (view s') m) \<le> current_term (node (view s') n))"
proof -
  have "finite M" using member_facts(5) [OF member [OF s(1)]] node_facts [OF member reachable] s by blast
  from most_ahead [OF this s(2), of "node (view s)"] obtain n where
    n: "n \<in> M" "\<forall>m\<in>M. ahead (node (view s) n) (node (view s) m)" by blast
  let ?r = "node (view s) n"
  consider "role ?r \<noteq> kLeader" | "role ?r = kLeader" "\<forall>m\<in>M. current_term (node (view s) m) \<le> current_term ?r"
    | p where "role ?r = kLeader" "p \<in> M" "current_term ?r < current_term (node (view s) p)"
    using not_le by blast
  then show ?thesis
  proof cases
    case 1
    from is_elected [OF s(1) n(1) 1 n(2) t] n(1) show ?thesis by blast
  next
    case 2
    with stay [of s] s(1) n(1) t(1) show ?thesis by (intro exI [of _ s] exI [of _ n]) auto
  next
    case (3 p)
    have "unat (current_term ?r) \<le> t" using t(1) n(1) by blast
    then have "Suc (unat (current_term ?r)) < 2 ^ 64" using t(2) by simp
    from steps_down [OF s(1) n(1) 3(1) this 3(2,3)] obtain s1 where s1: "steps s s1" "good s1" "role (node (view s1) n) \<noteq> kLeader"
      "\<forall>m. log (node (view s1) m) = log (node (view s) m)" "current_term (node (view s1) n) = current_term (node (view s) p)"
      "\<forall>m. m \<noteq> n \<longrightarrow> current_term (node (view s1) m) = current_term (node (view s) m)" by blast
    have "\<forall>m\<in>M. ahead (node (view s1) n) (node (view s1) m)"
      using n(2) ahead_cong [OF s1(4) [rule_format] s1(4) [rule_format]] by blast
    moreover have "\<forall>m\<in>M. unat (current_term (node (view s1) m)) \<le> t" using t(1) s1(5,6) 3(2) by metis
    ultimately show ?thesis using is_elected [OF s1(2) n(1) s1(3) _ _ t(2)] onward [OF s1(1)] n(1) s1(4) by metis
  qed
qed

text \<open>
  From every good state a command can be committed at every node, as the last entry each of
  them has committed.
\<close>

lemma commits:
  assumes "good s" "M \<noteq> {}" "d \<in> D"
    and "\<forall>m\<in>M. Suc (Suc (unat (current_term (node (view s) m)))) < 2 ^ 64 \<and> Suc (length (log (node (view s) m))) < 2 ^ 64"
  shows "\<exists>s' i. steps s s' \<and> good s' \<and> (\<forall>m\<in>M. commit_index (node (view s') m) = i \<and>
    i \<le> LastIndex (node (view s') m) \<and> le_data (entry_at (node (view s') m) i) = d)"
proof -
  define t where "t = Max ((\<lambda>m. unat (current_term (node (view s) m))) ` M)"
  have fin: "finite M" using member_facts(5) [OF member [OF assms(1)]] node_facts [OF member reachable] assms(1,2) by blast
  have "t \<in> (\<lambda>m. unat (current_term (node (view s) m))) ` M" unfolding t_def using fin assms(2) by (intro Max_in) auto
  then have t2: "Suc (Suc t) < 2 ^ 64" using assms(4) by auto
  have "\<forall>m\<in>M. unat (current_term (node (view s) m)) \<le> t" unfolding t_def using fin by simp
  from some_leader [OF assms(1,2) this t2] obtain s1 n where s1: "steps s s1" "good s1" "n \<in> M" "role (node (view s1) n) = kLeader"
    "log (node (view s1) n) = log (node (view s) n)" "unat (current_term (node (view s1) n)) \<le> Suc t"
    "\<forall>m\<in>M. current_term (node (view s1) m) \<le> current_term (node (view s1) n)" by blast
  have "Suc (unat (current_term (node (view s1) n))) < 2 ^ 64" "Suc (length (log (node (view s1) n))) < 2 ^ 64"
    using s1(3,5,6) t2 assms(4) by auto
  from leader_proposes [OF s1(2-4) assms(3) s1(7) this] obtain s2 l where
    s2: "steps s1 s2" "good s2" "leading M (node (view s2)) n l" "le_data (last l) = d" by blast
  from leader_commits [OF s2(2,3)] obtain s3 where s3: "steps s2 s3" "good s3" "leading M (node (view s3)) n l"
    "\<forall>m\<in>M. commit_index (node (view s3) m) = LastIndex (node (view s3) n)" by blast
  let ?i = "LastIndex (node (view s3) n)"
  note nf = node_facts [OF member [OF s3(2)] reachable [OF s3(2)]]
  have l: "log (node (view s3) n) = l" "log_ok l" using s3(3) nf [OF s1(3)] by (simp_all add: leading_def)
  have last: "l ! unat ?i = last l" using unat_LastIndex [of "node (view s3) n"] l log_ok_length(1) [OF l(2)] by (simp add: last_conv_nth)
  have "?i \<le> LastIndex (node (view s3) m) \<and> le_data (entry_at (node (view s3) m) ?i) = d" if m: "m \<in> M" for m
  proof -
    have "take (Suc (unat ?i)) (log (node (view s3) m)) = take (Suc (unat ?i)) l"
      using committed_prefixes_agree [OF member [OF s3(2)] reachable [OF s3(2)] rtranclp.rtrancl_refl m s1(3), of ?i] s3(4) m s1(3) l(1) by simp
    then have "log (node (view s3) m) ! unat ?i = l ! unat ?i" by (metis lessI nth_take)
    with last s2(4) show ?thesis using nf [OF m] s3(4) m by (simp add: entry_at_def)
  qed
  with s3(2,4) onward [OF s1(1) onward [OF s2(1) s3(1)]] show ?thesis by blast
qed

end


subsection \<open>Clusters of cores can be driven\<close>

text \<open>Steps of a cluster in which nothing fails: a node is given a turn, and what it sends goes out.\<close>

inductive undisturbed :: "NodeId set \<Rightarrow> bytes set \<Rightarrow> cluster \<Rightarrow> cluster \<Rightarrow> bool" for M D where
  "n \<in> M \<Longrightarrow> handles D (net C) n (node C n) r \<Longrightarrow> undisturbed M D C (emit C n r)"

inductive_cases undisturbedE: "undisturbed M D C C'"

lemma undisturbed_step: "undisturbed M D C C' \<Longrightarrow> cluster_step cfg M C C'"
  by (auto elim!: undisturbedE intro!: cluster_step.work handles_turn)

interpretation cluster_run: drivable cfg M D "\<lambda>C. C" "\<lambda>C. membership cfg M \<and> cluster_reachable cfg M C" "(undisturbed M D)\<^sup>*\<^sup>*"
  for cfg M D
proof
  fix C n r
  assume C: "membership cfg M \<and> cluster_reachable cfg M C" "n \<in> M" "handles D (net C) n (node C n) r"
  note step = undisturbed.intros [OF C(2,3)]
  have "cluster_reachable cfg M (emit C n r)" using C(1) undisturbed_step [OF step] by (blast intro: cluster_reachable.step)
  moreover have "net (emit C n r) = net C \<union> set (out_msgs r)"
    "node (emit C n r) = (node C)(n := r\<lparr>stable_index := stable_index r, hard_state_dirty := hard_state_dirty r, out_msgs := []\<rparr>)"
    by (simp_all add: emit_def TakeMessages_def)
  ultimately show "\<exists>C' i b. (undisturbed M D)\<^sup>*\<^sup>* C C' \<and> (membership cfg M \<and> cluster_reachable cfg M C') \<and>
      net C' = net C \<union> set (out_msgs r) \<and>
      node C' = (node C)(n := r\<lparr>stable_index := i, hard_state_dirty := b, out_msgs := []\<rparr>)"
    using C(1) r_into_rtranclp [of "undisturbed M D", OF step] by blast
qed auto


subsection \<open>Properties\<close>

text \<open>
  \<^bold>\<open>C5\<close> No cluster gets stuck. From every state a cluster can reach, whatever messages were lost,
  whoever restarted and whatever term and log each node has, there are ticks, deliveries and one
  proposal of a given command, with no failure among them, after which every node has committed
  that command, all at the same index and with nothing committed behind it. Terms and logs must be
  two steps away from the limit of their 64 bits.
\<close>

theorem Raft_can_always_commit:
  assumes "membership cfg M" "M \<noteq> {}" "cluster_reachable cfg M C"
    and "\<forall>m\<in>M. Suc (Suc (unat (current_term (node C m)))) < 2 ^ 64 \<and> Suc (length (log (node C m))) < 2 ^ 64"
  shows "\<exists>C' i. (undisturbed M {d})\<^sup>*\<^sup>* C C' \<and>
    (\<forall>m\<in>M. commit_index (node C' m) = i \<and> i \<le> LastIndex (node C' m) \<and> le_data (entry_at (node C' m) i) = d)"
  using cluster_run.commits [of cfg M C d "{d}"] assms by blast

lemma demo_room:
  "\<forall>m\<in>set [1, 2, 3]. Suc (Suc (unat (current_term (node (cluster_of demo) m)))) < 2 ^ 64 \<and>
     Suc (length (log (node (cluster_of demo) m))) < 2 ^ 64"
proof -
  have "current_term (fst demo 1) = 1 \<and> current_term (fst demo 2) = 1 \<and> current_term (fst demo 3) = 0 \<and>
    length (log (fst demo 1)) = 2 \<and> length (log (fst demo 2)) = 2 \<and> length (log (fst demo 3)) = 1" by code_simp
  then show ?thesis by simp
qed

theorem Raft_can_always_commit_witness:
  "\<exists>C' i. (undisturbed {1, 2, 3} {[9]})\<^sup>*\<^sup>* (cluster_of demo) C' \<and>
    commit_index (node C' 3) = i \<and> le_data (entry_at (node C' 3) i) = [9]"
  using Raft_can_always_commit [OF demo_membership _ demo_reachable demo_room, of "[9]"] by auto

end
