(* ===== verification/Replicated_Progress.thy ===== *)
theory Replicated_Progress
  imports Replicated_Cluster Raft_Progress
begin

section \<open>Progress of clusters of replicated databases\<close>

text \<open>
  The clusters of replicated databases, from the operating system up, are driven like those of
  cores: a node is given a turn, its \<open>Sync\<close> returns OK as no call fails, and the messages go out. So a
  client can always write.
\<close>

inductive undisturbed_sync :: "NodeId set \<Rightarrow> bytes set \<Rightarrow> rcluster \<Rightarrow> rcluster \<Rightarrow> bool" for M D where
  "n \<in> M \<Longrightarrow> handles D (rwire S) n (rdb_raft (rdb S n)) r \<Longrightarrow>
    ReplicatedDB_Sync ((rdb S n)\<lparr>rdb_raft := r\<rparr>) ((ros S n)\<lparr>os_script := []\<rparr>) = (OK, db', os') \<Longrightarrow>
    TakeMessages (rdb_raft db') = (msgs, r') \<Longrightarrow>
    undisturbed_sync M D S
      (S\<lparr>rdb := (rdb S)(n := db'\<lparr>rdb_raft := r'\<rparr>), ros := (ros S)(n := os'), rwire := rwire S \<union> set msgs\<rparr>)"

inductive_cases undisturbed_syncE: "undisturbed_sync M D S S'"

lemma undisturbed_sync_step: "undisturbed_sync M D S S' \<Longrightarrow> replicated_step ps M dir D S S' \<and> unbroken S' = unbroken S"
  by (auto elim!: undisturbed_syncE intro!: replicated_step.sync)

lemma undisturbed_sync_possible:
  assumes "\<forall>d\<in>D. length d < 2 ^ 32" "members ps M" "replicated_reachable ps M dir D S"
    and n: "n \<in> M" "handles D (rwire S) n (rdb_raft (rdb S n)) r"
  shows "\<exists>S'. undisturbed_sync M D S S' \<and> rwire S' = rwire S \<union> set (out_msgs r) \<and>
    (\<lambda>m. rdb_raft (rdb S' m)) = (\<lambda>m. rdb_raft (rdb S m))(n := (synced r)\<lparr>out_msgs := []\<rparr>)"
proof -
  from sync_calm [OF assms] obtain st' os' where
    sy: "ReplicatedDB_Sync ((rdb S n)\<lparr>rdb_raft := r\<rparr>) ((ros S n)\<lparr>os_script := []\<rparr>) =
      (OK, ApplyCommitted ((rdb S n)\<lparr>rdb_storage := st', rdb_raft := synced r\<rparr>), os')" by blast
  have "TakeMessages (rdb_raft (ApplyCommitted ((rdb S n)\<lparr>rdb_storage := st', rdb_raft := synced r\<rparr>))) =
      (out_msgs r, (synced r)\<lparr>out_msgs := []\<rparr>)" by (simp add: ApplyCommitted_def TakeMessages_def synced_def)
  from undisturbed_sync.intros [OF n sy this] show ?thesis by (intro exI conjI) (assumption, auto simp: fun_eq_iff)
qed

abbreviation core_view :: "(NodeId \<Rightarrow> NodeId list) \<Rightarrow> NodeId set \<Rightarrow> rcluster \<Rightarrow> cluster" where
  "core_view ps M S \<equiv> cores (\<lambda>n. node_config n (ps n)) M (as_durable S)"

lemma core_view_node: "n \<in> M \<Longrightarrow> node (core_view ps M S) n = rdb_raft (rdb S n)"
  by (simp add: cores_def as_durable_def)

interpretation replicated_run: drivable "\<lambda>n. node_config n (ps n)" M D "core_view ps M"
  "\<lambda>S. (\<forall>d\<in>D. length d < 2 ^ 32) \<and> members ps M \<and> replicated_reachable ps M dir D S \<and> unbroken S = U" "(undisturbed_sync M D)\<^sup>*\<^sup>*"
  for ps M D dir U
proof
  let ?cfg = "\<lambda>n. node_config n (ps n)"
  fix S
  assume S: "(\<forall>d\<in>D. length d < 2 ^ 32) \<and> members ps M \<and> replicated_reachable ps M dir D S \<and> unbroken S = U"
  then show mem: "membership ?cfg M" by (simp add: members_def)
  have "durable_reachable ?cfg M (raft_file \<circ> dir) D (as_durable S)" using replicated_inv S by blast
  from durable_inv_reachable [OF _ mem this] S show "cluster_reachable ?cfg M (core_view ps M S)" by (simp add: durable_inv_def)
  fix n r
  assume n: "n \<in> M" "handles D (net (core_view ps M S)) n (node (core_view ps M S) n) r"
  then have "handles D (rwire S) n (rdb_raft (rdb S n)) r" by (simp add: cores_def as_durable_def)
  with undisturbed_sync_possible [OF _ _ _ n(1)] S obtain S' where S': "undisturbed_sync M D S S'"
    "rwire S' = rwire S \<union> set (out_msgs r)" "(\<lambda>m. rdb_raft (rdb S' m)) = (\<lambda>m. rdb_raft (rdb S m))(n := (synced r)\<lparr>out_msgs := []\<rparr>)" by blast
  have "replicated_reachable ps M dir D S'" "unbroken S' = U"
    using undisturbed_sync_step [OF S'(1), of ps dir] S by (auto intro: replicated_reachable.step)
  moreover have "net (core_view ps M S') = net (core_view ps M S) \<union> set (out_msgs r)" using S'(2) by (simp add: cores_def as_durable_def)
  moreover have "node (core_view ps M S') = (node (core_view ps M S))(n := r\<lparr>stable_index := LastIndex r, hard_state_dirty := False, out_msgs := []\<rparr>)"
    using S'(3) n(1) by (auto simp: cores_def as_durable_def fun_eq_iff synced_def)
  ultimately show "\<exists>S' i b. (undisturbed_sync M D)\<^sup>*\<^sup>* S S' \<and>
      ((\<forall>d\<in>D. length d < 2 ^ 32) \<and> members ps M \<and> replicated_reachable ps M dir D S' \<and> unbroken S' = U) \<and>
      net (core_view ps M S') = net (core_view ps M S) \<union> set (out_msgs r) \<and>
      node (core_view ps M S') = (node (core_view ps M S))(n := r\<lparr>stable_index := i, hard_state_dirty := b, out_msgs := []\<rparr>)"
    using S r_into_rtranclp [of "undisturbed_sync M D", OF S'(1)] by blast
qed auto

text \<open>The table of a log whose last applied command is a put.\<close>

lemma kv_state_put:
  assumes "kv_fits (KvPut k v)" "log_ok l" "i < length l" "le_data (l ! i) = command (KvPut k v)"
  shows "kv_state l i k = Some v"
proof (cases i)
  case 0
  with assms(2,4) show ?thesis by (simp add: log_ok_sentinel sentinel_def EncodeCommand_def Let_def)
next
  case (Suc j)
  then have "take i (tl l) = take j (tl l) @ [l ! i]" using assms(3) by (simp add: take_Suc_conv_app_nth nth_tl)
  then show ?thesis
    using assms(4) rdb_codec.step_encode [OF assms(1)] by (simp add: kv_state_def)
qed


subsection \<open>Properties\<close>

text \<open>
  \<^bold>\<open>C11\<close> A cluster of replicated databases can always be written to. From every state it can reach,
  through lost messages and through restarts after power failures between the saves or, where whole
  records are left, within them, there is a sequence of calls in which nothing
  fails, after which a put is committed at every node at the same index, and every node that
  has not restarted since its first start reads it.
\<close>

theorem Replicated_can_always_write:
  assumes "\<forall>d\<in>D. length d < 2 ^ 32" "members ps M" "M \<noteq> {}" "replicated_reachable ps M dir D S"
    and "kv_fits (KvPut k v)" "command (KvPut k v) \<in> D"
    and "\<forall>m\<in>M. Suc (Suc (unat (current_term (rdb_raft (rdb S m))))) < 2 ^ 64 \<and> Suc (length (log (rdb_raft (rdb S m)))) < 2 ^ 64"
  shows "\<exists>S' i. (undisturbed_sync M D)\<^sup>*\<^sup>* S S' \<and> unbroken S' = unbroken S \<and>
    (\<forall>m\<in>M. commit_index (rdb_raft (rdb S' m)) = i \<and> le_data (entry_at (rdb_raft (rdb S' m)) i) = command (KvPut k v)) \<and>
    (\<forall>m\<in>unbroken S. ReplicatedDB_Get (rdb S' m) k = (OK, Some v))"
proof -
  from replicated_run.commits [of D ps M dir S "unbroken S" "command (KvPut k v)"] assms obtain S' i where
    S': "(undisturbed_sync M D)\<^sup>*\<^sup>* S S'" "replicated_reachable ps M dir D S'" "unbroken S' = unbroken S"
      "\<forall>m\<in>M. commit_index (rdb_raft (rdb S' m)) = i \<and> i \<le> LastIndex (rdb_raft (rdb S' m)) \<and>
         le_data (entry_at (rdb_raft (rdb S' m)) i) = command (KvPut k v)" by (auto simp: core_view_node)
  note inv = replicated_inv [OF S'(2) assms(2,1)]
  have mem: "membership (\<lambda>n. node_config n (ps n)) M" using assms(2) by (simp add: members_def)
  have "ReplicatedDB_Get (rdb S' m) k = (OK, Some v)" if "m \<in> unbroken S" for m
  proof -
    have m: "m \<in> M" "m \<in> unbroken S'" using that S'(3) inv by auto
    have "cluster_reachable (\<lambda>n. node_config n (ps n)) M (core_view ps M S')"
      using durable_inv_reachable [OF assms(1) mem conjunct1 [OF inv]] by (simp add: durable_inv_def)
    from node_facts [OF mem this m(1)] m(1) have "log_ok (log (rdb_raft (rdb S' m)))" by (simp add: core_view_node)
    then have "kv_state (log (rdb_raft (rdb S' m))) (unat i) k = Some v"
      using S'(4) m(1) by (intro kv_state_put [OF assms(5)]) (auto simp: entry_at_def intro: index_less)
    moreover have "rdb_table (rdb S' m) = kv_state (log (rdb_raft (rdb S' m))) (unat i)"
      using inv m S'(4) by (simp add: tables_ok_def)
    ultimately show ?thesis by (simp add: ReplicatedDB_Get_def)
  qed
  with S'(1,3,4) show ?thesis by blast
qed

text \<open>For instance after the run in which a restarted node has gone astray.\<close>

lemma split_room:
  "list_all (\<lambda>m. current_term (rdb_raft (fst split_run m)) < 100 \<and> length (log (rdb_raft (fst split_run m))) < 100) [1, 2, 3] \<and>
   snd (snd split_run) = [2, 3]"
  by code_simp

theorem Replicated_can_always_write_witness:
  "\<exists>(S :: rcluster) S'. (undisturbed_sync (set [1, 2, 3]) trio_commands)\<^sup>*\<^sup>* S S' \<and>
     ReplicatedDB_Get (rdb S 2) [1] = (NotFound (text_of [1]), None) \<and> ReplicatedDB_Get (rdb S' 2) [1] = (OK, Some [2])"
proof -
  obtain S where S: "replicated_reachable trio (set [1, 2, 3]) trio_dir trio_commands S" "in_step [1, 2, 3] S split_run"
    using trio_reachable(2) by blast
  obtain g msgs up where x: "split_run = (g, msgs, up)" by (rule prod_cases3)
  note raft = in_step_raft [OF S(2) [unfolded x]]
  have room: "\<forall>m\<in>set [1, 2, 3]. Suc (Suc (unat (current_term (rdb_raft (rdb S m))))) < 2 ^ 64 \<and>
      Suc (length (log (rdb_raft (rdb S m)))) < 2 ^ 64"
    using split_room [unfolded x] raft by (auto simp: word_less_nat_alt)
  have "rdb S 2 = (g 2)\<lparr>rdb_storage := rdb_storage (rdb S 2)\<rparr>" "unbroken S = {2, 3}"
    using S(2) [unfolded x] split_room [unfolded x] by auto
  then have "rdb_table (rdb S 2) [1] = None" "2 \<in> unbroken S"
    using split_values [unfolded x] by (simp_all, metis ReplicatedDB.select_convs(3) ReplicatedDB.surjective ReplicatedDB.update_convs(2))
  moreover obtain S' where "(undisturbed_sync (set [1, 2, 3]) trio_commands)\<^sup>*\<^sup>* S S'"
    "\<forall>m\<in>unbroken S. ReplicatedDB_Get (rdb S' m) [1] = (OK, Some [2])"
    using Replicated_can_always_write [OF trio_data trio_members _ S(1) _ _ room, of "[1]" "[2]"] by (auto simp: trio_commands_def)
  ultimately show ?thesis by (intro exI [of _ S] exI [of _ S']) (simp add: ReplicatedDB_Get_def)
qed

end
