(* ===== verification/Db_Bench.thy ===== *)
theory Db_Bench
  imports Db
begin

section \<open>The benchmark\<close>

text \<open>
  bench/db_bench.cc fills a database, reads from it and opens it again, and aborts where a status
  is not OK. The model has its control flow, keys and values, and for each result line the name and
  the number of operations; the measured times, the banner and the clean-up command at the end are
  not part of it. What the program gets from outside is a parameter: the argument as \<^verbatim>\<open>atoi\<close> reads it, the directory \<^verbatim>\<open>mkdtemp\<close> made, and the
  sequence of numbers the distribution \<^verbatim>\<open>pick\<close> draws.
\<close>

subsection \<open>Keys and values\<close>

fun decimal :: "nat \<Rightarrow> string" where
  "decimal n = (if n < 10 then [char_of (48 + n)] else decimal (n div 10) @ [char_of (48 + n mod 10)])"

declare decimal.simps [simp del]

text \<open>The conversion \<^verbatim>\<open>%012d\<close>: at least 12 characters, filled with zeros behind the sign.\<close>

definition padded :: "nat \<Rightarrow> string \<Rightarrow> string" where
  "padded w s = replicate (w - length s) (CHR ''0'') @ s"

definition format_012d :: "int \<Rightarrow> string" where
  "format_012d i = (if i < 0 then CHR ''-'' # padded 11 (decimal (nat (- i))) else padded 12 (decimal (nat i)))"

definition bytes_of :: "string \<Rightarrow> bytes" where
  "bytes_of s = map (\<lambda>c. of_nat (of_char c)) s"

definition MakeKey :: "int \<Rightarrow> bytes" where
  "MakeKey i = bytes_of (''key'' @ format_012d i)"

definition MakeValue :: bytes where
  "MakeValue = replicate 100 (of_nat (of_char (CHR ''v'')))"


subsection \<open>The three measurements\<close>

text \<open>\<open>Inl\<close> is the exit with status 1, with the message printed before.\<close>

type_synonym 'a aborting = "(string \<times> os_state) + 'a"

definition Check :: "Status \<Rightarrow> string \<Rightarrow> string option" where
  "Check s what =
     (if \<not> ok s then Some (''FATAL: '' @ what @ '': '' @ Status_ToString s @ [CHR 0x0A]) else None)"

definition OpenAt :: "string \<Rightarrow> os_state \<Rightarrow> (DBImpl \<times> os_state) aborting option" where
  "OpenAt path os =
     (case DB_Open new_Options path os of
        None \<Rightarrow> None
      | Some (s, db, os) \<Rightarrow>
          Some (case Check s ''DB::Open'' of Some m \<Rightarrow> Inl (m, os) | None \<Rightarrow> Inr (the db, os)))"

fun fill_loop :: "bytes \<Rightarrow> DBImpl \<Rightarrow> int list \<Rightarrow> os_state \<Rightarrow> (DBImpl \<times> os_state) aborting" where
  "fill_loop value db [] os = Inr (db, os)"
| "fill_loop value db (i # js) os =
     (case Put db (MakeKey i) value os of (s, db, os) \<Rightarrow>
        case Check s ''Put'' of Some m \<Rightarrow> Inl (m, os) | None \<Rightarrow> fill_loop value db js os)"

definition BenchFillSeq :: "string \<Rightarrow> int \<Rightarrow> os_state \<Rightarrow> ((string \<times> int) \<times> os_state) aborting option" where
  "BenchFillSeq path n os =
     (case OpenAt path os of
        None \<Rightarrow> None
      | Some (Inl e) \<Rightarrow> Some (Inl e)
      | Some (Inr (db, os)) \<Rightarrow>
          Some (case fill_loop MakeValue db [0..n - 1] os of
                  Inl e \<Rightarrow> Inl e
                | Inr (db, os) \<Rightarrow> Inr ((''fillseq'', n), DBImpl_destroy db os)))"

fun read_hot_loop :: "(int \<Rightarrow> int) \<Rightarrow> DBImpl \<Rightarrow> int list \<Rightarrow> string option" where
  "read_hot_loop pick db [] = None"
| "read_hot_loop pick db (i # js) =
     (case Check (fst (Get db (MakeKey (pick i)))) ''Get'' of Some m \<Rightarrow> Some m | None \<Rightarrow> read_hot_loop pick db js)"

definition BenchReadHot ::
  "(int \<Rightarrow> int) \<Rightarrow> string \<Rightarrow> int \<Rightarrow> os_state \<Rightarrow> ((string \<times> int) \<times> os_state) aborting option" where
  "BenchReadHot pick path n os =
     (case OpenAt path os of
        None \<Rightarrow> None
      | Some (Inl e) \<Rightarrow> Some (Inl e)
      | Some (Inr (db, os)) \<Rightarrow>
          Some (case read_hot_loop pick db [0..n - 1] of
                  Some m \<Rightarrow> Inl (m, os)
                | None \<Rightarrow> Inr ((''readhot'', n), DBImpl_destroy db os)))"

definition BenchRecover :: "string \<Rightarrow> os_state \<Rightarrow> ((string \<times> int) \<times> os_state) aborting option" where
  "BenchRecover path os =
     (case OpenAt path os of
        None \<Rightarrow> None
      | Some (Inl e) \<Rightarrow> Some (Inl e)
      | Some (Inr (db, os)) \<Rightarrow>
          Some (case Check (fst (Get db (MakeKey 0))) ''Get after recover'' of
                  Some m \<Rightarrow> Inl (m, os)
                | None \<Rightarrow> Inr ((''recover'', 1), DBImpl_destroy db os)))"

text \<open>
  The main function: exit status, result lines, and the machine as it is before the clean-up. \<open>arg\<close> is the argument if there is
  one, \<open>tmpl\<close> the directory if it could be made. A measurement that aborts ends the program.
\<close>

definition and_then ::
  "((string \<times> int) \<times> os_state) aborting option \<Rightarrow> (string \<times> int) list \<Rightarrow>
   ((string \<times> int) list \<Rightarrow> os_state \<Rightarrow> (int \<times> (string \<times> int) list \<times> os_state) option) \<Rightarrow>
   (int \<times> (string \<times> int) list \<times> os_state) option" where
  "and_then r out k =
     (case r of
        None \<Rightarrow> None
      | Some (Inl (m, os)) \<Rightarrow> Some (1, out, os)
      | Some (Inr (line, os)) \<Rightarrow> k (out @ [line]) os)"

definition db_bench_main ::
  "int option \<Rightarrow> string option \<Rightarrow> (int \<Rightarrow> int) \<Rightarrow> os_state \<Rightarrow> (int \<times> (string \<times> int) list \<times> os_state) option" where
  "db_bench_main arg tmpl pick os =
     (let num_entries = (case arg of None \<Rightarrow> 100000 | Some v \<Rightarrow> v) in
      if arg \<noteq> None \<and> num_entries \<le> 0 then Some (1, [], os)
      else case tmpl of
        None \<Rightarrow> Some (1, [], os)
      | Some path \<Rightarrow>
          and_then (BenchFillSeq path num_entries os) [] (\<lambda>out os.
          and_then (BenchReadHot pick path num_entries os) out (\<lambda>out os.
          and_then (BenchRecover path os) out (\<lambda>out os. Some (0, out, os)))))"


subsection \<open>Keys are of one width and tell the numbers apart\<close>

definition undecimal :: "string \<Rightarrow> nat" where
  "undecimal s = foldl (\<lambda>a c. 10 * a + (of_char c - 48)) 0 s"

lemma digit_value: "d < 10 \<Longrightarrow> of_char (char_of (48 + d) :: char) - 48 = (d :: nat)"
  by simp

lemma undecimal_decimal: "undecimal (decimal n) = n"
proof (induction n rule: decimal.induct)
  case (1 n)
  then show ?case
    by (subst decimal.simps) (auto simp: undecimal_def digit_value simp del: of_char_of)
qed

lemma undecimal_padded: "undecimal (padded w s) = undecimal s"
proof -
  have "foldl (\<lambda>a c. 10 * a + (of_char c - 48)) 0 (replicate k (CHR ''0'')) = (0 :: nat)" for k
    by (induction k) simp_all
  then show ?thesis by (simp add: undecimal_def padded_def)
qed

lemma length_decimal: "n < 10 ^ Suc k \<Longrightarrow> length (decimal n) \<le> Suc k"
proof (induction k arbitrary: n)
  case 0
  then show ?case by (subst decimal.simps) simp
next
  case (Suc k)
  then have "n div 10 < 10 ^ Suc k" by simp
  from Suc.IH [OF this] show ?case by (subst decimal.simps) simp
qed

lemma bytes_of_inject: "bytes_of s = bytes_of t \<longleftrightarrow> s = t"
proof -
  have "inj (\<lambda>c. of_nat (of_char c) :: byte)"
    by (rule inj_on_inverseI [where g = "\<lambda>b. char_of (unat b)"]) (simp add: unat_of_nat)
  then show ?thesis by (simp add: bytes_of_def inj_map_eq_map)
qed

lemma MakeKey_inject:
  assumes "0 \<le> i" "0 \<le> j" "MakeKey i = MakeKey j"
  shows "i = j"
proof -
  have "padded 12 (decimal (nat i)) = padded 12 (decimal (nat j))"
    using assms by (simp add: MakeKey_def bytes_of_inject format_012d_def)
  from arg_cong [OF this, of undecimal] have "nat i = nat j" by (simp only: undecimal_padded undecimal_decimal)
  with assms(1,2) show ?thesis by simp
qed

lemma MakeKey_length: "0 \<le> i \<Longrightarrow> i < 10 ^ 12 \<Longrightarrow> length (MakeKey i) = 15"
  using length_decimal [of "nat i" 11]
  by (simp add: MakeKey_def bytes_of_def format_012d_def padded_def)


subsection \<open>Opening, writing and closing with no call failing\<close>

text \<open>A disk with the log of some writes, and a database open on it.\<close>

definition disk_has :: "string \<Rightarrow> kv_op list \<Rightarrow> os_state \<Rightarrow> bool" where
  "disk_has path ops os \<longleftrightarrow> calm os \<and> list_all kv_fits ops \<and> DbFile path kWalName \<notin> os_dirs os \<and>
     (os_files os (DbFile path kWalName) = Some (db_log ops) \<or> os_files os (DbFile path kWalName) = None \<and> ops = []) \<and>
     stable_contents os (DbFile path kWalName) = db_log ops"

definition db_open :: "string \<Rightarrow> kv_op list \<Rightarrow> DBImpl \<Rightarrow> os_state \<Rightarrow> bool" where
  "db_open path ops db os \<longleftrightarrow> calm os \<and> DbFile path kWalName \<notin> os_dirs os \<and> dbpath db = path \<and> db_inv ops db os"

lemma DB_Open_disk:
  assumes "disk_has path ops os"
  shows "\<exists>db os'. DB_Open new_Options path os = Some (OK, Some db, os') \<and> db_open path ops db os'"
proof -
  have a: "calm os" "DbFile path kWalName \<notin> os_dirs os" "list_all kv_fits ops" using assms by (simp_all add: disk_has_def)
  from DB_Open_create [OF a(1,2)] obtain os1 where
    o1: "DB_Open new_Options path os = Recover path os1" "calm os1" "os_files os1 = os_files os" "os_stable os1 = os_stable os"
      "DbFile path kWalName \<notin> os_dirs os1" .
  from Recover_clean [OF o1(2) a(3) o1(5)] o1(1,3-5) assms show ?thesis
    by (auto simp: disk_has_def db_open_def stable_contents_def)
qed

lemma OpenAt_disk:
  assumes "disk_has path ops os"
  shows "\<exists>db os'. OpenAt path os = Some (Inr (db, os')) \<and> db_open path ops db os'"
  using DB_Open_disk [OF assms] by (auto simp: OpenAt_def Check_def)

lemma PosixClose_kept: "disk_kept (snd fs) (snd (snd (PosixClose fs)))"
  by (auto simp: PosixClose_def sys_close_def Let_def split: prod.splits option.splits dest: next_result_kept)

lemma close_disk:
  assumes "db_open path ops db os"
  shows "disk_has path ops (DBImpl_destroy db os)"
proof -
  obtain s f os1 where "PosixClose (wal_file db, os) = (s, (f, os1))" by (metis prod_cases3)
  with disk_kept_trans [OF PosixClose_kept [of "(wal_file db, os)"] PosixFile_destroy_kept, of f]
  have k: "disk_kept os (DBImpl_destroy db os)" by (simp add: DBImpl_destroy_def posix_writable_def)
  have "calm (DBImpl_destroy db os)" using disk_kept_calm [OF k] assms by (simp add: db_open_def)
  moreover have "os_files os (DbFile path kWalName) = Some (db_log ops)" "stable_contents os (DbFile path kWalName) = db_log ops"
    using assms by (auto simp: db_open_def db_inv_def posix_opened_def posix_contents_def posix_durable_def file_contents_def
        split: option.splits)
  ultimately show ?thesis
    using k assms by (simp add: disk_has_def db_open_def db_inv_def disk_kept_def stable_contents_def)
qed

definition bench_ops :: "int list \<Rightarrow> kv_op list" where
  "bench_ops js = map (\<lambda>i. KvPut (MakeKey i) MakeValue) js"

lemma bench_fits: "0 \<le> i \<Longrightarrow> i < 10 ^ 12 \<Longrightarrow> kv_fits (KvPut (MakeKey i) MakeValue)"
  by (simp add: MakeKey_length MakeValue_def)

lemma fill_loop_ok:
  assumes "db_open path ops db os" "\<forall>i\<in>set js. 0 \<le> i \<and> i < 10 ^ 12"
  shows "\<exists>db' os'. fill_loop MakeValue db js os = Inr (db', os') \<and> db_open path (ops @ bench_ops js) db' os'"
  using assms
proof (induction js arbitrary: ops db os)
  case Nil
  then show ?case by (simp add: bench_ops_def)
next
  case (Cons i js)
  obtain s db1 os1 where w: "db_write db (KvPut (MakeKey i) MakeValue) os = (s, db1, os1)" by (metis prod_cases3)
  have fit: "kv_fits (KvPut (MakeKey i) MakeValue)" using Cons.prems(2) by (intro bench_fits) simp_all
  have "db_inv ops db os" "calm os" using Cons.prems(1) by (simp_all add: db_open_def)
  note sp = db_write_spec [OF this(1) fit w]
  have "ok s" "calm os1" using sp(3) \<open>calm os\<close> by simp_all
  then have "db_open path (ops @ [KvPut (MakeKey i) MakeValue]) db1 os1"
    using sp Cons.prems(1) by (simp add: db_open_def)
  from Cons.IH [OF this] Cons.prems(2) w \<open>ok s\<close> show ?case by (simp add: Check_def bench_ops_def)
qed

lemma bench_table: "kv_replay (bench_ops js) = (\<lambda>k. if k \<in> MakeKey ` set js then Some MakeValue else None)"
proof (induction js rule: rev_induct)
  case Nil
  then show ?case by (simp add: bench_ops_def kv_replay_def)
next
  case (snoc i js)
  then show ?case by (auto simp: bench_ops_def kv_replay_snoc)
qed

lemma read_hot_loop_ok:
  assumes "table db = kv_replay (bench_ops [0..n - 1])" "\<forall>i\<in>set js. 0 \<le> pick i \<and> pick i < n"
  shows "read_hot_loop pick db js = None"
  using assms(2)
proof (induction js)
  case (Cons i js)
  then have "MakeKey (pick i) \<in> MakeKey ` set [0..n - 1]" by auto
  with Cons assms(1) show ?case by (simp add: Get_def bench_table Check_def)
qed simp


subsection \<open>Properties\<close>

text \<open>
  \<^bold>\<open>C35\<close> The benchmark on a machine where no call fails, in a new directory and with numbers drawn
  within range, runs to its end: it never aborts, exits with status 0 and has printed its three
  results, and the database it has written opens with as many keys as it was asked for.
\<close>

theorem db_bench_completes:
  assumes "calm os" "os_files os (DbFile path kWalName) = None" "os_stable os (DbFile path kWalName) = None"
    and "DbFile path kWalName \<notin> os_dirs os" "0 < n" "n < 2 ^ 31"
    and "\<forall>i. 0 \<le> i \<and> i < n \<longrightarrow> 0 \<le> pick i \<and> pick i < n"
  shows "\<exists>os' db os''. db_bench_main (Some n) (Some path) pick os =
      Some (0, [(''fillseq'', n), (''readhot'', n), (''recover'', 1)], os') \<and>
    DB_Open new_Options path os' = Some (OK, Some db, os'') \<and> card (dom (table db)) = nat n"
proof -
  let ?js = "[0..n - 1]"
  have "disk_has path [] os" using assms(1-4) by (simp add: disk_has_def db_log_def stable_contents_def)
  from OpenAt_disk [OF this] obtain db1 os1 where o1: "OpenAt path os = Some (Inr (db1, os1))" "db_open path [] db1 os1" by blast
  have "\<forall>i\<in>set ?js. 0 \<le> i \<and> i < 10 ^ 12" using assms(6) by auto
  from fill_loop_ok [OF o1(2) this] obtain db2 os2 where
    o2: "fill_loop MakeValue db1 ?js os1 = Inr (db2, os2)" "db_open path (bench_ops ?js) db2 os2" by auto
  note d2 = close_disk [OF o2(2)]
  from OpenAt_disk [OF d2] obtain db3 os3 where
    o3: "OpenAt path (DBImpl_destroy db2 os2) = Some (Inr (db3, os3))" "db_open path (bench_ops ?js) db3 os3" by blast
  have hot: "read_hot_loop pick db3 ?js = None"
    using assms(7) o3(2) by (intro read_hot_loop_ok [where n = n]) (simp_all add: db_open_def db_inv_def)
  note d3 = close_disk [OF o3(2)]
  from OpenAt_disk [OF d3] obtain db4 os4 where
    o4: "OpenAt path (DBImpl_destroy db3 os3) = Some (Inr (db4, os4))" "db_open path (bench_ops ?js) db4 os4" by blast
  then have "table db4 = kv_replay (bench_ops ?js)" by (simp add: db_open_def db_inv_def)
  moreover have "MakeKey 0 \<in> MakeKey ` set ?js" using assms(5) by auto
  ultimately have rec: "Check (fst (Get db4 (MakeKey 0))) ''Get after recover'' = None"
    by (simp add: Get_def bench_table Check_def)
  from DB_Open_disk [OF close_disk [OF o4(2)]] obtain db5 os5 where
    o5: "DB_Open new_Options path (DBImpl_destroy db4 os4) = Some (OK, Some db5, os5)" "db_open path (bench_ops ?js) db5 os5" by blast
  have "dom (table db5) = MakeKey ` set ?js"
    using o5(2) by (auto simp: db_open_def db_inv_def bench_table dom_def)
  moreover have "inj_on MakeKey (set ?js)" by (auto intro!: inj_onI MakeKey_inject)
  ultimately have "card (dom (table db5)) = nat n" by (simp add: card_image)
  moreover have "db_bench_main (Some n) (Some path) pick os =
      Some (0, [(''fillseq'', n), (''readhot'', n), (''recover'', 1)], DBImpl_destroy db4 os4)"
    using assms(5) o1(1) o2(1) o3(1) hot o4(1) rec
    by (simp add: db_bench_main_def and_then_def BenchFillSeq_def BenchReadHot_def BenchRecover_def)
  ultimately show ?thesis using o5(1) by blast
qed

theorem db_bench_completes_witness:
  "\<exists>os' db os''. db_bench_main (Some 3) (Some ''/tmp/b'') (\<lambda>i. 2 - i) fresh_os =
      Some (0, [(''fillseq'', 3), (''readhot'', 3), (''recover'', 1)], os') \<and>
    DB_Open new_Options ''/tmp/b'' os' = Some (OK, Some db, os'') \<and> card (dom (table db)) = nat 3"
  by (rule db_bench_completes) (simp_all add: fresh_os_def calm_def)

end
