(* ===== verification/Spec2Isabelle.thy ===== *)
theory Spec2Isabelle
  imports Replicated_Progress Db_Bench
begin

text \<open>
  \<^bold>\<open>A model of mini-lsm and its correctness.\<close>

  mini-lsm (C++, under src/) is a key-value store in two forms on one write-ahead log: \<^verbatim>\<open>DB\<close>, a
  table in memory whose writes are logged and synced before they are visible, and
  \<^verbatim>\<open>ReplicatedDB\<close>, the same table as the state machine of a Raft log whose term, vote and entries
  are kept in a log of the same format. From the bottom:

  \<^item> the environment (env.h, env_posix.cc): files over the system calls of POSIX;
  \<^item> the checksum and the fixed-width fields (crc32c.cc, coding.h);
  \<^item> the write-ahead log (wal_writer.cc, wal_reader.cc): records cut into checksummed fragments that
    do not cross blocks of 32 KB, and a reader that puts them together and survives a torn tail;
  \<^item> the database (db.cc): one log, one table;
  \<^item> the Raft core (raft/raft.cc): a state machine of messages and ticks, without any I/O; messages
    are collected for the caller to send, and what has to be durable is flagged for the caller to
    save;
  \<^item> the Raft storage (raft/storage.cc): saves the hard state and the log of the core, and recovers
    them;
  \<^item> the replicated database (raft/replicated_db.cc): encodes writes as commands, drives core and
    storage, and applies what is committed.


  \<^bold>\<open>Theories and sources.\<close>

  \<^descr>[Prelude] the types of bytes and machine words, and shared facts on words, lists and iteration.
  \<^descr>[Base\_Types] \<^verbatim>\<open>Status\<close> and \<^verbatim>\<open>Slice\<close> (status.h, slice.h). A slice is its bytes.
  \<^descr>[Posix] the operating system that env\_posix.cc calls: files by name, descriptors with offsets,
    the length of each file that is on stable storage, and a script that decides, call by call,
    whether it fails, is interrupted, or transfers less than it was asked for. A crash keeps of every
    file some prefix that is no shorter than its synced part.
  \<^descr>[Env] \<^verbatim>\<open>WritableFile\<close> and \<^verbatim>\<open>SequentialFile\<close> as records of operations on an abstract file state,
    and every function of env\_posix.cc, its retry loops included.
  \<^descr>[Env\_Laws] the contracts of these interfaces as the locales \<open>writable_file\<close>, \<open>reliable_file\<close>
    and \<open>sequential_file\<close>, each interpreted on the Posix implementation. The log is verified
    against the locales only.
  \<^descr>[Coding, Crc32c] coding.h and crc32c.cc. The table-driven checksum is the bitwise one; any change
    within four consecutive bytes is detected; mask and unmask are inverse.
  \<^descr>[Wal\_Writer, Wal\_Reader, Wal\_Log] wal\_writer.cc, wal\_reader.cc, and both together. The first
    gives the bytes that a sequence of \<^verbatim>\<open>AddRecord\<close> calls leaves, the second what the reader makes
    of a well-formed, a cut or a damaged file, and the third joins them: the round trip through
    failures of the writer and a cut at any byte, the detection of damage, termination of the read
    loop on arbitrary bytes, and what an append behind a torn header does.
  \<^descr>[Kv] the abstract specification of both databases: a map from keys to values, the writes on it,
    and the locale \<open>kv_codec\<close> of a record format with its replay, interpreted in Db and in
    Replicated\_Db.
  \<^descr>[Db] db.cc: open, recovery, \<^verbatim>\<open>Put\<close>, \<^verbatim>\<open>Delete\<close>, \<^verbatim>\<open>Get\<close> and destruction. After any writes
    under any failures and a crash, the database reopens to the table of the acknowledged writes.
  \<^descr>[Db\_Bench] bench/db\_bench.cc, a client of the database: keys and values, the three measurements
    and the main program. On a machine where no call fails it runs to its end.
  \<^descr>[Raft] raft.cc and messages.h, one definition per member function, on the record \<open>Raft\<close> of the
    data members.
  \<^descr>[Raft\_Log, Raft\_Node, Raft\_Entries] facts on a single core: the vector with its sentinel as a
    list; what each call keeps of the log, the hard state and the watermark of saved entries; that
    the core makes no entry up.
  \<^descr>[Raft\_Spec] the protocol as an abstract transition system over any quorum system (locale
    \<open>quorum_system\<close>, interpreted by the majorities \<^verbatim>\<open>QuorumSize\<close> counts), and its safety.
  \<^descr>[Cluster] nodes running Raft over a network that loses, delays, reorders and duplicates messages.
    Every step of the code is a sequence of steps of the protocol under an abstraction relation; from
    it follow election safety, log matching, leader completeness and the agreement of committed logs.
    There a restart keeps term, vote and log by definition, and one in the middle of a save
    (\<open>halfway\<close>) keeps the old state and an initial part of what the call changed.
  \<^descr>[Raft\_Record, Raft\_Storage] storage.cc: the record format with its bounds-checked decoder, replay,
    \<^verbatim>\<open>Open\<close>, \<^verbatim>\<open>Recover\<close>, \<^verbatim>\<open>Save\<close>. Whatever a \<^verbatim>\<open>Save\<close> returned, a crash leaves a file that recovers
    what was stored before and an initial part of what this call wrote.
  \<^descr>[Raft\_Durable] nodes made of core, storage and operating system: every call into the core is
    followed by \<^verbatim>\<open>Save\<close>, and messages leave only if it returned OK, as storage.h asks of the caller.
    Such a cluster refines that of Cluster, with power failures between the saves and within one, at
    any point that leaves whole records; the durability Cluster takes for granted is proved here.
  \<^descr>[Raft\_Progress] liveness, in the locale \<open>drivable\<close> of everything that runs the cores of a cluster:
    from every state it can reach there are turns of its nodes, with no failure among them, after which
    a new command is committed at all of them. The schedule is given phase by phase: a node steps
    down, stands for election until its term is the highest, collects votes, proposes, goes
    back index by index where a peer's log does not fit, and announces the commit. Interpreted
    on the clusters of Cluster.
  \<^descr>[Replicated\_Db] replicated\_db.cc, with the election loop of \<^verbatim>\<open>Open\<close>. A node alone in its cluster:
    its table is that of all acknowledged writes, and perhaps of some that a power failure cut short,
    through any number of restarts after power failures that leave whole records (\<open>rdb_life\<close>), every write succeeds where no system call fails, and the election ends.
  \<^descr>[Replicated\_Cluster] several nodes of \<^verbatim>\<open>ReplicatedDB\<close>, driven through \<^verbatim>\<open>raft()\<close> and \<^verbatim>\<open>Sync\<close>: their
    tables agree wherever they have applied the same index and have not restarted, and the run
    \<open>split_run\<close> shows why restarted ones are excluded. It composes all layers.
  \<^descr>[Replicated\_Progress] the locale \<open>drivable\<close> interpreted on these: a client can always write.


  \<^bold>\<open>Correspondence.\<close> A class is a record of its data members, an enumeration a datatype or, where
  its values are written to disk, constants. A member function takes the object and returns it
  updated; the operating system is threaded through all functions that reach it. An error is a
  \<^verbatim>\<open>Status\<close> in the result, as in the code. Terms, indices, offsets and lengths have the width they have
  in the code and wrap around. A member that is a reference or a pointer to a part (the writer's
  file) is that part, passed along. Virtual functions are fields of the records of operations.

  \<^bold>\<open>Loops and bounds.\<close> Loops over finite data are structural recursion or carry a measure; the write
  loop of \<^verbatim>\<open>Append\<close> recurs on the remaining bytes and on the script of the system, which is finite and
  after which every call succeeds. The read loop, the replay loop and the election loop are partial
  functions with \<^term>\<open>None\<close> for a run that does not end, and that they end is proved.
  Hypotheses on sizes are those at which a counter of the code would wrap: keys, values and commands
  are shorter than \<open>2^32\<close> bytes, as their length fields are 32 bits wide; a
  step of a cluster is taken only while terms and indices are below \<open>2^64 - 1\<close>, and its progress is
  shown where terms are one less, as an election raises them; a peer list has no
  duplicates and no node 0, which the code uses for no vote.

  \<^bold>\<open>Where the code falls short.\<close> Five theorems show behaviour that contradicts the promises of the
  headers: both databases append behind a torn record header without cutting it off, and
  lose what is stored next (\<open>DB_loses_write_after_torn_header\<close> and
  \<open>RaftStorage_forgets_vote_after_torn_header\<close>); a \<^verbatim>\<open>Save\<close> repeated after a failed fsync stores its
  entries twice (\<open>Save_retry_duplicates_entries\<close>); and an open whose read of the log fails returns OK
  with what was not read missing (\<open>DB_open_hides_read_error\<close> and \<open>RaftStorage_open_hides_read_error\<close>).
  Histories that continue over several restarts therefore have these faults only: power may fail
  between saves, and at any point of one if whole records are left (\<open>whole_file\<close>), after any failures of
  system calls within it. A node that goes on running has had its saves return OK, and reads of
  a recovery do not fail. Where a write, or a save, tears a record, it is followed up to the recovery
  behind it.

  A sixth, \<open>Replicated_restart_diverges\<close>, is about a limit that replicated\_db.cc names: \<^verbatim>\<open>Open\<close> of a node
  of several applies the whole recovered log, committed or not. In the run it gives, two nodes with
  equal logs and equal commit and applied indices answer reads differently, and nothing repairs the
  table of the restarted one. The agreement of tables is therefore proved for nodes that have
  not restarted; the logs of restarted nodes are covered by Raft\_Durable.

  \<^bold>\<open>Not modelled.\<close> The tests; of the benchmark the measured times, the layout of its output and the
  command that removes its directory; the lifetime of the buffers behind slices; failure of
  memory allocation; a crash that loses the directory entry of a synced file, or that reorders or
  damages bytes of a file beside cutting it; threads, as the code has none.
\<close>

end
